(* ===== verification/Prelude.thy ===== *)
theory Prelude
  imports Main "HOL-Library.Word"
begin

unbundle bit_operations_syntax

text \<open>
  Shared vocabulary of the development: names for the machine integers of the C++ sources,
  the collections of rewrite rules that the component proofs use, and generic facts on
  lists, association lists and words.

  Integer conventions. \<open>uint8_t\<close>, \<open>uint16_t\<close>, \<open>uint32_t\<close>, \<open>uint64_t\<close> and \<open>size_t\<close> are words
  of their width, so \<open>+\<close>, \<open>-\<close> and \<open>*\<close> wrap exactly as the unsigned operations of the program
  do. \<open>int32_t\<close> is a 32-bit word that is read with \<open>sint\<close>.
\<close>

type_synonym u8 = "8 word"
type_synonym u16 = "16 word"
type_synonym u32 = "32 word"
type_synonym u64 = "64 word"
type_synonym i32 = "32 word"

named_theorems book_simps \<open>rewrite rules of the matching books\<close>
named_theorems map_simps \<open>rewrite rules of the association-list maps\<close>
named_theorems oms_simps \<open>rewrite rules of the order management system\<close>

section \<open>Association lists as C++ maps\<close>

text \<open>
  \<open>map_of\<close> is the lookup (\<open>find\<close>). \<open>al_erase\<close> is \<open>erase(key)\<close>. \<open>al_assign\<close> overwrites, through a
  reference, the value that a present key maps to. \<open>al_put\<close> is \<open>m[key] = value\<close> on an unordered
  map: the position is immaterial because no code iterates over it.
\<close>

definition al_erase :: "'k \<Rightarrow> ('k \<times> 'v) list \<Rightarrow> ('k \<times> 'v) list" where
  "al_erase k m = filter (\<lambda>e. fst e \<noteq> k) m"

definition al_assign :: "'k \<Rightarrow> 'v \<Rightarrow> ('k \<times> 'v) list \<Rightarrow> ('k \<times> 'v) list" where
  "al_assign k v m = map (\<lambda>e. if fst e = k then (k, v) else e) m"

definition al_put :: "'k \<Rightarrow> 'v \<Rightarrow> ('k \<times> 'v) list \<Rightarrow> ('k \<times> 'v) list" where
  "al_put k v m = (k, v) # al_erase k m"

lemma map_of_al_erase [simp, map_simps]:
  "map_of (al_erase k m) = (map_of m)(k := None)"
  by (induction m) (auto simp: al_erase_def)

lemma map_of_al_put [simp, map_simps]:
  "map_of (al_put k v m) = (map_of m)(k \<mapsto> v)"
  by (simp add: al_put_def)

lemma map_of_al_assign [map_simps]:
  "map_of (al_assign k v m) k' =
     (if k' = k then map_option (\<lambda>_. v) (map_of m k) else map_of m k')"
  by (induction m) (auto simp: al_assign_def)

lemma keys_al_assign [simp, map_simps]: "map fst (al_assign k v m) = map fst m"
  by (induction m) (auto simp: al_assign_def)

lemma length_al_assign [simp, map_simps]: "length (al_assign k v m) = length m"
  by (simp add: al_assign_def)

lemma distinct_al_erase [intro]: "distinct (map fst m) \<Longrightarrow> distinct (map fst (al_erase k m))"
  unfolding al_erase_def by (rule distinct_map_filter)

lemma set_al_erase [simp, map_simps]: "set (al_erase k m) = {e \<in> set m. fst e \<noteq> k}"
  by (auto simp: al_erase_def)

lemma distinct_al_put [intro]: "distinct (map fst m) \<Longrightarrow> distinct (map fst (al_put k v m))"
  by (auto simp: al_put_def)

lemma al_erase_Nil [simp]: "al_erase k [] = []"
  by (simp add: al_erase_def)

lemma al_erase_Cons [simp]:
  "al_erase k (e # m) = (if fst e = k then al_erase k m else e # al_erase k m)"
  by (simp add: al_erase_def)

lemma al_erase_rev: "al_erase k (rev m) = rev (al_erase k m)"
  by (simp add: al_erase_def rev_filter)

lemma al_assign_rev: "al_assign k v (rev m) = rev (al_assign k v m)"
  by (simp add: al_assign_def rev_map)

lemma al_assign_simps [simp]:
  "al_assign k v [] = []"
  "al_assign k v (e # m) = (if fst e = k then (k, v) else e) # al_assign k v m"
  by (simp_all add: al_assign_def)

lemma al_assign_absent: "k \<notin> fst ` set m \<Longrightarrow> al_assign k v m = m"
  by (induction m) auto

lemma al_erase_absent: "k \<notin> fst ` set m \<Longrightarrow> al_erase k m = m"
  by (induction m) auto

lemma length_al_erase_less:
  "k \<in> fst ` set m \<Longrightarrow> length (al_erase k m) < length m"
  unfolding al_erase_def by (auto intro: length_filter_less)

section \<open>Sets\<close>

lemma disjoint_mono: "A \<inter> B = {} \<Longrightarrow> A' \<subseteq> A \<Longrightarrow> B' \<subseteq> B \<Longrightarrow> A' \<inter> B' = {}"
  by blast

lemma ball_mono: "\<forall>x \<in> A \<union> B. P x \<Longrightarrow> A' \<subseteq> A \<Longrightarrow> B' \<subseteq> B \<Longrightarrow> \<forall>x \<in> A' \<union> B'. P x"
  by blast

lemma ball_ball_mono:
  "\<forall>x \<in> A. \<forall>y \<in> B. P x y \<Longrightarrow> A' \<subseteq> A \<Longrightarrow> B' \<subseteq> B \<Longrightarrow> \<forall>x \<in> A'. \<forall>y \<in> B'. P x y"
  by blast

section \<open>Words\<close>

lemma word_gt_0_iff: "(0 < (x :: 'a::len word)) = (x \<noteq> 0)"
  by (simp add: word_gt_0)

lemma unat_min_word: "unat (min a b :: 'a::len word) = min (unat a) (unat b)"
  by (auto simp: min_def word_le_nat_alt)

lemma unat_sub_min:
  "unat (a - min a b) = unat a - min (unat a) (unat b)" for a b :: "'a::len word"
  by (auto simp: min_def word_le_nat_alt unat_sub)

lemma sub_min_eq_0_iff: "(b - min a b = 0) = (b \<le> a)" for a b :: "'a::len word"
  by (auto simp: min_def)

lemma word_le_less_succ: "n + 1 \<noteq> 0 \<Longrightarrow> x \<le> n \<Longrightarrow> x < n + 1" for x n :: "'a::len word"
  using unatSuc [of n] by (simp add: word_less_nat_alt word_le_nat_alt add.commute)

lemma unat_u32: "unat (x :: u32) < 4294967296"
  using unsigned_less [of x] by simp

lemma unat_widen [simp]: "unat (ucast (x :: u32) :: u64) = unat x"
proof -
  have "unat x < 2 ^ 64" using unat_u32 [of x] by simp
  then show ?thesis by (simp add: unsigned_ucast_eq take_bit_nat_eq_self)
qed

section \<open>Sums over finite maps\<close>

definition map_total :: "('v \<Rightarrow> 'a::comm_monoid_add) \<Rightarrow> ('k \<rightharpoonup> 'v) \<Rightarrow> 'a" where
  "map_total f m = (\<Sum>k \<in> dom m. f (the (m k)))"

lemma map_total_empty [simp]: "map_total f (\<lambda>_. None) = 0"
  by (simp add: map_total_def)

lemma map_total_upd_new:
  assumes "finite (dom m)" "m k = None"
  shows "map_total f (m(k \<mapsto> v)) = f v + map_total f m"
proof -
  have "(\<Sum>x \<in> dom m. f (the ((m(k \<mapsto> v)) x))) = (\<Sum>x \<in> dom m. f (the (m x)))"
    using assms(2) by (intro sum.cong) auto
  then show ?thesis using assms by (simp add: map_total_def domIff)
qed

lemma map_total_remove:
  assumes "finite (dom m)" "m k = Some v"
  shows "map_total f m = f v + map_total f (m(k := None))"
proof -
  have "m = (m(k := None))(k \<mapsto> v)" using assms(2) by auto
  moreover have "finite (dom (m(k := None)))" using assms(1) by simp
  ultimately show ?thesis using map_total_upd_new [of "m(k := None)" k f v] by simp
qed

lemma map_total_change:
  assumes "finite (dom m)" "m k = Some v"
  shows "map_total f (m(k := new)) = (case new of None \<Rightarrow> 0 | Some w \<Rightarrow> f w) + map_total f (m(k := None))"
  using map_total_upd_new [of "m(k := None)" k f] assms by (cases new) simp_all

end
