(* ===== verification/Common.thy ===== *)
theory Common
  imports Prelude
begin

text \<open>
  The enumerations and constants of \<open>include/nts/common.h\<close>. The matching library has its own
  copy of \<open>Side\<close> with the same two enumerators; both are \<open>side\<close> here.
\<close>

datatype side = Buy | Sell

datatype order_type = LimitOrder | MarketOrder | IOC

datatype order_status =
  Empty | PendingNew | Sent | Live | PartiallyFilled | Filled | Cancelled | Rejected

text \<open>An \<open>ExecType\<close> read from the wire may hold a value without enumerator: \<open>OtherExec\<close>.\<close>

datatype exec_type =
  NewAck | Fill | PartialFill | CancelAck | Reject | CancelReject | OtherExec u8

definition MAX_POSITION :: i32 where
  "MAX_POSITION = 500"

definition opposite :: "side \<Rightarrow> side" where
  "opposite s = (case s of Buy \<Rightarrow> Sell | Sell \<Rightarrow> Buy)"

end
