(* ===== verification/Ordered_Map.thy ===== *)
theory Ordered_Map
  imports Prelude
begin

text \<open>
  The part of \<open>std::map<Key, T, Compare>\<close> that the books use. A map is the list of its elements
  in iteration order, so \<open>begin()\<close> is the head and \<open>std::prev(end())\<close> (or \<open>rbegin()\<close>) the last
  element. \<open>omap_put lt\<close> is \<open>m[key] = value\<close> for a container ordered by \<open>lt\<close>: it overwrites a
  present key and otherwise inserts at the key's position. The locale states what the container
  needs of its comparator; it is interpreted for \<open>std::less\<close> and \<open>std::greater\<close> on prices.
\<close>

fun omap_put :: "('k \<Rightarrow> 'k \<Rightarrow> bool) \<Rightarrow> 'k \<Rightarrow> 'v \<Rightarrow> ('k \<times> 'v) list \<Rightarrow> ('k \<times> 'v) list" where
  "omap_put lt k v [] = [(k, v)]"
| "omap_put lt k v ((k', v') # m) =
     (if lt k k' then (k, v) # (k', v') # m
      else if k = k' then (k, v) # m
      else (k', v') # omap_put lt k v m)"

definition omap_sorted :: "('k \<Rightarrow> 'k \<Rightarrow> bool) \<Rightarrow> ('k \<times> 'v) list \<Rightarrow> bool" where
  "omap_sorted lt m = sorted_wrt lt (map fst m)"

lemma omap_sorted_Nil [simp, intro]: "omap_sorted lt []"
  by (simp add: omap_sorted_def)

lemma omap_sorted_Cons [simp]:
  "omap_sorted lt (e # m) = ((\<forall>k \<in> fst ` set m. lt (fst e) k) \<and> omap_sorted lt m)"
  by (auto simp: omap_sorted_def)

lemma omap_sorted_erase [intro]: "omap_sorted lt m \<Longrightarrow> omap_sorted lt (al_erase k m)"
  by (induction m) auto

lemma omap_sorted_assign [simp]: "omap_sorted lt (al_assign k v m) = omap_sorted lt m"
  by (simp add: omap_sorted_def)

lemma omap_sorted_rev: "omap_sorted lt (rev m) = omap_sorted (\<lambda>a b. lt b a) m"
  by (simp add: omap_sorted_def rev_map [symmetric] sorted_wrt_rev)

lemma keys_omap_put: "fst ` set (omap_put lt k v m) = insert k (fst ` set m)"
  by (induction lt k v m rule: omap_put.induct) (simp_all add: insert_commute)

locale ordered_keys =
  fixes lt :: "'k \<Rightarrow> 'k \<Rightarrow> bool"
  assumes lt_irrefl: "\<not> lt a a"
    and lt_trans: "lt a b \<Longrightarrow> lt b c \<Longrightarrow> lt a c"
    and lt_total: "lt a b \<or> a = b \<or> lt b a"
begin

lemma sorted_put: "omap_sorted lt m \<Longrightarrow> omap_sorted lt (omap_put lt k v m)"
  using lt_trans lt_total by (induction m) (fastforce simp: keys_omap_put)+

lemma sorted_distinct: "omap_sorted lt m \<Longrightarrow> distinct (map fst m)"
  using lt_irrefl by (induction m) auto

lemma find_put: "omap_sorted lt m \<Longrightarrow> map_of (omap_put lt k v m) = (map_of m)(k \<mapsto> v)"
proof (induction m)
  case (Cons e m)
  have "map_of m k = None" if "lt k (fst e)"
  proof -
    from that Cons.prems have "\<forall>k' \<in> fst ` set m. lt k k'" using lt_trans by auto
    with lt_irrefl have "k \<notin> fst ` set m" by blast
    then show ?thesis by (simp add: map_of_eq_None_iff)
  qed
  with Cons show ?case using lt_irrefl by (cases e) (auto simp: fun_eq_iff)
qed simp

lemma begin_least: "omap_sorted lt (e # m) \<Longrightarrow> k \<in> fst ` set m \<Longrightarrow> lt (fst e) k"
  by (auto simp del: image_iff)

text \<open>Writing through a reference into the mapped value of a present key is \<open>m[key] = value\<close>.\<close>

lemma put_present:
  "omap_sorted lt m \<Longrightarrow> k \<in> fst ` set m \<Longrightarrow> omap_put lt k v m = al_assign k v m"
proof (induction m)
  case (Cons e m)
  show ?case
  proof (cases "k = fst e")
    case True
    with Cons.prems lt_irrefl have "k \<notin> fst ` set m" by auto
    with True lt_irrefl show ?thesis by (cases e) (auto simp: al_assign_absent)
  next
    case False
    with Cons.prems have mem: "k \<in> fst ` set m" by auto
    with Cons.prems have "lt (fst e) k" by auto
    then have "\<not> lt k (fst e)" using lt_irrefl lt_trans by blast
    with False mem Cons show ?thesis by (cases e) auto
  qed
qed simp

end

interpretation less_keys: ordered_keys "(<) :: 'a::linorder \<Rightarrow> 'a \<Rightarrow> bool"
  by unfold_locales auto

interpretation greater_keys: ordered_keys "(>) :: 'a::linorder \<Rightarrow> 'a \<Rightarrow> bool"
  by unfold_locales auto

text \<open>A descending map is the reversal of an ascending one; insertion commutes with it.\<close>

lemma omap_put_snoc_less:
  "omap_sorted (<) (m @ [(k', v')]) \<Longrightarrow>
   omap_put (<) k v (m @ [(k', v')]) =
     (if k < k' then omap_put (<) k v m @ [(k', v')]
      else if k = k' then m @ [(k, v)]
      else m @ [(k', v'), (k, v)])" for k :: "'a::linorder"
  by (induction m) (auto simp: omap_sorted_def)

lemma omap_put_rev:
  "omap_sorted (<) m \<Longrightarrow> omap_put (>) k v (rev m) = rev (omap_put (<) k v m)"
  for k :: "'a::linorder"
proof (induction m rule: rev_induct)
  case (snoc e m)
  obtain k' v' where e: "e = (k', v')" by (cases e)
  from snoc.prems have "omap_sorted (<) m"
    by (simp add: omap_sorted_def sorted_wrt_append)
  with snoc show ?case by (auto simp: e omap_put_snoc_less)
qed simp

end
