(* ===== verification/Matching_Types.thy ===== *)
theory Matching_Types
  imports Common Ordered_Map "HOL-Library.Multiset"
begin

text \<open>
  Data of the matching library: the types of \<open>include/nts/matching/types.h\<close> and the private
  structs of \<open>include/nts/matching/orderbook.h\<close>.

  A \<open>std::list\<close> node is identified by an address that \<open>push_back\<close> allocates and that stays
  valid until the node is erased; an iterator is that address. The address is the field \<open>node\<close>
  of the element, so that erasing through an iterator is erasing the element with that address,
  whatever identifiers the orders carry.
\<close>

datatype order_kind = Limit | Market

record order =
  o_id :: u64
  o_side :: side
  o_price :: u64
  o_qty :: u64
  o_type :: order_kind

record fill =
  maker_id :: u64
  taker_id :: u64
  f_price :: u64
  f_qty :: u64
  f_side :: side

record resting_order =
  node :: nat
  r_id :: u64
  r_qty :: u64

type_synonym queue = "resting_order list"
type_synonym levels = "(u64 \<times> queue) list"

record order_location =
  loc_side :: side
  loc_price :: u64
  loc_iter :: nat

type_synonym locations = "(u64 \<times> order_location) list"

section \<open>Reading a side of a book\<close>

text \<open>
  \<open>flat\<close> lists the resting orders of a side with their prices: level by level, and within a
  level in queue order. On a list of levels in priority order this is price-time priority.
\<close>

definition flat :: "('k \<times> 'r list) list \<Rightarrow> ('k \<times> 'r) list" where
  "flat ls = concat (map (\<lambda>(p, q). map (Pair p) q) ls)"

lemma flat_Nil [simp]: "flat [] = []"
  by (simp add: flat_def)

lemma flat_Cons [simp]: "flat ((p, q) # ls) = map (Pair p) q @ flat ls"
  by (simp add: flat_def)

lemma flat_append [simp]: "flat (xs @ ys) = flat xs @ flat ys"
  by (simp add: flat_def)

lemma set_flat: "set (flat ls) = {(p, r). \<exists>q. (p, q) \<in> set ls \<and> r \<in> set q}"
  by (auto simp: flat_def)

definition nonempty_levels :: "levels \<Rightarrow> bool" where
  "nonempty_levels ls = (\<forall>l \<in> set ls. snd l \<noteq> [])"

definition positive_qtys :: "levels \<Rightarrow> bool" where
  "positive_qtys ls = (\<forall>e \<in> set (flat ls). r_qty (snd e) \<noteq> 0)"

abbreviation nodes :: "levels \<Rightarrow> nat list" where
  "nodes ls \<equiv> map (node \<circ> snd) (flat ls)"

abbreviation ids :: "levels \<Rightarrow> u64 list" where
  "ids ls \<equiv> map (r_id \<circ> snd) (flat ls)"

lemma nonempty_levels_simps [simp]:
  "nonempty_levels []"
  "nonempty_levels (l # ls) = (snd l \<noteq> [] \<and> nonempty_levels ls)"
  by (auto simp: nonempty_levels_def)

lemma positive_qtys_simps [simp]:
  "positive_qtys []"
  "positive_qtys ((p, q) # ls) = ((\<forall>r \<in> set q. r_qty r \<noteq> 0) \<and> positive_qtys ls)"
  by (simp_all add: positive_qtys_def ball_Un)

section \<open>Queueing at a price and leaving a queue\<close>

lemma keys_flat: "fst ` set (flat ls) \<subseteq> fst ` set ls"
  by (force simp: set_flat)

lemma mset_takeWhile_dropWhile: "mset (takeWhile P xs) + mset (dropWhile P xs) = mset xs"
  by (metis mset_append takeWhile_dropWhile_id)

lemma takeWhile_level:
  "P k \<Longrightarrow> takeWhile (\<lambda>e. P (fst e)) (map (Pair k) q @ xs) =
     map (Pair k) q @ takeWhile (\<lambda>e. P (fst e)) xs"
  "P k \<Longrightarrow> dropWhile (\<lambda>e. P (fst e)) (map (Pair k) q @ xs) = dropWhile (\<lambda>e. P (fst e)) xs"
  by (induction q) auto

context ordered_keys
begin

text \<open>\<open>m[price].push_back(x)\<close> queues \<open>x\<close> behind everything that does not come after its price.\<close>

lemma flat_put:
  assumes "omap_sorted lt ls"
  shows "flat (omap_put lt p ((case map_of ls p of None \<Rightarrow> [] | Some q \<Rightarrow> q) @ [x]) ls) =
     takeWhile (\<lambda>e. \<not> lt p (fst e)) (flat ls) @ (p, x) #
     dropWhile (\<lambda>e. \<not> lt p (fst e)) (flat ls)"
  using assms
proof (induction ls)
  case (Cons l ls)
  obtain k q where l: "l = (k, q)" by (cases l)
  consider "lt p k" | "p = k" | "lt k p" "p \<noteq> k" "\<not> lt p k"
    using lt_total lt_irrefl lt_trans by blast
  then show ?case
  proof cases
    case 1
    with Cons.prems l have above: "\<forall>e \<in> set (flat (l # ls)). lt p (fst e)"
      using lt_trans by (fastforce simp: set_flat)
    from above have "takeWhile (\<lambda>e. \<not> lt p (fst e)) (flat (l # ls)) = []"
      by (cases "flat (l # ls)") auto
    moreover from this have "dropWhile (\<lambda>e. \<not> lt p (fst e)) (flat (l # ls)) = flat (l # ls)"
      by (metis append_Nil takeWhile_dropWhile_id)
    moreover have "map_of (l # ls) p = None"
    proof -
      from 1 Cons.prems l have "\<forall>k' \<in> fst ` set (l # ls). lt p k'" using lt_trans by auto
      with lt_irrefl have "p \<notin> fst ` set (l # ls)" by blast
      then show ?thesis by (metis map_of_eq_None_iff)
    qed
    ultimately show ?thesis using 1 by (simp add: l del: map_of.simps)
  next
    case 2
    with Cons.prems l have above: "\<forall>e \<in> set (flat ls). lt p (fst e)"
      by (fastforce simp: set_flat)
    then have "takeWhile (\<lambda>e. \<not> lt p (fst e)) (flat ls) = []"
      by (cases "flat ls") auto
    moreover from this have "dropWhile (\<lambda>e. \<not> lt p (fst e)) (flat ls) = flat ls"
      by (metis append_Nil takeWhile_dropWhile_id)
    ultimately show ?thesis using 2 lt_irrefl [of k]
      by (simp add: l takeWhile_level [where P = "\<lambda>k'. \<not> lt k k'"])
  next
    case 3
    with Cons show ?thesis by (simp add: l takeWhile_level [where P = "\<lambda>k. \<not> lt p k"])
  qed
qed simp

lemma mset_flat_put:
  assumes "omap_sorted lt ls"
  shows "mset (flat (omap_put lt p ((case map_of ls p of None \<Rightarrow> [] | Some q \<Rightarrow> q) @ [x]) ls)) =
     add_mset (p, x) (mset (flat ls))"
  by (simp add: flat_put [OF assms] mset_takeWhile_dropWhile)

end

lemma flat_al_erase_empty: "map_of ls p = Some [] \<Longrightarrow> distinct (map fst ls) \<Longrightarrow> flat (al_erase p ls) = flat ls"
  by (induction ls) (auto simp: al_erase_absent split: if_splits)

lemma flat_al_assign_filter:
  assumes "distinct (map fst ls)" "map_of ls p = Some q"
  shows "flat (al_assign p (filter P q) ls) = filter (\<lambda>(p', r). p' = p \<longrightarrow> P r) (flat ls)"
  using assms
proof (induction ls)
  case (Cons l ls)
  obtain k q' where l: "l = (k, q')" by (cases l)
  have other: "filter (\<lambda>(p', r). p' = p \<longrightarrow> P r) (flat ls) = flat ls" if "p \<notin> fst ` set ls" for ls :: "('a \<times> 'b list) list"
    using that keys_flat [of ls] by (intro filter_True) force
  show ?case
  proof (cases "k = p")
    case True
    with Cons.prems l have "p \<notin> fst ` set ls" "q' = q" by auto
    with other show ?thesis
      by (simp add: l True al_assign_absent filter_map comp_def)
  next
    case False
    with Cons l show ?thesis by (simp add: filter_map comp_def)
  qed
qed simp

end
