(* ===== verification/Matching_Book.thy ===== *)
theory Matching_Book
  imports Matching_Types
begin

text \<open>
  The order book of \<open>include/nts/matching/orderbook.h\<close> and \<open>src/matching/orderbook.cpp\<close>: both
  sides are \<open>std::map<Price, OrderQueue>\<close> with ascending keys (best ask first, best bid last),
  and \<open>locations_\<close> finds a resting order by its identifier for \<open>cancel\<close>.

  Every operation returns the updated book. \<open>cancel\<close> dereferences what \<open>find\<close> returned and erases
  through a stored iterator, both undefined when the level or the node is gone: that outcome is
  \<open>None\<close>, and a theorem shows that no sequence of calls reaches it.
\<close>

record order_book =
  bids :: levels
  asks :: levels
  locs :: locations
  next_node :: nat

definition empty_book :: order_book where
  "empty_book = \<lparr>bids = [], asks = [], locs = [], next_node = 0\<rparr>"

definition side_levels :: "side \<Rightarrow> order_book \<Rightarrow> levels" where
  "side_levels s b = (case s of Buy \<Rightarrow> bids b | Sell \<Rightarrow> asks b)"

definition set_levels :: "side \<Rightarrow> levels \<Rightarrow> order_book \<Rightarrow> order_book" where
  "set_levels s ls b = (case s of Buy \<Rightarrow> b\<lparr>bids := ls\<rparr> | Sell \<Rightarrow> b\<lparr>asks := ls\<rparr>)"

section \<open>Operations\<close>

text \<open>The inner loop of \<open>fill_at_level\<close>: it consumes the front of one queue.\<close>

function fill_loop ::
  "side \<Rightarrow> u64 \<Rightarrow> u64 \<Rightarrow> u64 \<Rightarrow> queue \<Rightarrow> locations \<Rightarrow> fill list \<Rightarrow>
     u64 \<times> queue \<times> locations \<times> fill list"
where
  "fill_loop taker_side price tid remaining [] ls fills = (remaining, [], ls, fills)"
| "fill_loop taker_side price tid remaining (front # orders) ls fills =
     (if remaining > 0 then
        let fill_qty = min remaining (r_qty front);
            front' = front\<lparr>r_qty := r_qty front - fill_qty\<rparr>;
            remaining' = remaining - fill_qty;
            fills' = fills @ [\<lparr>maker_id = r_id front, taker_id = tid, f_price = price,
                                f_qty = fill_qty, f_side = taker_side\<rparr>]
        in if r_qty front' = 0
           then fill_loop taker_side price tid remaining' orders (al_erase (r_id front) ls) fills'
           else fill_loop taker_side price tid remaining' (front' # orders) ls fills'
      else (remaining, front # orders, ls, fills))"
  by pat_completeness auto
termination
proof (relation "measure (\<lambda>(_, _, _, remaining, orders, _, _). length orders + unat remaining)",
       goal_cases)
  case (2 taker_side price tid remaining front orders ls fills fill_qty front' remaining' fills')
  from 2(2,4) have "unat remaining' \<le> unat remaining" by (simp add: unat_sub_min)
  then show ?case by simp
next
  case (3 taker_side price tid remaining front orders ls fills fill_qty front' remaining' fills')
  then show ?case
    by (auto simp: sub_min_eq_0_iff min_def word_gt_0_iff word_less_nat_alt split: if_splits)
qed simp

definition fill_at_level ::
  "side \<Rightarrow> u64 \<Rightarrow> u64 \<Rightarrow> u64 \<Rightarrow> fill list \<Rightarrow> order_book \<Rightarrow> order_book \<times> u64 \<times> fill list"
where
  "fill_at_level taker_side price tid remaining fills b =
     (let resting = opposite taker_side; book = side_levels resting b
      in case map_of book price of
           None \<Rightarrow> (b, remaining, fills)
         | Some orders \<Rightarrow>
             let (remaining', orders', ls', fills') =
                   fill_loop taker_side price tid remaining orders (locs b) fills
             in ((set_levels resting (al_assign price orders' book) b)\<lparr>locs := ls'\<rparr>,
                 remaining', fills'))"

definition erase_if_empty :: "side \<Rightarrow> u64 \<Rightarrow> order_book \<Rightarrow> order_book" where
  "erase_if_empty s price b =
     (if map_of (side_levels s b) price = Some []
      then set_levels s (al_erase price (side_levels s b)) b else b)"

text \<open>A level loop stops with nothing left to fill or with an emptied queue.\<close>

declare fill_loop.simps(2) [simp del]

lemma fill_loop_done:
  "fill_loop s p t r q ls fs = (r', q', ls', fs') \<Longrightarrow> r' = 0 \<or> q' = []"
proof (induction s p t r q ls fs rule: fill_loop.induct)
  case (2 s p t r front orders ls fs)
  let ?q = "min r (r_qty front)"
  from "2.prems" consider "r = 0" "r' = 0"
    | "r > 0" "r_qty front - ?q = 0"
      "fill_loop s p t (r - ?q) orders (al_erase (r_id front) ls)
         (fs @ [\<lparr>maker_id = r_id front, taker_id = t, f_price = p, f_qty = ?q, f_side = s\<rparr>])
       = (r', q', ls', fs')"
    | "r > 0" "r_qty front - ?q \<noteq> 0"
      "fill_loop s p t (r - ?q) (front\<lparr>r_qty := r_qty front - ?q\<rparr> # orders) ls
         (fs @ [\<lparr>maker_id = r_id front, taker_id = t, f_price = p, f_qty = ?q, f_side = s\<rparr>])
       = (r', q', ls', fs')"
    by (auto simp: fill_loop.simps(2) [of s p t r front orders ls fs] Let_def word_gt_0_iff
             split: if_splits)
  then show ?case using "2.IH" by cases (auto simp: Let_def)
qed simp

lemma length_set_levels [simp]:
  "side_levels s (set_levels s ls b) = ls"
  "side_levels s (b\<lparr>locs := l\<rparr>) = side_levels s b"
  by (auto simp: side_levels_def set_levels_def split: side.splits)

lemma fill_at_level_progress:
  assumes "fill_at_level s p t r fs b = (b', r', fs')"
    and "p \<in> fst ` set (side_levels (opposite s) b)"
  shows "r' = 0 \<or> length (side_levels (opposite s) (erase_if_empty (opposite s) p b'))
                    < length (side_levels (opposite s) b)"
proof -
  let ?L = "side_levels (opposite s) b"
  from assms(2) obtain q where q: "map_of ?L p = Some q"
    by (metis map_of_eq_None_iff not_None_eq)
  obtain r1 q1 l1 f1 where loop: "fill_loop s p t r q (locs b) fs = (r1, q1, l1, f1)"
    by (metis prod_cases4)
  from assms(1) q loop have r': "r' = r1" and L': "side_levels (opposite s) b' = al_assign p q1 ?L"
    by (auto simp: fill_at_level_def Let_def)
  have "length (al_erase p (al_assign p q1 ?L)) < length ?L" if "q1 = []"
  proof -
    have "p \<in> fst ` set (al_assign p q1 ?L)"
      using assms(2) by (metis keys_al_assign list.set_map)
    from length_al_erase_less [OF this] show ?thesis by simp
  qed
  moreover have "erase_if_empty (opposite s) p b' =
      set_levels (opposite s) (al_erase p (al_assign p q1 ?L)) b'" if "q1 = []"
    using that q by (simp add: erase_if_empty_def L' map_of_al_assign)
  ultimately show ?thesis using fill_loop_done [OF loop] by (auto simp: r')
qed

function match_buy ::
  "order \<Rightarrow> u64 \<Rightarrow> fill list \<Rightarrow> order_book \<Rightarrow> order_book \<times> u64 \<times> fill list"
where
  "match_buy ord remaining fills b =
     (if remaining > 0 \<and> asks b \<noteq> [] then
        let price = fst (hd (asks b))
        in if o_type ord = Limit \<and> price > o_price ord then (b, remaining, fills)
           else
             let (b', remaining', fills') =
                   fill_at_level Buy price (o_id ord) remaining fills b
             in match_buy ord remaining' fills' (erase_if_empty Sell price b')
      else (b, remaining, fills))"
  by pat_completeness auto
termination
proof (relation "measures [\<lambda>(_, r, _, _). if r = 0 then 0 else 1, \<lambda>(_, _, _, b). length (asks b)]",
       goal_cases)
  case (2 ord r fs b price z b' y r' fs')
  from 2 have "fst (hd (asks b)) \<in> fst ` set (side_levels (opposite Buy) b)"
    by (simp add: side_levels_def opposite_def)
  from fill_at_level_progress [OF _ this, of "o_id ord" r fs b' r' fs'] 2 show ?case
    by (auto simp: side_levels_def opposite_def)
qed simp

function match_sell ::
  "order \<Rightarrow> u64 \<Rightarrow> fill list \<Rightarrow> order_book \<Rightarrow> order_book \<times> u64 \<times> fill list"
where
  "match_sell ord remaining fills b =
     (if remaining > 0 \<and> bids b \<noteq> [] then
        let price = fst (last (bids b))
        in if o_type ord = Limit \<and> price < o_price ord then (b, remaining, fills)
           else
             let (b', remaining', fills') =
                   fill_at_level Sell price (o_id ord) remaining fills b
             in match_sell ord remaining' fills' (erase_if_empty Buy price b')
      else (b, remaining, fills))"
  by pat_completeness auto
termination
proof (relation "measures [\<lambda>(_, r, _, _). if r = 0 then 0 else 1, \<lambda>(_, _, _, b). length (bids b)]",
       goal_cases)
  case (2 ord r fs b price z b' y r' fs')
  from 2 have "fst (last (bids b)) \<in> fst ` set (side_levels (opposite Sell) b)"
    by (simp add: side_levels_def opposite_def)
  from fill_at_level_progress [OF _ this, of "o_id ord" r fs b' r' fs'] 2 show ?case
    by (auto simp: side_levels_def opposite_def)
qed simp

declare match_buy.simps [simp del] match_sell.simps [simp del]

definition place :: "u64 \<Rightarrow> side \<Rightarrow> u64 \<Rightarrow> u64 \<Rightarrow> order_book \<Rightarrow> order_book" where
  "place oid s price qty b =
     (let book = side_levels s b;
          orders = (case map_of book price of None \<Rightarrow> [] | Some q \<Rightarrow> q);
          n = next_node b;
          book' = omap_put (<) price (orders @ [\<lparr>node = n, r_id = oid, r_qty = qty\<rparr>]) book
      in (set_levels s book' b)
           \<lparr>locs := al_put oid \<lparr>loc_side = s, loc_price = price, loc_iter = n\<rparr> (locs b),
            next_node := Suc n\<rparr>)"

definition add_order :: "order \<Rightarrow> fill list \<Rightarrow> order_book \<Rightarrow> order_book \<times> fill list" where
  "add_order ord fills b =
     (let (b', remaining, fills') =
            (case o_side ord of
               Buy \<Rightarrow> match_buy ord (o_qty ord) fills b
             | Sell \<Rightarrow> match_sell ord (o_qty ord) fills b)
      in if remaining > 0 \<and> o_type ord = Limit
         then (place (o_id ord) (o_side ord) (o_price ord) remaining b', fills')
         else (b', fills'))"

text \<open>Erasing through an iterator: undefined (\<open>None\<close>) when the node is not in the list.\<close>

definition erase_node :: "nat \<Rightarrow> queue \<Rightarrow> queue option" where
  "erase_node n q =
     (if n \<in> node ` set q then Some (filter (\<lambda>r. node r \<noteq> n) q) else None)"

definition cancel :: "u64 \<Rightarrow> order_book \<Rightarrow> (order_book \<times> bool) option" where
  "cancel oid b =
     (case map_of (locs b) oid of
        None \<Rightarrow> Some (b, False)
      | Some loc \<Rightarrow>
          let b1 = b\<lparr>locs := al_erase oid (locs b)\<rparr>;
              book = side_levels (loc_side loc) b1
          in case map_of book (loc_price loc) of
               None \<Rightarrow> None
             | Some orders \<Rightarrow>
                 (case erase_node (loc_iter loc) orders of
                    None \<Rightarrow> None
                  | Some orders' \<Rightarrow>
                      Some (erase_if_empty (loc_side loc) (loc_price loc)
                              (set_levels (loc_side loc)
                                 (al_assign (loc_price loc) orders' book) b1), True)))"

definition best_bid :: "order_book \<Rightarrow> u64 option" where
  "best_bid b = (if bids b = [] then None else Some (fst (last (bids b))))"

definition best_ask :: "order_book \<Rightarrow> u64 option" where
  "best_ask b = (if asks b = [] then None else Some (fst (hd (asks b))))"

definition spread :: "order_book \<Rightarrow> u64 option" where
  "spread b =
     (case (best_bid b, best_ask b) of
        (Some bb, Some ba) \<Rightarrow> (if ba \<ge> bb then Some (ba - bb) else None)
      | _ \<Rightarrow> None)"

definition book_len :: "order_book \<Rightarrow> u64" where
  "book_len b = of_nat (length (locs b))"

definition is_empty :: "order_book \<Rightarrow> bool" where
  "is_empty b = (locs b = [])"

definition depth_at :: "side \<Rightarrow> u64 \<Rightarrow> order_book \<Rightarrow> u64" where
  "depth_at s price b =
     (case map_of (side_levels s b) price of
        None \<Rightarrow> 0
      | Some q \<Rightarrow> foldl (\<lambda>total r. total + r_qty r) 0 q)"

end
