(* ===== verification/Matching_Spec.thy ===== *)
theory Matching_Spec
  imports Matching_Types
begin

text \<open>
  What a price-time priority book promises, stated without levels, iterators or identifier
  index. An abstract book is a pair of lists of \<open>(price, id, quantity)\<close>, bids and asks, each in
  priority order. \<open>trade\<close> lets an incoming quantity consume the opposite list from the front while
  prices are acceptable, \<open>insert_prio\<close> queues a remainder behind every order of at least as good a
  price. The locale \<open>limit_book\<close> is the contract between an implementation and its clients.
\<close>

type_synonym quote = "u64 \<times> u64 \<times> u64"
type_synonym abs_book = "quote list \<times> quote list"

fun trade :: "(u64 \<Rightarrow> bool) \<Rightarrow> u64 \<Rightarrow> quote list \<Rightarrow> u64 \<times> quote list \<times> quote list" where
  "trade ok r [] = (r, [], [])"
| "trade ok r ((p, i, q) # xs) =
     (if r = 0 \<or> \<not> ok p then (r, (p, i, q) # xs, [])
      else if q \<le> r then
        (let (r', xs', ts) = trade ok (r - q) xs in (r', xs', (p, i, q) # ts))
      else (0, (p, i, q - r) # xs, [(p, i, r)]))"

definition insert_prio :: "(u64 \<Rightarrow> u64 \<Rightarrow> bool) \<Rightarrow> quote \<Rightarrow> quote list \<Rightarrow> quote list" where
  "insert_prio better x xs =
     (let keep = (\<lambda>y. \<not> better (fst x) (fst y))
      in takeWhile keep xs @ x # dropWhile keep xs)"

definition acceptable :: "order \<Rightarrow> u64 \<Rightarrow> bool" where
  "acceptable ord p =
     (o_type ord = Market \<or>
      (case o_side ord of Buy \<Rightarrow> p \<le> o_price ord | Sell \<Rightarrow> o_price ord \<le> p))"

lemma acceptable_Buy: "o_side ord = Buy \<Longrightarrow> acceptable ord p = (\<not> (o_type ord = Limit \<and> o_price ord < p))"
  by (cases "o_type ord") (auto simp: acceptable_def)

lemma acceptable_Sell: "o_side ord = Sell \<Longrightarrow> acceptable ord p = (\<not> (o_type ord = Limit \<and> p < o_price ord))"
  by (cases "o_type ord") (auto simp: acceptable_def)

definition mk_fill :: "order \<Rightarrow> quote \<Rightarrow> fill" where
  "mk_fill ord = (\<lambda>(p, i, q).
     \<lparr>maker_id = i, taker_id = o_id ord, f_price = p, f_qty = q, f_side = o_side ord\<rparr>)"

fun spec_add :: "order \<Rightarrow> abs_book \<Rightarrow> abs_book \<times> fill list" where
  "spec_add ord (bs, as) =
     (case o_side ord of
        Buy \<Rightarrow>
          let (r, as', ts) = trade (acceptable ord) (o_qty ord) as
          in ((if r > 0 \<and> o_type ord = Limit
               then insert_prio (>) (o_price ord, o_id ord, r) bs else bs, as'),
              map (mk_fill ord) ts)
      | Sell \<Rightarrow>
          let (r, bs', ts) = trade (acceptable ord) (o_qty ord) bs
          in ((bs', if r > 0 \<and> o_type ord = Limit
               then insert_prio (<) (o_price ord, o_id ord, r) as else as),
              map (mk_fill ord) ts))"

definition quote_ids :: "quote list \<Rightarrow> u64 set" where
  "quote_ids xs = (\<lambda>(p, i, q). i) ` set xs"

definition drop_id :: "u64 \<Rightarrow> quote list \<Rightarrow> quote list" where
  "drop_id oid xs = filter (\<lambda>(p, i, q). i \<noteq> oid) xs"

fun spec_cancel :: "u64 \<Rightarrow> abs_book \<Rightarrow> abs_book \<times> bool" where
  "spec_cancel oid (bs, as) =
     ((drop_id oid bs, drop_id oid as), oid \<in> quote_ids bs \<union> quote_ids as)"

section \<open>Facts about trading\<close>

abbreviation volume :: "quote list \<Rightarrow> nat" where
  "volume xs \<equiv> sum_list (map (\<lambda>(p, i, q). unat q) xs)"

lemma trade_conserves:
  "trade ok r xs = (r', xs', ts) \<Longrightarrow>
     volume ts + unat r' = unat r \<and> volume xs' + volume ts = volume xs"
proof (induction ok r xs arbitrary: r' xs' ts rule: trade.induct)
  case (2 ok r p i q xs)
  show ?case
  proof (cases "r = 0 \<or> \<not> ok p")
    case False
    show ?thesis
    proof (cases "q \<le> r")
      case True
      obtain r1 xs1 ts1 where rec: "trade ok (r - q) xs = (r1, xs1, ts1)"
        by (metis prod_cases3)
      from "2.IH" [OF False True rec] rec "2.prems" False True show ?thesis
        by (auto simp: unat_sub word_le_nat_alt)
    next
      case less: False
      with False "2.prems" show ?thesis by (auto simp: unat_sub word_le_nat_alt)
    qed
  qed (use "2.prems" in auto)
qed auto

lemma trade_acceptable:
  "trade ok r xs = (r', xs', ts) \<Longrightarrow> (p, i, q) \<in> set ts \<Longrightarrow> ok p"
  by (induction ok r xs arbitrary: r' xs' ts rule: trade.induct)
     (auto split: if_splits prod.splits)

definition key :: "quote \<Rightarrow> u64 \<times> u64" where
  "key x = (fst x, fst (snd x))"

lemma key_pair [simp]: "key (p, i, q) = (p, i)"
  by (simp add: key_def)

text \<open>Makers trade in exactly their queue order, and whoever is left keeps it.\<close>

lemma trade_priority:
  "trade ok r xs = (r', xs', ts) \<Longrightarrow>
     map key ts = take (length ts) (map key xs) \<and>
     (\<exists>k. k \<le> length ts \<and> length ts \<le> Suc k \<and> map key xs' = drop k (map key xs))"
proof (induction ok r xs arbitrary: r' xs' ts rule: trade.induct)
  case (2 ok r p i q xs)
  show ?case
  proof (cases "\<not> (r = 0 \<or> \<not> ok p) \<and> q \<le> r")
    case True
    obtain r1 xs1 ts1 where rec: "trade ok (r - q) xs = (r1, xs1, ts1)"
      by (metis prod_cases3)
    from True "2.IH" [OF _ _ rec] obtain k where
      "map key ts1 = take (length ts1) (map key xs)" and
      "k \<le> length ts1 \<and> length ts1 \<le> Suc k \<and> map key xs1 = drop k (map key xs)"
      by auto
    with rec "2.prems" True show ?thesis by (auto intro!: exI [of _ "Suc k"])
  next
    case False
    with "2.prems" show ?thesis by (auto split: if_splits)
  qed
qed auto

lemma trade_stops:
  "trade ok r xs = (r', xs', ts) \<Longrightarrow> r' = 0 \<or> xs' = [] \<or> \<not> ok (fst (hd xs'))"
  by (induction ok r xs arbitrary: r' xs' ts rule: trade.induct)
     (auto split: if_splits prod.splits)

lemma trade_positive:
  "trade ok r xs = (r', xs', ts) \<Longrightarrow> \<forall>x \<in> set xs. snd (snd x) \<noteq> 0 \<Longrightarrow>
     (\<forall>x \<in> set ts. snd (snd x) \<noteq> 0) \<and> (\<forall>x \<in> set xs'. snd (snd x) \<noteq> 0)"
  by (induction ok r xs arbitrary: r' xs' ts rule: trade.induct)
     (auto split: if_splits prod.splits)

section \<open>The contract of a limit book\<close>

text \<open>
  A book is any state with \<open>add\<close> and \<open>cancel\<close> that refines the abstract book. \<open>exact\<close> is what an
  implementation keeps of its identifier index as long as clients use fresh identifiers.
\<close>

datatype book_op = AddOrder order | CancelOrder u64

fun run_ops ::
  "(order \<Rightarrow> fill list \<Rightarrow> 'b \<Rightarrow> 'b \<times> fill list) \<Rightarrow> (u64 \<Rightarrow> 'b \<Rightarrow> ('b \<times> bool) option) \<Rightarrow>
     book_op list \<Rightarrow> 'b \<Rightarrow> fill list \<Rightarrow> ('b \<times> fill list) option"
where
  "run_ops add can [] b fs = Some (b, fs)"
| "run_ops add can (AddOrder ord # ops) b fs =
     (let (b', fs') = add ord fs b in run_ops add can ops b' fs')"
| "run_ops add can (CancelOrder oid # ops) b fs =
     (case can oid b of None \<Rightarrow> None | Some (b', _) \<Rightarrow> run_ops add can ops b' fs)"

definition abs_wf :: "abs_book \<Rightarrow> bool" where
  "abs_wf ab =
     (sorted_wrt (\<ge>) (map fst (fst ab)) \<and> sorted_wrt (\<le>) (map fst (snd ab)) \<and>
      (\<forall>x \<in> set (fst ab) \<union> set (snd ab). snd (snd x) \<noteq> 0) \<and>
      (\<forall>x \<in> set (fst ab). \<forall>y \<in> set (snd ab). fst x < fst y))"

definition opposite_side :: "order \<Rightarrow> abs_book \<Rightarrow> quote list" where
  "opposite_side ord ab = (case o_side ord of Buy \<Rightarrow> snd ab | Sell \<Rightarrow> fst ab)"

definition own_side :: "order \<Rightarrow> abs_book \<Rightarrow> quote list" where
  "own_side ord ab = (case o_side ord of Buy \<Rightarrow> fst ab | Sell \<Rightarrow> snd ab)"

lemma volume_insert_prio: "volume (insert_prio lt (p, i, q) xs) = unat q + volume xs"
proof -
  have "volume (takeWhile P xs) + volume (dropWhile P xs) = volume xs" for P
    by (metis map_append sum_list_append takeWhile_dropWhile_id)
  then show ?thesis by (simp add: insert_prio_def Let_def)
qed

locale limit_book =
  fixes inv :: "'b \<Rightarrow> bool" and exact :: "'b \<Rightarrow> bool" and abs :: "'b \<Rightarrow> abs_book"
    and empty :: 'b
    and add :: "order \<Rightarrow> fill list \<Rightarrow> 'b \<Rightarrow> 'b \<times> fill list"
    and can :: "u64 \<Rightarrow> 'b \<Rightarrow> ('b \<times> bool) option"
  assumes inv_empty: "inv empty" and exact_empty: "exact empty" and abs_empty: "abs empty = ([], [])"
    and inv_abs: "inv b \<Longrightarrow> abs_wf (abs b)"
    and inv_add: "inv b \<Longrightarrow> inv (fst (add ord fs b))"
    and add_refines: "inv b \<Longrightarrow> add ord fs b = (b', fs') \<Longrightarrow>
      \<exists>new. spec_add ord (abs b) = (abs b', new) \<and> fs' = fs @ new"
    and inv_can: "inv b \<Longrightarrow> \<exists>b' res. can oid b = Some (b', res) \<and> inv b'"
    and exact_add: "inv b \<Longrightarrow> exact b \<Longrightarrow> o_id ord \<notin> quote_ids (fst (abs b)) \<union> quote_ids (snd (abs b)) \<Longrightarrow>
      exact (fst (add ord fs b))"
    and exact_can: "inv b \<Longrightarrow> exact b \<Longrightarrow> can oid b = Some (b', res) \<Longrightarrow> exact b'"
    and can_refines: "inv b \<Longrightarrow> exact b \<Longrightarrow> can oid b = Some (b', res) \<Longrightarrow>
      spec_cancel oid (abs b) = (abs b', res)"
begin

lemma run_safe: "inv b \<Longrightarrow> \<exists>b' fs'. run_ops add can ops b fs = Some (b', fs') \<and> inv b'"
proof (induction ops arbitrary: b fs)
  case (Cons op ops)
  show ?case
  proof (cases op)
    case (AddOrder ord)
    with Cons inv_add [OF Cons.prems, of ord fs] show ?thesis by (auto split: prod.splits)
  next
    case (CancelOrder oid)
    with Cons inv_can [OF Cons.prems, of oid] show ?thesis by auto
  qed
qed simp

lemma never_crossed:
  assumes "run_ops add can ops empty [] = Some (b, fs)"
  shows "abs_wf (abs b)"
  using run_safe [OF inv_empty, of ops "[]"] assms inv_abs by auto

text \<open>What one \<open>add\<close> does, in terms of the trades it makes.\<close>

lemma add_trades:
  assumes "inv b" "add ord fs b = (b', fs')"
  obtains r rest ts where
    "trade (acceptable ord) (o_qty ord) (opposite_side ord (abs b)) = (r, rest, ts)"
    "fs' = fs @ map (mk_fill ord) ts" "opposite_side ord (abs b') = rest"
    "own_side ord (abs b') =
       (if r > 0 \<and> o_type ord = Limit
        then insert_prio (case o_side ord of Buy \<Rightarrow> (>) | Sell \<Rightarrow> (<)) (o_price ord, o_id ord, r)
               (own_side ord (abs b))
        else own_side ord (abs b))"
proof -
  obtain r rest ts where t:
    "trade (acceptable ord) (o_qty ord) (opposite_side ord (abs b)) = (r, rest, ts)"
    by (metis prod_cases3)
  from add_refines [OF assms] obtain new where
    "spec_add ord (abs b) = (abs b', new)" "fs' = fs @ new" by blast
  with t show ?thesis
    by (cases "abs b"; cases "abs b'"; cases "o_side ord")
       (auto simp: opposite_side_def own_side_def intro!: that [OF t])
qed

lemma add_conserves:
  assumes "inv b" "add ord [] b = (b', fs)"
  shows "sum_list (map (unat \<circ> f_qty) fs) + volume (own_side ord (abs b')) \<le>
           unat (o_qty ord) + volume (own_side ord (abs b))"
    and "o_type ord = Limit \<Longrightarrow>
         sum_list (map (unat \<circ> f_qty) fs) + volume (own_side ord (abs b')) =
           unat (o_qty ord) + volume (own_side ord (abs b))"
    and "sum_list (map (unat \<circ> f_qty) fs) + volume (opposite_side ord (abs b')) =
           volume (opposite_side ord (abs b))"
proof -
  from add_trades [OF assms] obtain r rest ts where t:
    "trade (acceptable ord) (o_qty ord) (opposite_side ord (abs b)) = (r, rest, ts)"
    "fs = [] @ map (mk_fill ord) ts" "opposite_side ord (abs b') = rest"
    "own_side ord (abs b') =
       (if r > 0 \<and> o_type ord = Limit
        then insert_prio (case o_side ord of Buy \<Rightarrow> (>) | Sell \<Rightarrow> (<)) (o_price ord, o_id ord, r)
               (own_side ord (abs b))
        else own_side ord (abs b))" .
  have fq: "map (unat \<circ> f_qty) fs = map (\<lambda>(p, i, q). unat q) ts"
    by (auto simp: t(2) mk_fill_def)
  note c = trade_conserves [OF t(1)]
  show "sum_list (map (unat \<circ> f_qty) fs) + volume (opposite_side ord (abs b')) =
           volume (opposite_side ord (abs b))"
    using c t(3) by (simp add: fq add.commute)
  show "o_type ord = Limit \<Longrightarrow>
         sum_list (map (unat \<circ> f_qty) fs) + volume (own_side ord (abs b')) =
           unat (o_qty ord) + volume (own_side ord (abs b))"
    using c by (cases "r = 0") (simp_all add: fq t(4) volume_insert_prio word_gt_0_iff)
  show "sum_list (map (unat \<circ> f_qty) fs) + volume (own_side ord (abs b')) \<le>
           unat (o_qty ord) + volume (own_side ord (abs b))"
    using c by (simp add: fq t(4) volume_insert_prio)
qed

lemma add_priority:
  assumes "inv b" "add ord [] b = (b', fs)"
  shows "map (\<lambda>f. (f_price f, maker_id f)) fs =
           take (length fs) (map key (opposite_side ord (abs b)))"
    and "\<forall>f \<in> set fs. acceptable ord (f_price f) \<and> f_qty f \<noteq> 0 \<and> taker_id f = o_id ord"
proof -
  from add_trades [OF assms] obtain r rest ts where t:
    "trade (acceptable ord) (o_qty ord) (opposite_side ord (abs b)) = (r, rest, ts)"
    "fs = [] @ map (mk_fill ord) ts" by metis
  have "map (\<lambda>f. (f_price f, maker_id f)) fs = map key ts"
    by (auto simp: t(2) mk_fill_def key_def)
  with trade_priority [OF t(1)] show "map (\<lambda>f. (f_price f, maker_id f)) fs =
           take (length fs) (map key (opposite_side ord (abs b)))"
    by (simp add: t(2))
  have "\<forall>x \<in> set (opposite_side ord (abs b)). snd (snd x) \<noteq> 0"
    using inv_abs [OF assms(1)] by (auto simp: abs_wf_def opposite_side_def split: side.splits)
  from trade_positive [OF t(1) this] trade_acceptable [OF t(1)]
  show "\<forall>f \<in> set fs. acceptable ord (f_price f) \<and> f_qty f \<noteq> 0 \<and> taker_id f = o_id ord"
    by (fastforce simp: t(2) mk_fill_def)
qed

end

end
