(* ===== verification/Matching_Sweep.thy ===== *)
theory Matching_Sweep
  imports Matching_Book Matching_Spec
begin

text \<open>
  The matching loops of a book, read as structural recursions. \<open>consume\<close> is the effect of the
  inner loop on one queue and \<open>sweep_levels\<close> that of the outer loop on a side given in priority
  order; both report the trades \<open>(maker, quantity)\<close> they make. The loops of the code are shown
  equal to them, and they in turn implement \<open>trade\<close>.
\<close>

fun consume :: "u64 \<Rightarrow> queue \<Rightarrow> u64 \<times> queue \<times> (resting_order \<times> u64) list" where
  "consume r [] = (r, [], [])"
| "consume r (m # q) =
     (if r = 0 then (r, m # q, [])
      else if r_qty m \<le> r then
        (let (r', q', ts) = consume (r - r_qty m) q in (r', q', (m, r_qty m) # ts))
      else (0, m\<lparr>r_qty := r_qty m - r\<rparr> # q, [(m, r)]))"

fun sweep_levels ::
  "(u64 \<Rightarrow> bool) \<Rightarrow> u64 \<Rightarrow> levels \<Rightarrow> u64 \<times> levels \<times> (u64 \<times> resting_order \<times> u64) list"
where
  "sweep_levels ok r [] = (r, [], [])"
| "sweep_levels ok r ((p, q) # ls) =
     (if r = 0 \<or> \<not> ok p then (r, (p, q) # ls, [])
      else
        (let (r', q', ts) = consume r q
         in if q' = [] then
              (let (r'', ls', ts') = sweep_levels ok r' ls in (r'', ls', map (Pair p) ts @ ts'))
            else (r', (p, q') # ls, map (Pair p) ts)))"

definition filled_ids :: "(u64 \<times> resting_order \<times> u64) list \<Rightarrow> u64 list" where
  "filled_ids ts = map (\<lambda>(p, m, k). r_id m) (filter (\<lambda>(p, m, k). k = r_qty m) ts)"

definition erase_all :: "u64 list \<Rightarrow> locations \<Rightarrow> locations" where
  "erase_all is ls = filter (\<lambda>e. fst e \<notin> set is) ls"

definition fill_of :: "side \<Rightarrow> u64 \<Rightarrow> u64 \<times> resting_order \<times> u64 \<Rightarrow> fill" where
  "fill_of s t = (\<lambda>(p, m, k).
     \<lparr>maker_id = r_id m, taker_id = t, f_price = p, f_qty = k, f_side = s\<rparr>)"

lemma filled_ids_simps [simp]:
  "filled_ids [] = []"
  "filled_ids ((p, m, k) # ts) =
     (if k = r_qty m then r_id m # filled_ids ts else filled_ids ts)"
  "filled_ids (ts @ ts') = filled_ids ts @ filled_ids ts'"
  by (auto simp: filled_ids_def)

lemma erase_all_simps [simp]:
  "erase_all [] ls = ls"
  "erase_all is (al_erase i ls) = erase_all (i # is) ls"
  "erase_all is' (erase_all is ls) = erase_all (is @ is') ls"
  by (auto simp: erase_all_def al_erase_def intro!: filter_cong)

lemma fill_loop_consume:
  "fill_loop s p t r q ls fs =
     (let (r', q', ts) = consume r q
      in (r', q', erase_all (filled_ids (map (Pair p) ts)) ls,
          fs @ map (fill_of s t \<circ> Pair p) ts))"
proof (induction q arbitrary: r ls fs)
  case (Cons m q)
  consider "r = 0" | "r \<noteq> 0" "r_qty m \<le> r" | "r \<noteq> 0" "\<not> r_qty m \<le> r" by blast
  then show ?case
  proof cases
    case 2
    then have "min r (r_qty m) = r_qty m" by (simp add: min_def)
    with 2 Cons show ?thesis
      by (auto simp: fill_loop.simps(2) Let_def word_gt_0_iff fill_of_def split: prod.splits)
  next
    case 3
    then have "min r (r_qty m) = r" by (intro min.absorb1) simp
    with 3 show ?thesis
      by (auto simp: fill_loop.simps(2) Let_def word_gt_0_iff fill_of_def)
  qed (simp add: fill_loop.simps(2))
qed simp

lemma consume_done: "consume r q = (r', q', ts) \<Longrightarrow> q' \<noteq> [] \<Longrightarrow> r' = 0"
  by (induction r q arbitrary: r' q' ts rule: consume.induct) (auto split: if_splits prod.splits)

lemma sweep_levels_0 [simp]: "sweep_levels ok 0 ls = (0, ls, [])"
  by (cases ls) auto

section \<open>The loops of \<open>orderbook.cpp\<close>\<close>

lemma fill_at_level_consume:
  assumes "map_of (side_levels (opposite s) b) p = Some q" "consume r q = (r', q', ts)"
  shows "fill_at_level s p t r fs b =
     ((set_levels (opposite s) (al_assign p q' (side_levels (opposite s) b)) b)
        \<lparr>locs := erase_all (filled_ids (map (Pair p) ts)) (locs b)\<rparr>,
      r', fs @ map (fill_of s t \<circ> Pair p) ts)"
  using assms by (simp add: fill_at_level_def fill_loop_consume Let_def)

lemma match_buy_sweep:
  assumes "o_side ord = Buy" "omap_sorted (<) (asks b)"
  shows "match_buy ord r fs b =
     (let (r', ls', ts) = sweep_levels (acceptable ord) r (asks b)
      in (b\<lparr>asks := ls', locs := erase_all (filled_ids ts) (locs b)\<rparr>, r',
          fs @ map (fill_of Buy (o_id ord)) ts))"
  using assms(2)
proof (induction "asks b" arbitrary: r fs b)
  case Nil
  then show ?case by (simp add: match_buy.simps [of ord r fs b] order_book.splits)
next
  case (Cons e ls)
  obtain p q where e: "e = (p, q)" by (cases e)
  note asks = Cons.hyps(2) [symmetric, unfolded e]
  show ?case
  proof (cases "r = 0 \<or> \<not> acceptable ord p")
    case True
    with assms(1) asks show ?thesis
      by (auto simp: match_buy.simps [of ord r fs b] acceptable_Buy word_gt_0_iff)
  next
    case False
    obtain r1 q1 ts1 where c: "consume r q = (r1, q1, ts1)" by (metis prod_cases3)
    from Cons.prems asks have p: "p \<notin> fst ` set ls" by auto
    from asks have "map_of (side_levels (opposite Buy) b) p = Some q"
      by (simp add: side_levels_def opposite_def)
    note lvl = fill_at_level_consume [OF this c]
    define b1 where "b1 = b\<lparr>asks := (p, q1) # ls, locs := erase_all (filled_ids (map (Pair p) ts1)) (locs b)\<rparr>"
    have step: "match_buy ord r fs b =
        match_buy ord r1 (fs @ map (fill_of Buy (o_id ord) \<circ> Pair p) ts1)
          (erase_if_empty Sell p b1)"
      using False asks p assms(1)
      by (subst match_buy.simps)
         (auto simp: lvl word_gt_0_iff acceptable_Buy side_levels_def set_levels_def opposite_def
             al_assign_absent b1_def)
    show ?thesis
    proof (cases "q1 = []")
      case True
      then have b2: "erase_if_empty Sell p b1 = b1\<lparr>asks := ls\<rparr>"
        using p by (simp add: erase_if_empty_def b1_def side_levels_def set_levels_def al_erase_absent)
      have "match_buy ord r1 fs' (b1\<lparr>asks := ls\<rparr>) =
         (let (r', ls', ts) = sweep_levels (acceptable ord) r1 ls
          in (b1\<lparr>asks := ls', locs := erase_all (filled_ids ts) (locs b1)\<rparr>, r',
              fs' @ map (fill_of Buy (o_id ord)) ts))" for fs'
        using Cons.hyps(1) [of "b1\<lparr>asks := ls\<rparr>"] Cons.prems asks by simp
      with step True b2 c asks False show ?thesis
        by (auto simp: b1_def split: prod.splits)
    next
      case q1: False
      with c have "r1 = 0" by (auto dest: consume_done)
      with step q1 c asks False show ?thesis
        by (simp add: b1_def erase_if_empty_def side_levels_def match_buy.simps [of ord 0] comp_def)
    qed
  qed
qed

lemma match_sell_sweep:
  assumes "o_side ord = Sell" "omap_sorted (<) (bids b)"
  shows "match_sell ord r fs b =
     (let (r', ls', ts) = sweep_levels (acceptable ord) r (rev (bids b))
      in (b\<lparr>bids := rev ls', locs := erase_all (filled_ids ts) (locs b)\<rparr>, r',
          fs @ map (fill_of Sell (o_id ord)) ts))"
  using assms(2)
proof (induction "rev (bids b)" arbitrary: r fs b)
  case Nil
  then show ?case by (simp add: match_sell.simps [of ord r fs b])
next
  case (Cons e ls)
  obtain p q where e: "e = (p, q)" by (cases e)
  from Cons.hyps(2) have bids: "bids b = rev ls @ [(p, q)]" by (metis e rev.simps(2) rev_rev_ident)
  show ?case
  proof (cases "r = 0 \<or> \<not> acceptable ord p")
    case True
    with assms(1) bids show ?thesis
      by (auto simp: match_sell.simps [of ord r fs b] acceptable_Sell word_gt_0_iff)
  next
    case False
    obtain r1 q1 ts1 where c: "consume r q = (r1, q1, ts1)" by (metis prod_cases3)
    from Cons.prems bids have p: "p \<notin> fst ` set ls" and sorted: "omap_sorted (<) (rev ls)"
      by (auto simp: omap_sorted_def sorted_wrt_append)
    then have none: "map_of (rev ls) p = None" by (simp add: map_of_eq_None_iff)
    with bids have "map_of (side_levels (opposite Sell) b) p = Some q"
      by (simp add: side_levels_def opposite_def map_add_def)
    note lvl = fill_at_level_consume [OF this c]
    define b1 where "b1 = b\<lparr>bids := rev ls @ [(p, q1)], locs := erase_all (filled_ids (map (Pair p) ts1)) (locs b)\<rparr>"
    have assign: "al_assign p q1 (rev ls @ [(p, q)]) = rev ls @ [(p, q1)]"
      using al_assign_absent [OF p, of q1] al_assign_rev [of p q1 "(p, q) # ls"] by simp
    have step: "match_sell ord r fs b =
        match_sell ord r1 (fs @ map (fill_of Sell (o_id ord) \<circ> Pair p) ts1)
          (erase_if_empty Buy p b1)"
      using False bids p assms(1)
      by (subst match_sell.simps)
         (auto simp: lvl word_gt_0_iff acceptable_Sell side_levels_def set_levels_def opposite_def
             assign b1_def)
    show ?thesis
    proof (cases "q1 = []")
      case True
      have "al_erase p (rev ls @ [(p, q1)]) = rev ls"
        using al_erase_absent [OF p] al_erase_rev [of p "(p, q1) # ls"] by simp
      with True none have b2: "erase_if_empty Buy p b1 = b1\<lparr>bids := rev ls\<rparr>"
        by (simp add: erase_if_empty_def b1_def side_levels_def set_levels_def map_add_def)
      have "match_sell ord r1 fs' (b1\<lparr>bids := rev ls\<rparr>) =
         (let (r', ls', ts) = sweep_levels (acceptable ord) r1 ls
          in (b1\<lparr>bids := rev ls', locs := erase_all (filled_ids ts) (locs b1)\<rparr>, r',
              fs' @ map (fill_of Sell (o_id ord)) ts))" for fs'
        using Cons.hyps(1) [of "b1\<lparr>bids := rev ls\<rparr>"] sorted by simp
      with step True b2 c bids False show ?thesis
        by (auto simp: b1_def split: prod.splits)
    next
      case q1: False
      with c have "r1 = 0" by (auto dest: consume_done)
      with step q1 c bids False none show ?thesis
        by (simp add: b1_def erase_if_empty_def side_levels_def match_sell.simps [of ord 0]
              map_add_def comp_def)
    qed
  qed
qed

section \<open>Sweeping levels implements trading\<close>

definition quote_of :: "u64 \<times> resting_order \<Rightarrow> quote" where
  "quote_of e = (fst e, r_id (snd e), r_qty (snd e))"

definition trade_of :: "u64 \<times> resting_order \<times> u64 \<Rightarrow> quote" where
  "trade_of = (\<lambda>(p, m, k). (p, r_id m, k))"

abbreviation quotes :: "levels \<Rightarrow> quote list" where
  "quotes ls \<equiv> map quote_of (flat ls)"

lemma trade_queue:
  assumes "ok p" "consume r q = (r', q', ts)"
  shows "trade ok r (map (quote_of \<circ> Pair p) q @ xs) =
     (if q' = []
      then (let (r'', xs', us) = trade ok r' xs in (r'', xs', map (trade_of \<circ> Pair p) ts @ us))
      else (r', map (quote_of \<circ> Pair p) q' @ xs, map (trade_of \<circ> Pair p) ts))"
  using assms
proof (induction r q arbitrary: r' q' ts rule: consume.induct)
  case (2 r m q)
  then show ?case
    by (cases "r_qty m \<le> r"; cases "consume (r - r_qty m) q")
       (auto simp: quote_of_def trade_of_def split: if_splits prod.splits)
qed (simp split: prod.splits)

lemma sweep_levels_trade:
  assumes "nonempty_levels ls" "sweep_levels ok r ls = (r', ls', ts)"
  shows "trade ok r (quotes ls) = (r', quotes ls', map trade_of ts)"
  using assms
proof (induction ok r ls arbitrary: r' ls' ts rule: sweep_levels.induct)
  case (2 ok r p q ls)
  show ?case
  proof (cases "r = 0 \<or> \<not> ok p")
    case True
    with "2.prems" show ?thesis by (cases q) (auto simp: quote_of_def)
  next
    case False
    obtain r1 q1 ts1 where c: "consume r q = (r1, q1, ts1)" by (metis prod_cases3)
    with False trade_queue [OF _ c, of ok p "quotes ls"] "2.prems" "2.IH" [OF False refl _ refl]
    show ?thesis by (auto simp: comp_def split: if_splits prod.splits)
  qed
qed simp

end
