(* ===== verification/Matching_Inv.thy ===== *)
theory Matching_Inv
  imports Matching_Sweep
begin

text \<open>
  The representation invariant of the matching book and its preservation by every operation.
  Its heart is \<open>locs_ok\<close>: every entry of the identifier index names a live list node that carries
  that identifier. It does not assume that clients use fresh identifiers.
\<close>

definition stamp :: "u64 \<times> resting_order \<Rightarrow> u64 \<times> nat \<times> u64" where
  "stamp e = (fst e, node (snd e), r_id (snd e))"

abbreviation stamps :: "levels \<Rightarrow> (u64 \<times> nat \<times> u64) list" where
  "stamps ls \<equiv> map stamp (flat ls)"

definition locs_ok :: "order_book \<Rightarrow> bool" where
  "locs_ok b = (\<forall>(oid, loc) \<in> set (locs b).
     (loc_price loc, loc_iter loc, oid) \<in> set (stamps (side_levels (loc_side loc) b)))"

definition uncrossed :: "order_book \<Rightarrow> bool" where
  "uncrossed b = (\<forall>bid \<in> fst ` set (bids b). \<forall>ask \<in> fst ` set (asks b). bid < ask)"

definition book_inv :: "order_book \<Rightarrow> bool" where
  "book_inv b =
     (omap_sorted (<) (bids b) \<and> omap_sorted (<) (asks b) \<and>
      nonempty_levels (bids b @ asks b) \<and> positive_qtys (bids b @ asks b) \<and>
      distinct (nodes (bids b @ asks b)) \<and>
      (\<forall>n \<in> set (nodes (bids b @ asks b)). n < next_node b) \<and>
      distinct (map fst (locs b)) \<and> locs_ok b \<and> uncrossed b)"

lemma book_inv_empty: "book_inv empty_book"
  by (simp add: book_inv_def empty_book_def locs_ok_def uncrossed_def)

lemma book_invD:
  assumes "book_inv b"
  shows "omap_sorted (<) (bids b)" "omap_sorted (<) (asks b)"
    and "nonempty_levels (bids b)" "nonempty_levels (asks b)"
    and "positive_qtys (bids b)" "positive_qtys (asks b)"
    and "distinct (nodes (bids b))" "distinct (nodes (asks b))"
    and "set (nodes (bids b)) \<inter> set (nodes (asks b)) = {}"
    and "\<forall>n \<in> set (nodes (bids b)) \<union> set (nodes (asks b)). n < next_node b"
    and "distinct (map fst (locs b))" "locs_ok b" "uncrossed b"
  using assms
  by (auto simp: book_inv_def nonempty_levels_def positive_qtys_def simp del: list.set_map)

lemma book_invI:
  assumes "omap_sorted (<) (bids b)" "omap_sorted (<) (asks b)"
    and "nonempty_levels (bids b)" "nonempty_levels (asks b)"
    and "positive_qtys (bids b)" "positive_qtys (asks b)"
    and "distinct (nodes (bids b))" "distinct (nodes (asks b))"
    and "set (nodes (bids b)) \<inter> set (nodes (asks b)) = {}"
    and "\<forall>n \<in> set (nodes (bids b)) \<union> set (nodes (asks b)). n < next_node b"
    and "distinct (map fst (locs b))" "locs_ok b" "uncrossed b"
  shows "book_inv b"
  using assms
  by (auto simp: book_inv_def nonempty_levels_def positive_qtys_def simp del: list.set_map)

section \<open>Sides and their reversal\<close>

lemma nodes_stamps: "nodes ls = map (fst \<circ> snd) (stamps ls)"
  by (simp add: stamp_def)

lemma ids_stamps: "ids ls = map (snd \<circ> snd) (stamps ls)"
  by (simp add: stamp_def)

lemma mset_flat_rev [simp]: "mset (flat (rev ls)) = mset (flat ls)"
  by (induction ls) auto

lemma set_flat_rev [simp]: "set (flat (rev ls)) = set (flat ls)"
  by (metis mset_flat_rev set_mset_mset)

lemma nonempty_levels_append [simp]:
  "nonempty_levels (xs @ ys) = (nonempty_levels xs \<and> nonempty_levels ys)"
  "nonempty_levels (rev xs) = nonempty_levels xs"
  by (auto simp: nonempty_levels_def)

lemma positive_qtys_append [simp]:
  "positive_qtys (xs @ ys) = (positive_qtys xs \<and> positive_qtys ys)"
  "positive_qtys (rev xs) = positive_qtys xs"
  by (auto simp: positive_qtys_def)

lemma distinct_map_mset: "mset xs = mset ys \<Longrightarrow> distinct (map f xs) = distinct (map f ys)"
  by (metis mset_eq_imp_distinct_iff mset_map)

section \<open>What a sweep keeps\<close>

lemma consume_stamps:
  "consume r q = (r', q', ts) \<Longrightarrow>
     \<exists>k. map (stamp \<circ> Pair p) q' = drop k (map (stamp \<circ> Pair p) q) \<and>
         filled_ids (map (Pair p) ts) = take k (map r_id q) \<and>
         (q' = [] \<longrightarrow> k = length q)"
proof (induction r q arbitrary: r' q' ts rule: consume.induct)
  case (2 r m q)
  consider "r = 0" | "r \<noteq> 0" "r_qty m \<le> r" | "r \<noteq> 0" "\<not> r_qty m \<le> r" by blast
  then show ?case
  proof cases
    case 2
    obtain r1 q1 ts1 where c: "consume (r - r_qty m) q = (r1, q1, ts1)" by (metis prod_cases3)
    from "2.IH" [OF 2 c] obtain k where
      "map (stamp \<circ> Pair p) q1 = drop k (map (stamp \<circ> Pair p) q)"
      "filled_ids (map (Pair p) ts1) = take k (map r_id q)" "q1 = [] \<longrightarrow> k = length q"
      by blast
    with 2 c "2.prems" show ?thesis by (auto simp: comp_def intro!: exI [of _ "Suc k"])
  qed (use "2.prems" in \<open>auto simp: stamp_def intro!: exI [of _ 0]\<close>)
qed auto

lemma sweep_levels_stamps:
  "sweep_levels ok r ls = (r', ls', ts) \<Longrightarrow>
     \<exists>k. stamps ls' = drop k (stamps ls) \<and> filled_ids ts = take k (ids ls)"
proof (induction ok r ls arbitrary: r' ls' ts rule: sweep_levels.induct)
  case (2 ok r p q ls)
  show ?case
  proof (cases "r = 0 \<or> \<not> ok p")
    case True
    with "2.prems" show ?thesis by (auto intro!: exI [of _ 0])
  next
    case False
    obtain r1 q1 ts1 where c: "consume r q = (r1, q1, ts1)" by (metis prod_cases3)
    from consume_stamps [OF this, of p] obtain k where
      k: "map (stamp \<circ> Pair p) q1 = drop k (map (stamp \<circ> Pair p) q)"
         "filled_ids (map (Pair p) ts1) = take k (map r_id q)" "q1 = [] \<longrightarrow> k = length q"
      by blast
    show ?thesis
    proof (cases "q1 = []")
      case True
      obtain r2 ls2 ts2 where sw: "sweep_levels ok r1 ls = (r2, ls2, ts2)" by (metis prod_cases3)
      from "2.IH" [OF False c [symmetric] refl refl True sw] obtain k2 where
        "stamps ls2 = drop k2 (stamps ls)" "filled_ids ts2 = take k2 (ids ls)" by blast
      with sw c k True False "2.prems" show ?thesis
        by (auto simp: comp_def intro!: exI [of _ "length q + k2"])
    next
      case ne: False
      from k(1) ne have "k \<le> length q" by (cases "k \<le> length q") auto
      with k c ne False "2.prems" show ?thesis
        by (auto simp: comp_def intro!: exI [of _ k])
    qed
  qed
qed auto

lemma sweep_levels_keys:
  "sweep_levels ok r ls = (r', ls', ts) \<Longrightarrow> \<exists>k. map fst ls' = drop k (map fst ls)"
proof (induction ok r ls arbitrary: r' ls' ts rule: sweep_levels.induct)
  case (2 ok r p q ls)
  show ?case
  proof (cases "r = 0 \<or> \<not> ok p")
    case True
    with "2.prems" show ?thesis by (auto intro!: exI [of _ 0])
  next
    case False
    obtain r1 q1 ts1 where c: "consume r q = (r1, q1, ts1)" by (metis prod_cases3)
    show ?thesis
    proof (cases "q1 = []")
      case True
      obtain r2 ls2 ts2 where sw: "sweep_levels ok r1 ls = (r2, ls2, ts2)" by (metis prod_cases3)
      from "2.IH" [OF False c [symmetric] refl refl True sw] obtain k2 where
        "map fst ls2 = drop k2 (map fst ls)" by blast
      with sw c True False "2.prems" show ?thesis by (auto intro!: exI [of _ "Suc k2"])
    next
      case ne: False
      with c False "2.prems" show ?thesis by (auto intro!: exI [of _ 0])
    qed
  qed
qed auto

lemma sweep_levels_sorted:
  assumes "sweep_levels ok r ls = (r', ls', ts)"
  shows "fst ` set ls' \<subseteq> fst ` set ls" "omap_sorted lt ls \<Longrightarrow> omap_sorted lt ls'"
proof -
  from sweep_levels_keys [OF assms] obtain k where k: "map fst ls' = drop k (map fst ls)" by blast
  then show "fst ` set ls' \<subseteq> fst ` set ls" by (metis list.set_map set_drop_subset)
  from k show "omap_sorted lt ls \<Longrightarrow> omap_sorted lt ls'"
    by (simp only: omap_sorted_def sorted_wrt_drop)
qed

lemma sweep_levels_nonempty:
  "sweep_levels ok r ls = (r', ls', ts) \<Longrightarrow> nonempty_levels ls \<Longrightarrow> nonempty_levels ls'"
  by (induction ok r ls arbitrary: r' ls' ts rule: sweep_levels.induct)
     (auto split: if_splits prod.splits)

lemma consume_positive:
  "consume r q = (r', q', ts) \<Longrightarrow> \<forall>m \<in> set q. r_qty m \<noteq> 0 \<Longrightarrow> \<forall>m \<in> set q'. r_qty m \<noteq> 0"
  by (induction r q arbitrary: r' q' ts rule: consume.induct) (auto split: if_splits prod.splits)

lemma sweep_levels_positive:
  "sweep_levels ok r ls = (r', ls', ts) \<Longrightarrow> positive_qtys ls \<Longrightarrow> positive_qtys ls'"
  by (induction ok r ls arbitrary: r' ls' ts rule: sweep_levels.induct)
     (auto split: if_splits prod.splits dest: consume_positive)

lemma sweep_levels_stops:
  "sweep_levels ok r ls = (r', ls', ts) \<Longrightarrow> r' = 0 \<or> ls' = [] \<or> \<not> ok (fst (hd ls'))"
  by (induction ok r ls arbitrary: r' ls' ts rule: sweep_levels.induct)
     (auto split: if_splits prod.splits dest: consume_done)

lemma swept_stamp:
  assumes "stamps ls' = drop k (stamps ls)" "filled = take k (ids ls)"
    and "(p, n, oid) \<in> set (stamps ls)" "oid \<notin> set filled"
  shows "(p, n, oid) \<in> set (stamps ls')"
proof (rule ccontr)
  assume "(p, n, oid) \<notin> set (stamps ls')"
  with assms(1,3) have "(p, n, oid) \<in> set (take k (stamps ls))"
    by (metis Un_iff append_take_drop_id set_append)
  then have "oid \<in> set (map (snd \<circ> snd) (take k (stamps ls)))" by force
  then have "oid \<in> set (take k (ids ls))" by (simp add: ids_stamps take_map)
  with assms(2,4) show False by simp
qed

text \<open>Replacing one side by what a sweep left of it, with the filled identifiers unindexed.\<close>

lemma swept_nodes:
  assumes "stamps ls' = drop k (stamps ls)"
  shows "set (nodes ls') \<subseteq> set (nodes ls)" "distinct (nodes ls) \<Longrightarrow> distinct (nodes ls')"
proof -
  from assms have eq: "nodes ls' = drop k (nodes ls)" by (simp add: nodes_stamps drop_map)
  show "set (nodes ls') \<subseteq> set (nodes ls)" unfolding eq by (rule set_drop_subset)
  show "distinct (nodes ls) \<Longrightarrow> distinct (nodes ls')" unfolding eq by (rule distinct_drop)
qed

lemma nodes_rev: "mset (nodes (rev ls)) = mset (nodes ls)"
  by (simp add: mset_map)

lemma nodes_rev_simps [simp]:
  "set (nodes (rev ls)) = set (nodes ls)" "distinct (nodes (rev ls)) = distinct (nodes ls)"
  using nodes_rev [of ls] by (metis set_mset_mset, metis mset_eq_imp_distinct_iff)

lemma distinct_erase_all: "distinct (map fst ls) \<Longrightarrow> distinct (map fst (erase_all is ls))"
  unfolding erase_all_def by (rule distinct_map_filter)

lemma locs_ok_swept:
  assumes "locs_ok b" and "(oid, loc) \<in> set (erase_all (filled_ids ts) (locs b))"
    and "stamps ls' = drop k (stamps ls)" "filled_ids ts = take k (ids ls)"
    and "set (stamps ls) = set (stamps (side_levels s b))"
  shows "(loc_price loc, loc_iter loc, oid)
           \<in> set (if loc_side loc = s then stamps ls' else stamps (side_levels (loc_side loc) b))"
proof -
  from assms(1,2) have "(loc_price loc, loc_iter loc, oid) \<in> set (stamps (side_levels (loc_side loc) b))"
    and "oid \<notin> set (filled_ids ts)"
    by (auto simp: locs_ok_def erase_all_def)
  then show ?thesis
    using swept_stamp [OF assms(3,4), of "loc_price loc" "loc_iter loc" oid] assms(5)
    by (cases "loc_side loc = s") auto
qed

lemma book_inv_swept_asks:
  assumes inv: "book_inv b" and sw: "sweep_levels ok r (asks b) = (r', ls', ts)"
  shows "book_inv (b\<lparr>asks := ls', locs := erase_all (filled_ids ts) (locs b)\<rparr>)" (is "book_inv ?b")
proof (rule book_invI)
  note D = book_invD [OF inv]
  from sweep_levels_stamps [OF sw] obtain k where
    k: "stamps ls' = drop k (stamps (asks b))" "filled_ids ts = take k (ids (asks b))" by blast
  note N = swept_nodes [OF k(1)]
  show "locs_ok ?b"
    unfolding locs_ok_def
  proof (clarify)
    fix oid loc assume "(oid, loc) \<in> set (locs ?b)"
    then have "(oid, loc) \<in> set (erase_all (filled_ids ts) (locs b))" by simp
    from locs_ok_swept [OF D(12) this k, of Sell]
    show "(loc_price loc, loc_iter loc, oid) \<in> set (stamps (side_levels (loc_side loc) ?b))"
      by (cases "loc_side loc") (simp_all add: side_levels_def)
  qed
  show "uncrossed ?b"
    using ball_ball_mono [OF D(13) [unfolded uncrossed_def] subset_refl sweep_levels_sorted(1) [OF sw]]
    by (simp add: uncrossed_def)
  show "set (nodes (bids ?b)) \<inter> set (nodes (asks ?b)) = {}"
    using disjoint_mono [OF D(9) subset_refl N(1)] by simp
  show "\<forall>n \<in> set (nodes (bids ?b)) \<union> set (nodes (asks ?b)). n < next_node ?b"
    using ball_mono [OF D(10) subset_refl N(1)] by simp
qed (use book_invD [OF inv] sweep_levels_sorted(2) [OF sw] sweep_levels_nonempty [OF sw]
      sweep_levels_positive [OF sw] sweep_levels_stamps [OF sw] swept_nodes(2) distinct_erase_all
      in \<open>auto simp del: list.set_map\<close>)

lemma book_inv_swept_bids:
  assumes inv: "book_inv b" and sw: "sweep_levels ok r (rev (bids b)) = (r', ls', ts)"
  shows "book_inv (b\<lparr>bids := rev ls', locs := erase_all (filled_ids ts) (locs b)\<rparr>)" (is "book_inv ?b")
proof (rule book_invI)
  note D = book_invD [OF inv]
  from sweep_levels_stamps [OF sw] obtain k where
    k: "stamps ls' = drop k (stamps (rev (bids b)))" "filled_ids ts = take k (ids (rev (bids b)))"
    by blast
  note N = swept_nodes [OF k(1)]
  show "locs_ok ?b"
    unfolding locs_ok_def
  proof (clarify)
    fix oid loc assume "(oid, loc) \<in> set (locs ?b)"
    then have "(oid, loc) \<in> set (erase_all (filled_ids ts) (locs b))" by simp
    from locs_ok_swept [OF D(12) this k, of Buy]
    show "(loc_price loc, loc_iter loc, oid) \<in> set (stamps (side_levels (loc_side loc) ?b))"
      by (cases "loc_side loc") (simp_all add: side_levels_def)
  qed
  show "uncrossed ?b"
    using ball_ball_mono [OF D(13) [unfolded uncrossed_def] _ subset_refl, of "fst ` set ls'"]
      sweep_levels_sorted(1) [OF sw] by (simp add: uncrossed_def)
  show "set (nodes (bids ?b)) \<inter> set (nodes (asks ?b)) = {}"
    using disjoint_mono [OF D(9) _ subset_refl, of "set (nodes ls')"] N(1) by simp
  show "\<forall>n \<in> set (nodes (bids ?b)) \<union> set (nodes (asks ?b)). n < next_node ?b"
    using ball_mono [OF D(10) _ subset_refl, of "set (nodes ls')"] N(1) by simp
  show "omap_sorted (<) (bids ?b)"
    using sweep_levels_sorted(2) [OF sw, of "(>)"] D(1) by (simp add: omap_sorted_rev)
  show "distinct (nodes (bids ?b))" using N(2) D(7) by simp
qed (use book_invD [OF inv] sweep_levels_nonempty [OF sw]
      sweep_levels_positive [OF sw] distinct_erase_all in \<open>auto simp del: list.set_map\<close>)

section \<open>Placing and cancelling\<close>

lemma side_levels_simps [simp]:
  "side_levels Buy b = bids b" "side_levels Sell b = asks b"
  by (simp_all add: side_levels_def)

definition queued :: "u64 \<Rightarrow> levels \<Rightarrow> queue" where
  "queued p ls = (case map_of ls p of None \<Rightarrow> [] | Some q \<Rightarrow> q)"

lemma flat_place:
  assumes "omap_sorted (<) ls"
  shows "mset (flat (omap_put (<) p (queued p ls @ [x]) ls)) = add_mset (p, x) (mset (flat ls))"
  unfolding queued_def by (rule less_keys.mset_flat_put [OF assms])

lemma nonempty_omap_put:
  "nonempty_levels ls \<Longrightarrow> q \<noteq> [] \<Longrightarrow> nonempty_levels (omap_put lt p q ls)"
  by (induction lt p q ls rule: omap_put.induct) auto

lemma place_levels:
  assumes "omap_sorted (<) ls" and "ls' = omap_put (<) p (queued p ls @ [x]) ls"
  shows "set (flat ls') = insert (p, x) (set (flat ls))"
    and "mset (nodes ls') = add_mset (node x) (mset (nodes ls))"
    and "fst ` set ls' = insert p (fst ` set ls)"
    and "omap_sorted (<) ls'"
  using flat_place [OF assms(1), of p x] less_keys.sorted_put [OF assms(1)] assms(2)
  by (metis set_mset_mset set_mset_add_mset_insert, simp add: mset_map,
      simp add: keys_omap_put, simp)

lemma book_inv_place:
  assumes inv: "book_inv b" and qty: "qty \<noteq> 0"
    and free: "case s of Buy \<Rightarrow> \<forall>ask \<in> fst ` set (asks b). price < ask
                       | Sell \<Rightarrow> \<forall>bid \<in> fst ` set (bids b). bid < price"
  shows "book_inv (place oid s price qty b)"
proof -
  let ?x = "\<lparr>node = next_node b, r_id = oid, r_qty = qty\<rparr>"
  define ls where "ls = side_levels s b"
  define ls' where "ls' = omap_put (<) price (queued price ls @ [?x]) ls"
  define loc where "loc = \<lparr>loc_side = s, loc_price = price, loc_iter = next_node b\<rparr>"
  have b': "place oid s price qty b =
      (set_levels s ls' b)\<lparr>locs := al_put oid loc (locs b), next_node := Suc (next_node b)\<rparr>"
    by (simp add: place_def Let_def ls'_def ls_def queued_def loc_def)
  note D = book_invD [OF inv]
  from D(1-6) have sorted: "omap_sorted (<) ls" and ne: "nonempty_levels ls" and pos: "positive_qtys ls"
    by (auto simp: ls_def side_levels_def split: side.splits)
  note pl = place_levels [OF sorted ls'_def]
  have nodes: "set (nodes ls') = insert (next_node b) (set (nodes ls))"
    using pl(2) by (metis resting_order.select_convs(1) set_mset_add_mset_insert set_mset_mset)
  have dist: "distinct (nodes ls') = distinct (next_node b # nodes ls)"
    using pl(2) by (metis mset.simps(2) mset_eq_imp_distinct_iff resting_order.select_convs(1))
  have fresh: "next_node b \<notin> set (nodes (bids b)) \<union> set (nodes (asks b))"
    using D(10) by blast
  have nonempty: "nonempty_levels ls'"
    unfolding ls'_def using ne by (intro nonempty_omap_put) auto
  have positive: "positive_qtys ls'" using pl(1) pos qty by (auto simp: positive_qtys_def)
  have index: "locs_ok (place oid s price qty b)"
    unfolding locs_ok_def
  proof (clarify)
    fix oid' loc' assume "(oid', loc') \<in> set (locs (place oid s price qty b))"
    then consider "oid' = oid" "loc' = loc" | "(oid', loc') \<in> set (locs b)"
      by (auto simp: b' al_put_def)
    then show "(loc_price loc', loc_iter loc', oid')
        \<in> set (stamps (side_levels (loc_side loc') (place oid s price qty b)))"
    proof cases
      case 1
      then show ?thesis
        unfolding b' using pl(1) by (cases s) (simp_all add: set_levels_def loc_def stamp_def)
    next
      case 2
      with D(12) have "(loc_price loc', loc_iter loc', oid') \<in> set (stamps (side_levels (loc_side loc') b))"
        by (auto simp: locs_ok_def)
      with pl(1) show ?thesis
        unfolding b' by (cases s; cases "loc_side loc'") (auto simp: set_levels_def ls_def)
    qed
  qed
  have cross: "uncrossed (place oid s price qty b)"
    unfolding b' uncrossed_def using pl(3) free D(13) [unfolded uncrossed_def]
    by (cases s) (simp_all add: set_levels_def ls_def)
  show ?thesis
    unfolding b'
    by (rule book_invI; cases s)
       (use D pl(4) nonempty positive nodes dist fresh index [unfolded b'] cross [unfolded b']
        in \<open>simp_all add: set_levels_def ls_def distinct_al_put ball_Un less_Suc_eq\<close>)
qed

lemma sorted_above:
  "omap_sorted (<) ls \<Longrightarrow> ls = [] \<or> x < fst (hd ls) \<Longrightarrow> \<forall>k \<in> fst ` set ls. x < k"
  for x :: "'k::linorder"
  by (cases ls) (auto intro: less_trans)

lemma book_inv_add_order:
  assumes inv: "book_inv b"
  shows "book_inv (fst (add_order ord fs b))"
proof (cases "o_side ord")
  case Buy
  obtain r' ls' ts where sw: "sweep_levels (acceptable ord) (o_qty ord) (asks b) = (r', ls', ts)"
    by (metis prod_cases3)
  define b1 where "b1 = b\<lparr>asks := ls', locs := erase_all (filled_ids ts) (locs b)\<rparr>"
  have inv1: "book_inv b1" unfolding b1_def by (rule book_inv_swept_asks [OF inv sw])
  have "\<forall>ask \<in> fst ` set (asks b1). o_price ord < ask" if "r' \<noteq> 0" "o_type ord = Limit"
    using sweep_levels_stops [OF sw] that Buy
    by (intro sorted_above book_invD(2) [OF inv1]) (auto simp: b1_def acceptable_Buy)
  with inv1 Buy have "book_inv (place (o_id ord) Buy (o_price ord) r' b1)"
    if "r' \<noteq> 0" "o_type ord = Limit" using that by (intro book_inv_place) auto
  with inv1 Buy show ?thesis
    by (simp add: add_order_def match_buy_sweep [OF Buy book_invD(2) [OF inv]] sw b1_def
        word_gt_0_iff)
next
  case Sell
  obtain r' ls' ts where sw: "sweep_levels (acceptable ord) (o_qty ord) (rev (bids b)) = (r', ls', ts)"
    by (metis prod_cases3)
  define b1 where "b1 = b\<lparr>bids := rev ls', locs := erase_all (filled_ids ts) (locs b)\<rparr>"
  have inv1: "book_inv b1" unfolding b1_def by (rule book_inv_swept_bids [OF inv sw])
  have "\<forall>bid \<in> fst ` set (bids b1). bid < o_price ord" if "r' \<noteq> 0" "o_type ord = Limit"
  proof -
    have "omap_sorted (>) ls'" using book_invD(1) [OF inv1] by (simp add: b1_def omap_sorted_rev)
    moreover have "ls' = [] \<or> fst (hd ls') < o_price ord"
      using sweep_levels_stops [OF sw] that Sell by (auto simp: acceptable_Sell)
    ultimately show ?thesis by (cases ls') (auto simp: b1_def)
  qed
  with inv1 Sell have "book_inv (place (o_id ord) Sell (o_price ord) r' b1)"
    if "r' \<noteq> 0" "o_type ord = Limit" using that by (intro book_inv_place) auto
  with inv1 Sell show ?thesis
    by (simp add: add_order_def match_sell_sweep [OF Sell book_invD(1) [OF inv]] sw b1_def
        word_gt_0_iff)
qed

text \<open>Taking one node out of its level, and the level out of the map when that empties it.\<close>

definition drop_node :: "u64 \<Rightarrow> nat \<Rightarrow> levels \<Rightarrow> levels" where
  "drop_node p n ls =
     (let m = al_assign p (filter (\<lambda>x. node x \<noteq> n) (queued p ls)) ls
      in if map_of m p = Some [] then al_erase p m else m)"

lemma flat_find:
  assumes "distinct (map fst ls)" "(p, r) \<in> set (flat ls)"
  shows "map_of ls p = Some (queued p ls)" "r \<in> set (queued p ls)"
proof -
  from assms(2) obtain q where "(p, q) \<in> set ls" "r \<in> set q" by (auto simp: set_flat)
  with assms(1) have "map_of ls p = Some q" "r \<in> set q" by auto
  then show "map_of ls p = Some (queued p ls)" "r \<in> set (queued p ls)" by (auto simp: queued_def)
qed

lemma same_node:
  assumes "distinct (nodes ls)" "x \<in> set (flat ls)" "y \<in> set (flat ls)"
    and "node (snd x) = node (snd y)"
  shows "x = y"
  using assms by (auto simp: distinct_map inj_on_def)

lemma drop_node_flat:
  assumes d: "distinct (map fst ls)" and dist: "distinct (nodes ls)" and r: "(p, r) \<in> set (flat ls)"
  shows "flat (drop_node p (node r) ls) = filter (\<lambda>e. node (snd e) \<noteq> node r) (flat ls)"
proof -
  note f = flat_find [OF d r]
  let ?m = "al_assign p (filter (\<lambda>x. node x \<noteq> node r) (queued p ls)) ls"
  have "distinct (map fst ?m)" using d by simp
  then have "flat (drop_node p (node r) ls) = flat ?m"
    by (simp add: drop_node_def Let_def flat_al_erase_empty)
  also have "\<dots> = filter (\<lambda>(p', x). p' = p \<longrightarrow> node x \<noteq> node r) (flat ls)"
    by (rule flat_al_assign_filter [OF d f(1)])
  also have "\<dots> = filter (\<lambda>e. node (snd e) \<noteq> node r) (flat ls)"
  proof (rule filter_cong [OF refl])
    fix e assume "e \<in> set (flat ls)"
    from same_node [OF dist this r]
    show "(case e of (p', x) \<Rightarrow> p' = p \<longrightarrow> node x \<noteq> node r) = (node (snd e) \<noteq> node r)"
      by (cases e) auto
  qed
  finally show ?thesis .
qed

lemma drop_node_levels:
  assumes "omap_sorted (<) ls" "nonempty_levels ls"
  shows "omap_sorted (<) (drop_node p n ls)" "nonempty_levels (drop_node p n ls)"
    "fst ` set (drop_node p n ls) \<subseteq> fst ` set ls"
proof -
  let ?q = "filter (\<lambda>x. node x \<noteq> n) (queued p ls)"
  have d: "distinct (map fst ls)" by (rule less_keys.sorted_distinct [OF assms(1)])
  show "omap_sorted (<) (drop_node p n ls)"
    using assms(1) by (auto simp: drop_node_def Let_def)
  have "map_of (al_assign p ?q ls) p = Some ?q" if "p \<in> fst ` set ls"
    using that by (auto simp: map_of_al_assign map_of_eq_Some_iff d)
  then show "nonempty_levels (drop_node p n ls)"
    using assms(2) by (fastforce simp: drop_node_def Let_def nonempty_levels_def al_assign_def)
  have "fst ` set (al_assign p ?q ls) = fst ` set ls" by (metis keys_al_assign list.set_map)
  then show "fst ` set (drop_node p n ls) \<subseteq> fst ` set ls"
    by (auto simp: drop_node_def Let_def)
qed

lemma cancel_found:
  assumes inv: "book_inv b" and loc: "map_of (locs b) oid = Some loc"
  obtains r where "(loc_price loc, r) \<in> set (flat (side_levels (loc_side loc) b))"
    and "node r = loc_iter loc" "r_id r = oid"
    and "cancel oid b =
      Some ((set_levels (loc_side loc)
               (drop_node (loc_price loc) (loc_iter loc) (side_levels (loc_side loc) b)) b)
              \<lparr>locs := al_erase oid (locs b)\<rparr>, True)"
proof -
  let ?s = "loc_side loc" and ?p = "loc_price loc" and ?n = "loc_iter loc"
  let ?L = "side_levels ?s b"
  from map_of_SomeD [OF loc] book_invD(12) [OF inv] have "(?p, ?n, oid) \<in> set (stamps ?L)"
    by (auto simp: locs_ok_def)
  then obtain r where r: "(?p, r) \<in> set (flat ?L)" "node r = ?n" "r_id r = oid"
    by (auto simp: stamp_def)
  have "omap_sorted (<) ?L" using book_invD(1,2) [OF inv] by (cases ?s) auto
  note f = flat_find [OF less_keys.sorted_distinct [OF this] r(1)]
  have "erase_node ?n (queued ?p ?L) = Some (filter (\<lambda>x. node x \<noteq> ?n) (queued ?p ?L))"
    using imageI [OF f(2), of node] r(2) by (simp add: erase_node_def)
  then have "cancel oid b =
      Some ((set_levels ?s (drop_node ?p ?n ?L) b)\<lparr>locs := al_erase oid (locs b)\<rparr>, True)"
    using loc f(1)
    by (cases ?s) (auto simp: cancel_def Let_def drop_node_def erase_if_empty_def set_levels_def)
  with r show ?thesis by (rule that)
qed

lemma cancel_absent: "map_of (locs b) oid = None \<Longrightarrow> cancel oid b = Some (b, False)"
  by (simp add: cancel_def)

lemma locs_ok_drop:
  assumes inv: "book_inv b" and r: "(p, r) \<in> set (flat (side_levels s b))" "r_id r = oid"
    and b': "b' = (set_levels s ls' b)\<lparr>locs := al_erase oid (locs b)\<rparr>"
    and ls': "flat ls' = filter (\<lambda>e. node (snd e) \<noteq> node r) (flat (side_levels s b))"
  shows "locs_ok b'"
  unfolding locs_ok_def
proof (clarify)
  fix oid' loc' assume "(oid', loc') \<in> set (locs b')"
  with b' have ne: "oid' \<noteq> oid" and mem: "(oid', loc') \<in> set (locs b)" by auto
  from mem book_invD(12) [OF inv]
  have "(loc_price loc', loc_iter loc', oid') \<in> set (stamps (side_levels (loc_side loc') b))"
    by (auto simp: locs_ok_def)
  then obtain e where e: "e \<in> set (flat (side_levels (loc_side loc') b))"
      "stamp e = (loc_price loc', loc_iter loc', oid')" by auto
  show "(loc_price loc', loc_iter loc', oid') \<in> set (stamps (side_levels (loc_side loc') b'))"
  proof (cases "loc_side loc' = s")
    case True
    have "distinct (nodes (side_levels s b))" using book_invD(7,8) [OF inv] by (cases s) auto
    from same_node [OF this _ r(1), of e] e True ne r(2) have "node (snd e) \<noteq> node r"
      by (auto simp: stamp_def)
    with e True ls' have "e \<in> set (flat ls')" by simp
    then show ?thesis
      unfolding b' using imageI [of e _ stamp] e(2) True by (cases s) (auto simp: set_levels_def)
  next
    case False
    then show ?thesis
      unfolding b' using imageI [OF e(1), of stamp] e(2)
      by (cases s; cases "loc_side loc'") (auto simp: set_levels_def)
  qed
qed

lemma book_inv_cancel:
  assumes inv: "book_inv b"
  obtains b' res where "cancel oid b = Some (b', res)" "book_inv b'"
proof (cases "map_of (locs b) oid")
  case None
  from cancel_absent [OF this] inv show ?thesis by (rule that)
next
  case (Some loc)
  let ?s = "loc_side loc"
  let ?L = "side_levels ?s b"
  define ls' where "ls' = drop_node (loc_price loc) (loc_iter loc) ?L"
  define b' where "b' = (set_levels ?s ls' b)\<lparr>locs := al_erase oid (locs b)\<rparr>"
  from cancel_found [OF inv Some] obtain r where
    r: "(loc_price loc, r) \<in> set (flat ?L)" "node r = loc_iter loc" "r_id r = oid"
    and c: "cancel oid b = Some (b', True)" by (metis b'_def ls'_def)
  note D = book_invD [OF inv]
  have L: "omap_sorted (<) ?L" "nonempty_levels ?L" "positive_qtys ?L" "distinct (nodes ?L)"
    using D(1-8) by (cases ?s; simp)+
  note ls = drop_node_levels [OF L(1,2), of "loc_price loc" "loc_iter loc", folded ls'_def]
  have flat: "flat ls' = filter (\<lambda>e. node (snd e) \<noteq> node r) (flat ?L)"
    unfolding ls'_def r(2) [symmetric] by (rule drop_node_flat [OF less_keys.sorted_distinct [OF L(1)] L(4) r(1)])
  have sub: "set (nodes ls') \<subseteq> set (nodes ?L)" and dist: "distinct (nodes ls')"
    and pos: "positive_qtys ls'"
    using L(3,4) by (auto simp: flat positive_qtys_def distinct_map_filter)
  have "book_inv b'"
  proof (rule book_invI)
    show "locs_ok b'" by (rule locs_ok_drop [OF inv r(1,3) b'_def flat])
    show "uncrossed b'"
      using D(13) [unfolded uncrossed_def] ls(3)
        ball_ball_mono [OF D(13) [unfolded uncrossed_def] _ subset_refl, of "fst ` set ls'"]
        ball_ball_mono [OF D(13) [unfolded uncrossed_def] subset_refl, of "fst ` set ls'"]
      by (cases ?s) (simp_all add: uncrossed_def b'_def set_levels_def)
    show "set (nodes (bids b')) \<inter> set (nodes (asks b')) = {}"
      using sub disjoint_mono [OF D(9) _ subset_refl, of "set (nodes ls')"]
        disjoint_mono [OF D(9) subset_refl, of "set (nodes ls')"]
      by (cases ?s) (simp_all add: b'_def set_levels_def)
    show "\<forall>n \<in> set (nodes (bids b')) \<union> set (nodes (asks b')). n < next_node b'"
      using sub ball_mono [OF D(10) _ subset_refl, of "set (nodes ls')"]
        ball_mono [OF D(10) subset_refl, of "set (nodes ls')"]
      by (cases ?s) (simp_all add: b'_def set_levels_def)
  qed (use D ls dist pos in \<open>cases ?s; simp add: b'_def set_levels_def distinct_al_erase\<close>)+
  with c show ?thesis by (rule that)
qed

end
