(* ===== verification/Matching_Refine.thy ===== *)
theory Matching_Refine
  imports Matching_Inv
begin

text \<open>
  The book refines the abstract price-time priority book: \<open>add_order\<close> always, \<open>cancel\<close> when
  clients never reuse the identifier of a resting order (\<open>indexed\<close>).
\<close>

definition abs_of :: "order_book \<Rightarrow> abs_book" where
  "abs_of b = (quotes (rev (bids b)), quotes (asks b))"

definition indexed :: "order_book \<Rightarrow> bool" where
  "indexed b = (distinct (ids (bids b @ asks b)) \<and>
     fst ` set (locs b) = set (ids (bids b @ asks b)))"

section \<open>Placing is insertion by priority\<close>

lemma map_of_rev_distinct: "distinct (map fst m) \<Longrightarrow> map_of (rev m) = map_of m"
  by (subst map_of_inject_set) (simp_all add: rev_map [symmetric])

lemma insert_prio_quotes:
  assumes "flat ls' = takeWhile (\<lambda>e. \<not> lt p (fst e)) (flat ls) @ (p, x) #
      dropWhile (\<lambda>e. \<not> lt p (fst e)) (flat ls)"
  shows "quotes ls' = insert_prio lt (quote_of (p, x)) (quotes ls)"
  by (simp add: assms insert_prio_def takeWhile_map dropWhile_map comp_def quote_of_def)

lemma quotes_place_asks:
  assumes "omap_sorted (<) ls"
  shows "quotes (omap_put (<) p (queued p ls @ [x]) ls) = insert_prio (<) (quote_of (p, x)) (quotes ls)"
  using less_keys.flat_put [OF assms, of p x] by (intro insert_prio_quotes) (simp add: queued_def)

lemma quotes_place_bids:
  assumes "omap_sorted (<) ls"
  shows "quotes (rev (omap_put (<) p (queued p ls @ [x]) ls)) =
     insert_prio (>) (quote_of (p, x)) (quotes (rev ls))"
proof -
  have "omap_sorted (>) (rev ls)" using assms by (simp add: omap_sorted_rev)
  from greater_keys.flat_put [OF this, of p x]
  show ?thesis
    by (intro insert_prio_quotes)
       (simp add: queued_def map_of_rev_distinct less_keys.sorted_distinct [OF assms] omap_put_rev [OF assms])
qed

lemma fills_of_trades:
  "map (fill_of (o_side ord) (o_id ord)) ts = map (mk_fill ord) (map trade_of ts)"
  by (auto simp: fill_of_def mk_fill_def trade_of_def)

section \<open>Refinement of the operations\<close>

lemma abs_of_place:
  assumes "omap_sorted (<) (bids b)" "omap_sorted (<) (asks b)"
  shows "abs_of (place oid s p q b) =
     (case s of Buy \<Rightarrow> (insert_prio (>) (p, oid, q) (fst (abs_of b)), snd (abs_of b))
              | Sell \<Rightarrow> (fst (abs_of b), insert_prio (<) (p, oid, q) (snd (abs_of b))))"
  using quotes_place_asks [OF assms(2), of p "\<lparr>node = next_node b, r_id = oid, r_qty = q\<rparr>"]
    quotes_place_bids [OF assms(1), of p "\<lparr>node = next_node b, r_id = oid, r_qty = q\<rparr>"]
  by (cases s) (simp_all add: abs_of_def place_def Let_def set_levels_def queued_def quote_of_def)

lemma spec_add_Buy:
  assumes "o_side ord = Buy" "trade (acceptable ord) (o_qty ord) as = (r, as', ts)"
  shows "spec_add ord (bs, as) =
    ((if r > 0 \<and> o_type ord = Limit then insert_prio (>) (o_price ord, o_id ord, r) bs else bs, as'),
     map (mk_fill ord) ts)"
  using assms by simp

lemma spec_add_Sell:
  assumes "o_side ord = Sell" "trade (acceptable ord) (o_qty ord) bs = (r, bs', ts)"
  shows "spec_add ord (bs, as) =
    ((bs', if r > 0 \<and> o_type ord = Limit then insert_prio (<) (o_price ord, o_id ord, r) as else as),
     map (mk_fill ord) ts)"
  using assms by simp

lemma add_order_refines:
  assumes inv: "book_inv b" and add: "add_order ord fs b = (b', fs')"
  shows "\<exists>new. spec_add ord (abs_of b) = (abs_of b', new) \<and> fs' = fs @ new"
proof (cases "o_side ord")
  case Buy
  obtain r' ls' ts where sw: "sweep_levels (acceptable ord) (o_qty ord) (asks b) = (r', ls', ts)"
    by (metis prod_cases3)
  define b1 where "b1 = b\<lparr>asks := ls', locs := erase_all (filled_ids ts) (locs b)\<rparr>"
  have inv1: "book_inv b1" unfolding b1_def by (rule book_inv_swept_asks [OF inv sw])
  have abs1: "abs_of b1 = (fst (abs_of b), quotes ls')" by (simp add: abs_of_def b1_def)
  note trade = sweep_levels_trade [OF book_invD(4) [OF inv] sw]
  from add have "fs' = fs @ map (fill_of (o_side ord) (o_id ord)) ts"
    and "b' = (if r' > 0 \<and> o_type ord = Limit then place (o_id ord) Buy (o_price ord) r' b1 else b1)"
    by (auto simp: add_order_def Buy match_buy_sweep [OF Buy book_invD(2) [OF inv]] sw b1_def
        split: if_splits)
  moreover from this(2) have "abs_of b' =
      (if r' > 0 \<and> o_type ord = Limit
       then insert_prio (>) (o_price ord, o_id ord, r') (fst (abs_of b)) else fst (abs_of b),
       quotes ls')"
    by (simp add: abs_of_place [OF book_invD(1,2) [OF inv1]] abs1)
  moreover have "abs_of b = (fst (abs_of b), quotes (asks b))" by (simp add: abs_of_def)
  ultimately show ?thesis
    using trade Buy by (metis (no_types, lifting) fills_of_trades spec_add_Buy)
next
  case Sell
  obtain r' ls' ts where sw: "sweep_levels (acceptable ord) (o_qty ord) (rev (bids b)) = (r', ls', ts)"
    by (metis prod_cases3)
  define b1 where "b1 = b\<lparr>bids := rev ls', locs := erase_all (filled_ids ts) (locs b)\<rparr>"
  have inv1: "book_inv b1" unfolding b1_def by (rule book_inv_swept_bids [OF inv sw])
  have abs1: "abs_of b1 = (quotes ls', snd (abs_of b))" by (simp add: abs_of_def b1_def)
  have "nonempty_levels (rev (bids b))" using book_invD(3) [OF inv] by simp
  note trade = sweep_levels_trade [OF this sw]
  from add have "fs' = fs @ map (fill_of (o_side ord) (o_id ord)) ts"
    and "b' = (if r' > 0 \<and> o_type ord = Limit then place (o_id ord) Sell (o_price ord) r' b1 else b1)"
    by (auto simp: add_order_def Sell match_sell_sweep [OF Sell book_invD(1) [OF inv]] sw b1_def
        split: if_splits)
  moreover from this(2) have "abs_of b' =
      (quotes ls',
       if r' > 0 \<and> o_type ord = Limit
       then insert_prio (<) (o_price ord, o_id ord, r') (snd (abs_of b)) else snd (abs_of b))"
    by (simp add: abs_of_place [OF book_invD(1,2) [OF inv1]] abs1)
  moreover have "abs_of b = (quotes (rev (bids b)), snd (abs_of b))" by (simp add: abs_of_def)
  ultimately show ?thesis
    using trade Sell by (metis (no_types, lifting) fills_of_trades spec_add_Sell)
qed

lemma drop_node_rev:
  assumes "distinct (map fst ls)"
  shows "drop_node p n (rev ls) = rev (drop_node p n ls)"
  using assms
  by (simp add: drop_node_def Let_def queued_def map_of_rev_distinct al_assign_rev al_erase_rev)

lemma drop_node_quotes:
  assumes "distinct (ids ls)" "(p, r) \<in> set (flat ls)" "distinct (nodes ls)" "distinct (map fst ls)"
  shows "quotes (drop_node p (node r) ls) = drop_id (r_id r) (quotes ls)"
proof -
  have "(node (snd e) \<noteq> node r) = (r_id (snd e) \<noteq> r_id r)" if "e \<in> set (flat ls)" for e
  proof -
    from assms(1) have "inj_on (r_id \<circ> snd) (set (flat ls))" by (simp add: distinct_map)
    from inj_onD [OF this _ that assms(2)] same_node [OF assms(3) that assms(2)]
    show ?thesis by auto
  qed
  then show ?thesis
    unfolding drop_node_flat [OF assms(4,3,2)]
    by (simp add: drop_id_def filter_map comp_def quote_of_def case_prod_unfold cong: filter_cong)
qed

lemma drop_id_absent: "oid \<notin> set (ids ls) \<Longrightarrow> drop_id oid (quotes ls) = quotes ls"
  by (auto simp: drop_id_def quote_of_def filter_id_conv)

lemma quote_ids_quotes: "quote_ids (quotes ls) = set (ids ls)"
  by (auto simp: quote_ids_def quote_of_def image_image case_prod_unfold)

lemma indexedD:
  assumes "indexed b"
  shows "distinct (ids (bids b))" "distinct (ids (asks b))"
    and "set (ids (bids b)) \<inter> set (ids (asks b)) = {}"
    and "fst ` set (locs b) = set (ids (bids b)) \<union> set (ids (asks b))"
  using assms by (auto simp: indexed_def simp del: list.set_map)

lemma ids_rev: "set (ids (rev ls)) = set (ids ls)"
  by simp

lemma distinct_ids_rev [simp]: "distinct (ids (rev ls)) = distinct (ids ls)"
  by (rule distinct_map_mset) simp

lemma cancel_refines:
  assumes inv: "book_inv b" and idx: "indexed b" and c: "cancel oid b = Some (b', res)"
  shows "spec_cancel oid (abs_of b) = (abs_of b', res)"
proof (cases "map_of (locs b) oid")
  case None
  then have "oid \<notin> set (ids (bids b)) \<union> set (ids (asks b))"
    using indexedD(4) [OF idx] by (simp add: map_of_eq_None_iff)
  then show ?thesis
    using c cancel_absent [OF None] drop_id_absent [of oid "rev (bids b)"]
      drop_id_absent [of oid "asks b"]
    by (simp add: abs_of_def quote_ids_quotes del: list.set_map)
next
  case (Some loc)
  let ?s = "loc_side loc" and ?p = "loc_price loc"
  let ?L = "side_levels ?s b"
  from cancel_found [OF inv Some] c obtain r where
    r: "(?p, r) \<in> set (flat ?L)" "node r = loc_iter loc" "r_id r = oid" "res"
    and b': "b' = (set_levels ?s (drop_node ?p (node r) ?L) b)\<lparr>locs := al_erase oid (locs b)\<rparr>"
    by auto
  note D = book_invD [OF inv] and I = indexedD [OF idx]
  have mem: "oid \<in> set (ids ?L)" using r by force
  have dk: "distinct (map fst (bids b))" "distinct (map fst (asks b))"
    using less_keys.sorted_distinct D(1,2) by auto
  show ?thesis
  proof (cases ?s)
    case Buy
    with mem I(3) have "oid \<notin> set (ids (asks b))" by auto
    moreover have "quotes (rev (drop_node ?p (node r) (bids b))) = drop_id oid (quotes (rev (bids b)))"
      using drop_node_quotes [of "rev (bids b)" ?p r] r Buy I(1) D(7) dk(1)
      by (simp add: drop_node_rev rev_map [symmetric])
    ultimately show ?thesis
      using mem Buy r(4) drop_id_absent [of oid "asks b"]
      by (simp add: b' set_levels_def abs_of_def quote_ids_quotes del: list.set_map)
  next
    case Sell
    with mem I(3) have "oid \<notin> set (ids (rev (bids b)))" by auto
    moreover have "quotes (drop_node ?p (node r) (asks b)) = drop_id oid (quotes (asks b))"
      using drop_node_quotes [of "asks b" ?p r] r Sell I(2) D(8) dk(2) by simp
    ultimately show ?thesis
      using mem Sell r(4) drop_id_absent [of oid "rev (bids b)"]
      by (simp add: b' set_levels_def abs_of_def quote_ids_quotes del: list.set_map)
  qed
qed

section \<open>The identifier index is exact for clients that use fresh identifiers\<close>

lemma indexedI:
  assumes "distinct (ids (bids b))" "distinct (ids (asks b))"
    and "set (ids (bids b)) \<inter> set (ids (asks b)) = {}"
    and "fst ` set (locs b) = set (ids (bids b)) \<union> set (ids (asks b))"
  shows "indexed b"
  using assms by (auto simp: indexed_def simp del: list.set_map)

lemma keys_erase_all: "fst ` set (erase_all is ls) = fst ` set ls - set is"
  by (auto simp: erase_all_def)

lemma swept_ids:
  assumes "sweep_levels ok r ls = (r', ls', ts)" "distinct (ids ls)"
  shows "distinct (ids ls')" "set (ids ls') = set (ids ls) - set (filled_ids ts)"
    "set (filled_ids ts) \<subseteq> set (ids ls)"
proof -
  from sweep_levels_stamps [OF assms(1)] obtain k where
    k: "stamps ls' = drop k (stamps ls)" "filled_ids ts = take k (ids ls)" by blast
  then have d: "ids ls' = drop k (ids ls)" by (simp add: ids_stamps drop_map)
  show "distinct (ids ls')" unfolding d using assms(2) by (rule distinct_drop)
  have "set (drop k xs) = set xs - set (take k xs)" if "distinct xs" for xs :: "u64 list"
    using set_take_disj_set_drop_if_distinct [OF that, of k k]
    by (metis Un_Diff_cancel Diff_triv Int_commute append_take_drop_id set_append order_refl
        Un_Diff Diff_cancel sup_bot_left)
  then show "set (ids ls') = set (ids ls) - set (filled_ids ts)" using assms(2) by (simp only: d k(2))
  show "set (filled_ids ts) \<subseteq> set (ids ls)" unfolding k(2) by (rule set_take_subset)
qed

lemma indexed_swept_asks:
  assumes idx: "indexed b" and sw: "sweep_levels ok r (asks b) = (r', ls', ts)"
  shows "indexed (b\<lparr>asks := ls', locs := erase_all (filled_ids ts) (locs b)\<rparr>)"
proof -
  note I = indexedD [OF idx] and W = swept_ids [OF sw indexedD(2) [OF idx]]
  show ?thesis
    by (rule indexedI) (use I W in \<open>auto simp: keys_erase_all simp del: list.set_map\<close>)
qed

lemma indexed_swept_bids:
  assumes idx: "indexed b" and sw: "sweep_levels ok r (rev (bids b)) = (r', ls', ts)"
  shows "indexed (b\<lparr>bids := rev ls', locs := erase_all (filled_ids ts) (locs b)\<rparr>)"
proof -
  have "distinct (ids (rev (bids b)))" using indexedD(1) [OF idx] by simp
  note I = indexedD [OF idx] and W = swept_ids [OF sw this]
  have "set (ids ls') = set (ids (bids b)) - set (filled_ids ts)"
    and "set (filled_ids ts) \<subseteq> set (ids (bids b))"
    using W(2,3) by (simp_all only: ids_rev)
  with I W(1) show ?thesis
    by (intro indexedI) (auto simp: keys_erase_all simp del: list.set_map)
qed

lemma indexed_place:
  assumes inv: "book_inv b" and idx: "indexed b" and new: "oid \<notin> set (ids (bids b)) \<union> set (ids (asks b))"
  shows "indexed (place oid s p q b)"
proof -
  let ?x = "\<lparr>node = next_node b, r_id = oid, r_qty = q\<rparr>"
  define ls where "ls = side_levels s b"
  define ls' where "ls' = omap_put (<) p (queued p ls @ [?x]) ls"
  have "omap_sorted (<) ls" using book_invD(1,2) [OF inv] by (cases s) (auto simp: ls_def)
  from flat_place [OF this] have "mset (ids ls') = add_mset oid (mset (ids ls))"
    by (simp add: ls'_def mset_map)
  then have S: "set (ids ls') = insert oid (set (ids ls))"
    and d: "distinct (ids ls') = distinct (oid # ids ls)"
    by (metis set_mset_add_mset_insert set_mset_mset, metis mset.simps(2) mset_eq_imp_distinct_iff)
  have keys: "fst ` set (locs (place oid s p q b)) = insert oid (fst ` set (locs b))"
    by (auto simp: place_def Let_def al_put_def)
  note I = indexedD [OF idx]
  show ?thesis
  proof (cases s)
    case Buy
    have b': "bids (place oid s p q b) = ls'" "asks (place oid s p q b) = asks b"
      by (simp_all add: place_def Let_def \<open>s = Buy\<close> set_levels_def ls'_def ls_def queued_def)
    show ?thesis
      by (rule indexedI) (use I S d keys new in \<open>simp_all add: b' [unfolded Buy] ls_def Buy\<close>)
  next
    case Sell
    have b': "asks (place oid s p q b) = ls'" "bids (place oid s p q b) = bids b"
      by (simp_all add: place_def Let_def \<open>s = Sell\<close> set_levels_def ls'_def ls_def queued_def)
    show ?thesis
      by (rule indexedI) (use I S d keys new in \<open>simp_all add: b' [unfolded Sell] ls_def Sell\<close>)
  qed
qed

lemma indexed_add_order:
  assumes inv: "book_inv b" and idx: "indexed b"
    and new: "o_id ord \<notin> set (ids (bids b)) \<union> set (ids (asks b))"
  shows "indexed (fst (add_order ord fs b))"
proof (cases "o_side ord")
  case Buy
  obtain r' ls' ts where sw: "sweep_levels (acceptable ord) (o_qty ord) (asks b) = (r', ls', ts)"
    by (metis prod_cases3)
  define b1 where "b1 = b\<lparr>asks := ls', locs := erase_all (filled_ids ts) (locs b)\<rparr>"
  have b1: "book_inv b1" "indexed b1"
    unfolding b1_def by (rule book_inv_swept_asks [OF inv sw], rule indexed_swept_asks [OF idx sw])
  have "o_id ord \<notin> set (ids (bids b1)) \<union> set (ids (asks b1))"
    using new swept_ids(2) [OF sw indexedD(2) [OF idx]] by (simp add: b1_def)
  from indexed_place [OF b1 this] b1(2) show ?thesis
    by (simp add: add_order_def Buy match_buy_sweep [OF Buy book_invD(2) [OF inv]] sw b1_def)
next
  case Sell
  obtain r' ls' ts where sw: "sweep_levels (acceptable ord) (o_qty ord) (rev (bids b)) = (r', ls', ts)"
    by (metis prod_cases3)
  define b1 where "b1 = b\<lparr>bids := rev ls', locs := erase_all (filled_ids ts) (locs b)\<rparr>"
  have b1: "book_inv b1" "indexed b1"
    unfolding b1_def by (rule book_inv_swept_bids [OF inv sw], rule indexed_swept_bids [OF idx sw])
  have "distinct (ids (rev (bids b)))" using indexedD(1) [OF idx] by simp
  with new swept_ids(2) [OF sw] have "o_id ord \<notin> set (ids (bids b1)) \<union> set (ids (asks b1))"
    by (simp add: b1_def)
  from indexed_place [OF b1 this] b1(2) show ?thesis
    by (simp add: add_order_def Sell match_sell_sweep [OF Sell book_invD(1) [OF inv]] sw b1_def)
qed

lemma filter_node_ids:
  assumes "distinct (ids ls)" "(p, r) \<in> set (flat ls)" "distinct (nodes ls)" "distinct (map fst ls)"
  shows "ids (drop_node p (node r) ls) = filter (\<lambda>i. i \<noteq> r_id r) (ids ls)"
proof -
  have "ids xs = map (fst \<circ> snd) (quotes xs)" for xs by (simp add: quote_of_def)
  then show ?thesis
    by (simp only: drop_node_quotes [OF assms])
       (simp add: drop_id_def filter_map comp_def case_prod_unfold)
qed

lemma indexed_cancel:
  assumes inv: "book_inv b" and idx: "indexed b" and c: "cancel oid b = Some (b', res)"
  shows "indexed b'"
proof (cases "map_of (locs b) oid")
  case None
  with c cancel_absent [OF None] idx show ?thesis by simp
next
  case (Some loc)
  let ?s = "loc_side loc" and ?p = "loc_price loc"
  let ?L = "side_levels ?s b"
  from cancel_found [OF inv Some] c obtain r where
    r: "(?p, r) \<in> set (flat ?L)" "r_id r = oid" "node r = loc_iter loc"
    and b': "b' = (set_levels ?s (drop_node ?p (node r) ?L) b)\<lparr>locs := al_erase oid (locs b)\<rparr>"
    by auto
  note D = book_invD [OF inv] and I = indexedD [OF idx]
  have L: "distinct (ids ?L)" "distinct (nodes ?L)" "distinct (map fst ?L)"
    using I(1,2) D(7,8) less_keys.sorted_distinct [OF D(1)] less_keys.sorted_distinct [OF D(2)]
    by (cases ?s; simp)+
  note F = filter_node_ids [OF L(1) r(1) L(2,3)]
  have keys: "fst ` set (locs b') = fst ` set (locs b) - {oid}" by (auto simp: b')
  have mem: "oid \<in> set (ids ?L)" using r by force
  show ?thesis
  proof (cases ?s)
    case Buy
    have lv: "ids (bids b') = filter (\<lambda>i. i \<noteq> oid) (ids (bids b))" "asks b' = asks b"
      using F r(2) by (simp_all add: b' set_levels_def Buy)
    show ?thesis
      unfolding indexed_def using I keys mem Buy
      by (auto simp: lv simp del: list.set_map)
  next
    case Sell
    have lv: "ids (asks b') = filter (\<lambda>i. i \<noteq> oid) (ids (asks b))" "bids b' = bids b"
      using F r(2) by (simp_all add: b' set_levels_def Sell)
    show ?thesis
      unfolding indexed_def using I keys mem Sell
      by (auto simp: lv simp del: list.set_map)
  qed
qed

section \<open>The book is a limit book\<close>

lemma fst_quotes: "map fst (quotes ls) = map fst (flat ls)"
  by (simp add: quote_of_def)

lemma sorted_quotes:
  assumes "omap_sorted lt ls" "\<And>x. le x x" "\<And>x y. lt x y \<Longrightarrow> le x y"
  shows "sorted_wrt le (map fst (quotes ls))"
  unfolding fst_quotes using assms(1)
proof (induction ls)
  case (Cons l ls)
  obtain p q where l: "l = (p, q)" by (cases l)
  have "\<forall>k \<in> fst ` set (flat ls). lt p k" using Cons.prems l keys_flat [of ls] by fastforce
  moreover have "sorted_wrt le (replicate n p)" for n using assms(2) by (induction n) auto
  ultimately show ?case
    using Cons assms(3) by (auto simp: sorted_wrt_append l comp_def map_replicate_const)
qed simp

lemma abs_of_wf:
  assumes "book_inv b"
  shows "abs_wf (abs_of b)"
proof -
  note D = book_invD [OF assms]
  have "omap_sorted (>) (rev (bids b))" using D(1) by (simp add: omap_sorted_rev)
  then have "sorted_wrt (\<ge>) (map fst (quotes (rev (bids b))))" by (rule sorted_quotes) auto
  moreover have "sorted_wrt (\<le>) (map fst (quotes (asks b)))"
    by (rule sorted_quotes [OF D(2)]) auto
  moreover have "fst x < fst y" if "x \<in> set (quotes (rev (bids b)))" "y \<in> set (quotes (asks b))" for x y
  proof -
    from that have "fst x \<in> fst ` set (flat (bids b))" "fst y \<in> fst ` set (flat (asks b))"
      by (force simp: quote_of_def)+
    then have "fst x \<in> fst ` set (bids b)" "fst y \<in> fst ` set (asks b)"
      using keys_flat [of "bids b"] keys_flat [of "asks b"] by blast+
    with D(13) show ?thesis unfolding uncrossed_def by blast
  qed
  moreover have "snd (snd x) \<noteq> 0" if "x \<in> set (quotes (rev (bids b))) \<union> set (quotes (asks b))" for x
    using that D(5,6) by (auto simp: quote_of_def positive_qtys_def)
  ultimately show ?thesis by (simp add: abs_wf_def abs_of_def)
qed

interpretation ob: limit_book book_inv indexed abs_of empty_book add_order cancel
proof unfold_locales
  show "book_inv empty_book" by (rule book_inv_empty)
  show "indexed empty_book" by (simp add: indexed_def empty_book_def)
  show "abs_of empty_book = ([], [])" by (simp add: abs_of_def empty_book_def)
next
  fix b ord fs b' fs' oid res
  assume inv: "book_inv b"
  show "abs_wf (abs_of b)" by (rule abs_of_wf [OF inv])
  show "book_inv (fst (add_order ord fs b))" by (rule book_inv_add_order [OF inv])
  show "\<exists>b' res. cancel oid b = Some (b', res) \<and> book_inv b'" using book_inv_cancel [OF inv] by metis
  show "add_order ord fs b = (b', fs') \<Longrightarrow>
      \<exists>new. spec_add ord (abs_of b) = (abs_of b', new) \<and> fs' = fs @ new"
    by (rule add_order_refines [OF inv])
  assume idx: "indexed b"
  show "o_id ord \<notin> quote_ids (fst (abs_of b)) \<union> quote_ids (snd (abs_of b)) \<Longrightarrow>
      indexed (fst (add_order ord fs b))"
    by (rule indexed_add_order [OF inv idx]) (simp add: abs_of_def quote_ids_quotes)
  assume c: "cancel oid b = Some (b', res)"
  show "indexed b'" by (rule indexed_cancel [OF inv idx c])
  show "spec_cancel oid (abs_of b) = (abs_of b', res)" by (rule cancel_refines [OF inv idx c])
qed

end
