(* ===== verification/Matching_Engine.thy ===== *)
theory Matching_Engine
  imports Matching_Refine
begin

text \<open>
  The second order book of the repository, \<open>include/nts/matching_engine.h\<close> and
  \<open>src/matching_engine.cpp\<close>: the same interface, but bids are a
  \<open>std::map<Price, OrderQueue, std::greater<Price>>\<close>, so both sides have their best level at
  \<open>begin()\<close>, and the level loops are written out in \<open>match_buy\<close> and \<open>match_sell\<close>, which keep an
  iterator to the first level and update or erase it in place.

  It is shown to be observationally equal to the book of \<open>src/matching/orderbook.cpp\<close>.
\<close>

record engine_book =
  eb_bids :: levels
  eb_asks :: levels
  eb_locs :: locations
  eb_next :: nat

definition empty_engine :: engine_book where
  "empty_engine = \<lparr>eb_bids = [], eb_asks = [], eb_locs = [], eb_next = 0\<rparr>"

section \<open>Operations\<close>

function queue_loop ::
  "side \<Rightarrow> u64 \<Rightarrow> u64 \<Rightarrow> u64 \<Rightarrow> queue \<Rightarrow> locations \<Rightarrow> fill list \<Rightarrow>
     u64 \<times> queue \<times> locations \<times> fill list"
where
  "queue_loop s level_price oid remaining [] ls fills = (remaining, [], ls, fills)"
| "queue_loop s level_price oid remaining (maker # queue) ls fills =
     (if remaining > 0 then
        let fill_qty = min remaining (r_qty maker);
            fills' = fills @ [\<lparr>maker_id = r_id maker, taker_id = oid, f_price = level_price,
                                f_qty = fill_qty, f_side = s\<rparr>];
            maker' = maker\<lparr>r_qty := r_qty maker - fill_qty\<rparr>;
            remaining' = remaining - fill_qty
        in if r_qty maker' = 0
           then queue_loop s level_price oid remaining' queue (al_erase (r_id maker) ls) fills'
           else queue_loop s level_price oid remaining' (maker' # queue) ls fills'
      else (remaining, maker # queue, ls, fills))"
  by pat_completeness auto
termination
proof (relation "measure (\<lambda>(_, _, _, remaining, queue, _, _). length queue + unat remaining)",
       goal_cases)
  case (2 s p t remaining maker queue ls fills fill_qty fills' maker' remaining')
  from 2(2,5) have "unat remaining' \<le> unat remaining" by (simp add: unat_sub_min)
  then show ?case by simp
next
  case (3 s p t remaining maker queue ls fills fill_qty fills' maker' remaining')
  then show ?case
    by (auto simp: sub_min_eq_0_iff min_def word_gt_0_iff word_less_nat_alt split: if_splits)
qed simp

declare queue_loop.simps(2) [simp del]

lemma queue_loop_eq: "queue_loop s p t r q ls fs = fill_loop s p t r q ls fs"
proof (induction s p t r q ls fs rule: queue_loop.induct)
  case (2 s p t r m q ls fs)
  show ?case
    using "2.IH" by (simp add: queue_loop.simps(2) [of s p t r m q ls fs]
        fill_loop.simps(2) [of s p t r m q ls fs] Let_def)
qed simp

function me_match_buy ::
  "order \<Rightarrow> u64 \<Rightarrow> fill list \<Rightarrow> engine_book \<Rightarrow> engine_book \<times> u64 \<times> fill list"
where
  "me_match_buy ord remaining fills e =
     (case eb_asks e of
        [] \<Rightarrow> (e, remaining, fills)
      | (ask_price, queue) # levels \<Rightarrow>
          if remaining > 0 then
            if o_type ord = Limit \<and> ask_price > o_price ord then (e, remaining, fills)
            else
              let (remaining', queue', ls', fills') =
                    queue_loop Buy ask_price (o_id ord) remaining queue (eb_locs e) fills;
                  asks' = (if queue' = [] then levels else (ask_price, queue') # levels)
              in me_match_buy ord remaining' fills' (e\<lparr>eb_asks := asks', eb_locs := ls'\<rparr>)
          else (e, remaining, fills))"
  by pat_completeness auto
termination
proof (relation "measures [\<lambda>(_, r, _, _). if r = 0 then 0 else 1, \<lambda>(_, _, _, e). length (eb_asks e)]",
       goal_cases)
  case (2 ord r fs e l ls p q x r' y q' z ls' fs')
  with fill_loop_done [of Buy p "o_id ord" r q "eb_locs e" fs r' q' ls' fs']
  show ?case by (auto simp: queue_loop_eq)
qed simp

function me_match_sell ::
  "order \<Rightarrow> u64 \<Rightarrow> fill list \<Rightarrow> engine_book \<Rightarrow> engine_book \<times> u64 \<times> fill list"
where
  "me_match_sell ord remaining fills e =
     (case eb_bids e of
        [] \<Rightarrow> (e, remaining, fills)
      | (bid_price, queue) # levels \<Rightarrow>
          if remaining > 0 then
            if o_type ord = Limit \<and> bid_price < o_price ord then (e, remaining, fills)
            else
              let (remaining', queue', ls', fills') =
                    queue_loop Sell bid_price (o_id ord) remaining queue (eb_locs e) fills;
                  bids' = (if queue' = [] then levels else (bid_price, queue') # levels)
              in me_match_sell ord remaining' fills' (e\<lparr>eb_bids := bids', eb_locs := ls'\<rparr>)
          else (e, remaining, fills))"
  by pat_completeness auto
termination
proof (relation "measures [\<lambda>(_, r, _, _). if r = 0 then 0 else 1, \<lambda>(_, _, _, e). length (eb_bids e)]",
       goal_cases)
  case (2 ord r fs e l ls p q x r' y q' z ls' fs')
  with fill_loop_done [of Sell p "o_id ord" r q "eb_locs e" fs r' q' ls' fs']
  show ?case by (auto simp: queue_loop_eq)
qed simp

declare me_match_buy.simps [simp del] me_match_sell.simps [simp del]

definition me_place :: "u64 \<Rightarrow> side \<Rightarrow> u64 \<Rightarrow> u64 \<Rightarrow> engine_book \<Rightarrow> engine_book" where
  "me_place oid s price qty e =
     (let n = eb_next e;
          maker = \<lparr>node = n, r_id = oid, r_qty = qty\<rparr>;
          ls' = al_put oid \<lparr>loc_side = s, loc_price = price, loc_iter = n\<rparr> (eb_locs e)
      in case s of
           Buy \<Rightarrow>
             let queue = (case map_of (eb_bids e) price of None \<Rightarrow> [] | Some q \<Rightarrow> q)
             in e\<lparr>eb_bids := omap_put (>) price (queue @ [maker]) (eb_bids e),
                  eb_locs := ls', eb_next := Suc n\<rparr>
         | Sell \<Rightarrow>
             let queue = (case map_of (eb_asks e) price of None \<Rightarrow> [] | Some q \<Rightarrow> q)
             in e\<lparr>eb_asks := omap_put (<) price (queue @ [maker]) (eb_asks e),
                  eb_locs := ls', eb_next := Suc n\<rparr>)"

definition me_add_order :: "order \<Rightarrow> fill list \<Rightarrow> engine_book \<Rightarrow> engine_book \<times> fill list" where
  "me_add_order ord fills e =
     (let (e', remaining, fills') =
            (case o_side ord of
               Buy \<Rightarrow> me_match_buy ord (o_qty ord) fills e
             | Sell \<Rightarrow> me_match_sell ord (o_qty ord) fills e)
      in if remaining > 0 \<and> o_type ord = Limit
         then (me_place (o_id ord) (o_side ord) (o_price ord) remaining e', fills')
         else (e', fills'))"

text \<open>One side of \<open>cancel\<close>: find the level, erase through the iterator, drop an emptied level.\<close>

definition erase_from :: "u64 \<Rightarrow> nat \<Rightarrow> levels \<Rightarrow> levels option" where
  "erase_from price it m =
     (case map_of m price of
        None \<Rightarrow> None
      | Some q \<Rightarrow>
          (case erase_node it q of
             None \<Rightarrow> None
           | Some q' \<Rightarrow> Some (if q' = [] then al_erase price m else al_assign price q' m)))"

definition me_cancel :: "u64 \<Rightarrow> engine_book \<Rightarrow> (engine_book \<times> bool) option" where
  "me_cancel oid e =
     (case map_of (eb_locs e) oid of
        None \<Rightarrow> Some (e, False)
      | Some loc \<Rightarrow>
          let e1 = e\<lparr>eb_locs := al_erase oid (eb_locs e)\<rparr>
          in case loc_side loc of
               Buy \<Rightarrow>
                 (case erase_from (loc_price loc) (loc_iter loc) (eb_bids e1) of
                    None \<Rightarrow> None
                  | Some m \<Rightarrow> Some (e1\<lparr>eb_bids := m\<rparr>, True))
             | Sell \<Rightarrow>
                 (case erase_from (loc_price loc) (loc_iter loc) (eb_asks e1) of
                    None \<Rightarrow> None
                  | Some m \<Rightarrow> Some (e1\<lparr>eb_asks := m\<rparr>, True)))"

definition me_best_bid :: "engine_book \<Rightarrow> u64 option" where
  "me_best_bid e = (case eb_bids e of [] \<Rightarrow> None | l # _ \<Rightarrow> Some (fst l))"

definition me_best_ask :: "engine_book \<Rightarrow> u64 option" where
  "me_best_ask e = (case eb_asks e of [] \<Rightarrow> None | l # _ \<Rightarrow> Some (fst l))"

definition me_spread :: "engine_book \<Rightarrow> u64 option" where
  "me_spread e =
     (case (me_best_bid e, me_best_ask e) of
        (Some bid, Some ask) \<Rightarrow> (if ask < bid then None else Some (ask - bid))
      | _ \<Rightarrow> None)"

definition me_len :: "engine_book \<Rightarrow> u64" where
  "me_len e = of_nat (length (eb_locs e))"

definition me_is_empty :: "engine_book \<Rightarrow> bool" where
  "me_is_empty e = (eb_locs e = [])"

definition me_depth_at :: "side \<Rightarrow> u64 \<Rightarrow> engine_book \<Rightarrow> u64" where
  "me_depth_at s price e =
     (case s of
        Buy \<Rightarrow> (case map_of (eb_bids e) price of
                  None \<Rightarrow> 0 | Some q \<Rightarrow> foldl (\<lambda>total m. total + r_qty m) 0 q)
      | Sell \<Rightarrow> (case map_of (eb_asks e) price of
                  None \<Rightarrow> 0 | Some q \<Rightarrow> foldl (\<lambda>total m. total + r_qty m) 0 q))"

section \<open>Equivalence with the other book\<close>

definition engine_view :: "engine_book \<Rightarrow> order_book" where
  "engine_view e = \<lparr>bids = rev (eb_bids e), asks = eb_asks e, locs = eb_locs e, next_node = eb_next e\<rparr>"

lemma engine_view_simps [simp]:
  "bids (engine_view e) = rev (eb_bids e)" "asks (engine_view e) = eb_asks e"
  "locs (engine_view e) = eb_locs e" "next_node (engine_view e) = eb_next e"
  by (simp_all add: engine_view_def)

lemma me_match_buy_sweep:
  assumes "o_side ord = Buy"
  shows "me_match_buy ord r fs e =
     (let (r', ls', ts) = sweep_levels (acceptable ord) r (eb_asks e)
      in (e\<lparr>eb_asks := ls', eb_locs := erase_all (filled_ids ts) (eb_locs e)\<rparr>, r',
          fs @ map (fill_of Buy (o_id ord)) ts))"
proof (induction "eb_asks e" arbitrary: r fs e)
  case Nil
  then show ?case by (simp add: me_match_buy.simps [of ord r fs e])
next
  case (Cons l ls)
  obtain p q where l: "l = (p, q)" by (cases l)
  note asks = Cons.hyps(2) [symmetric, unfolded l]
  show ?case
  proof (cases "r = 0 \<or> \<not> acceptable ord p")
    case True
    with assms asks show ?thesis
      by (auto simp: me_match_buy.simps [of ord r fs e] acceptable_Buy word_gt_0_iff)
  next
    case False
    obtain r1 q1 ts1 where c: "consume r q = (r1, q1, ts1)" by (metis prod_cases3)
    define e1 where "e1 = e\<lparr>eb_asks := if q1 = [] then ls else (p, q1) # ls,
        eb_locs := erase_all (filled_ids (map (Pair p) ts1)) (eb_locs e)\<rparr>"
    have step: "me_match_buy ord r fs e =
        me_match_buy ord r1 (fs @ map (fill_of Buy (o_id ord) \<circ> Pair p) ts1) e1"
      using False asks c assms
      by (subst me_match_buy.simps)
         (auto simp: queue_loop_eq fill_loop_consume e1_def word_gt_0_iff acceptable_Buy)
    show ?thesis
    proof (cases "q1 = []")
      case True
      with Cons.hyps(1) [of e1] step c asks False show ?thesis
        by (auto simp: e1_def split: prod.splits)
    next
      case q1: False
      with c have "r1 = 0" by (auto dest: consume_done)
      with step q1 c asks False show ?thesis
        by (simp add: e1_def me_match_buy.simps [of ord 0] comp_def)
    qed
  qed
qed

lemma me_match_sell_sweep:
  assumes "o_side ord = Sell"
  shows "me_match_sell ord r fs e =
     (let (r', ls', ts) = sweep_levels (acceptable ord) r (eb_bids e)
      in (e\<lparr>eb_bids := ls', eb_locs := erase_all (filled_ids ts) (eb_locs e)\<rparr>, r',
          fs @ map (fill_of Sell (o_id ord)) ts))"
proof (induction "eb_bids e" arbitrary: r fs e)
  case Nil
  then show ?case by (simp add: me_match_sell.simps [of ord r fs e])
next
  case (Cons l ls)
  obtain p q where l: "l = (p, q)" by (cases l)
  note bids = Cons.hyps(2) [symmetric, unfolded l]
  show ?case
  proof (cases "r = 0 \<or> \<not> acceptable ord p")
    case True
    with assms bids show ?thesis
      by (auto simp: me_match_sell.simps [of ord r fs e] acceptable_Sell word_gt_0_iff)
  next
    case False
    obtain r1 q1 ts1 where c: "consume r q = (r1, q1, ts1)" by (metis prod_cases3)
    define e1 where "e1 = e\<lparr>eb_bids := if q1 = [] then ls else (p, q1) # ls,
        eb_locs := erase_all (filled_ids (map (Pair p) ts1)) (eb_locs e)\<rparr>"
    have step: "me_match_sell ord r fs e =
        me_match_sell ord r1 (fs @ map (fill_of Sell (o_id ord) \<circ> Pair p) ts1) e1"
      using False bids c assms
      by (subst me_match_sell.simps)
         (auto simp: queue_loop_eq fill_loop_consume e1_def word_gt_0_iff acceptable_Sell)
    show ?thesis
    proof (cases "q1 = []")
      case True
      with Cons.hyps(1) [of e1] step c bids False show ?thesis
        by (auto simp: e1_def split: prod.splits)
    next
      case q1: False
      with c have "r1 = 0" by (auto dest: consume_done)
      with step q1 c bids False show ?thesis
        by (simp add: e1_def me_match_sell.simps [of ord 0] comp_def)
    qed
  qed
qed

lemma engine_place:
  assumes "omap_sorted (<) (rev (eb_bids e))"
  shows "engine_view (me_place oid s p q e) = place oid s p q (engine_view e)"
proof -
  have "omap_put (>) p v (eb_bids e) = rev (omap_put (<) p v (rev (eb_bids e)))" for v
    using omap_put_rev [OF assms, of p v] by simp
  moreover have "map_of (rev (eb_bids e)) = map_of (eb_bids e)"
    using map_of_rev_distinct [of "eb_bids e"] less_keys.sorted_distinct [OF assms]
    by (simp add: rev_map [symmetric])
  ultimately show ?thesis
    by (cases s) (simp_all add: me_place_def place_def Let_def set_levels_def engine_view_def
        side_levels_def)
qed

lemma engine_add_order:
  assumes inv: "book_inv (engine_view e)"
  shows "(let (e', fs') = me_add_order ord fs e in (engine_view e', fs')) =
     add_order ord fs (engine_view e)"
proof (cases "o_side ord")
  case Buy
  obtain r' ls' ts where sw: "sweep_levels (acceptable ord) (o_qty ord) (eb_asks e) = (r', ls', ts)"
    by (metis prod_cases3)
  define e1 where "e1 = e\<lparr>eb_asks := ls', eb_locs := erase_all (filled_ids ts) (eb_locs e)\<rparr>"
  have v: "engine_view e1 = (engine_view e)\<lparr>asks := ls', locs := erase_all (filled_ids ts) (eb_locs e)\<rparr>"
    by (simp add: e1_def engine_view_def)
  have "omap_sorted (<) (rev (eb_bids e1))" using book_invD(1) [OF inv] by (simp add: e1_def)
  with sw v show ?thesis
    using match_buy_sweep [OF Buy book_invD(2) [OF inv], of "o_qty ord" fs]
    by (auto simp: me_add_order_def add_order_def Buy me_match_buy_sweep [OF Buy] engine_place
        simp flip: e1_def)
next
  case Sell
  obtain r' ls' ts where sw: "sweep_levels (acceptable ord) (o_qty ord) (eb_bids e) = (r', ls', ts)"
    by (metis prod_cases3)
  define e1 where "e1 = e\<lparr>eb_bids := ls', eb_locs := erase_all (filled_ids ts) (eb_locs e)\<rparr>"
  have v: "engine_view e1 = (engine_view e)\<lparr>bids := rev ls', locs := erase_all (filled_ids ts) (eb_locs e)\<rparr>"
    by (simp add: e1_def engine_view_def)
  have "sweep_levels (acceptable ord) (o_qty ord) (rev (bids (engine_view e))) = (r', ls', ts)"
    using sw by simp
  from book_invD(1) [OF book_inv_swept_bids [OF inv this]]
  have "omap_sorted (<) (rev (eb_bids e1))" by (simp add: e1_def)
  with sw v show ?thesis
    using match_sell_sweep [OF Sell book_invD(1) [OF inv], of "o_qty ord" fs]
    by (auto simp: me_add_order_def add_order_def Sell me_match_sell_sweep [OF Sell] engine_place
        simp flip: e1_def)
qed

lemma erase_from_drop_node:
  "erase_from p n m =
     (if n \<in> node ` set (queued p m) then Some (drop_node p n m) else None)"
proof (cases "map_of m p")
  case None
  then show ?thesis by (simp add: erase_from_def queued_def)
next
  case (Some q)
  have "al_erase p (al_assign p v m) = al_erase p m" for v by (induction m) auto
  with Some show ?thesis
    by (auto simp: erase_from_def queued_def erase_node_def drop_node_def map_of_al_assign Let_def)
qed

lemma engine_cancel:
  assumes inv: "book_inv (engine_view e)"
  shows "map_option (\<lambda>(e', res). (engine_view e', res)) (me_cancel oid e) = cancel oid (engine_view e)"
proof (cases "map_of (eb_locs e) oid")
  case None
  then show ?thesis by (simp add: me_cancel_def cancel_absent)
next
  case (Some loc)
  then have loc: "map_of (locs (engine_view e)) oid = Some loc" by simp
  let ?s = "loc_side loc" and ?p = "loc_price loc" and ?n = "loc_iter loc"
  let ?L = "side_levels ?s (engine_view e)"
  from cancel_found [OF inv loc] obtain r where
    r: "(?p, r) \<in> set (flat ?L)" "node r = ?n" and
    c: "cancel oid (engine_view e) =
      Some ((set_levels ?s (drop_node ?p ?n ?L) (engine_view e))\<lparr>locs := al_erase oid (eb_locs e)\<rparr>, True)"
    by auto
  have d: "distinct (map fst (rev (eb_bids e)))" "distinct (map fst (eb_asks e))"
    using less_keys.sorted_distinct book_invD(1,2) [OF inv] by auto
  then have "distinct (map fst ?L)" by (cases ?s) simp_all
  from flat_find(2) [OF this r(1)] have n: "?n \<in> node ` set (queued ?p ?L)"
    using r(2) by (auto intro: rev_image_eqI)
  show ?thesis
  proof (cases ?s)
    case Buy
    have "queued ?p (rev (eb_bids e)) = queued ?p (eb_bids e)"
      using d(1) map_of_rev_distinct [of "eb_bids e"] by (simp add: queued_def rev_map [symmetric])
    with n Buy d(1) show ?thesis
      unfolding c by (simp add: Some me_cancel_def erase_from_drop_node engine_view_def set_levels_def
          drop_node_rev rev_map [symmetric])
  next
    case Sell
    with n show ?thesis
      unfolding c by (simp add: Some me_cancel_def erase_from_drop_node engine_view_def set_levels_def)
  qed
qed

text \<open>Every observer of the two classes agrees.\<close>

lemma engine_observers:
  "me_best_bid e = best_bid (engine_view e)" "me_best_ask e = best_ask (engine_view e)"
  "me_spread e = spread (engine_view e)" "me_len e = book_len (engine_view e)"
  "me_is_empty e = is_empty (engine_view e)"
proof -
  show "me_best_bid e = best_bid (engine_view e)"
    by (cases "eb_bids e") (simp_all add: me_best_bid_def best_bid_def)
  moreover show "me_best_ask e = best_ask (engine_view e)"
    by (cases "eb_asks e") (simp_all add: me_best_ask_def best_ask_def)
  ultimately show "me_spread e = spread (engine_view e)"
    by (auto simp: me_spread_def spread_def not_less split: option.splits)
qed (simp_all add: me_len_def book_len_def me_is_empty_def is_empty_def)

lemma engine_depth_at:
  assumes "book_inv (engine_view e)"
  shows "me_depth_at s p e = depth_at s p (engine_view e)"
proof -
  have "map_of (rev (eb_bids e)) = map_of (eb_bids e)"
    using map_of_rev_distinct [of "eb_bids e"] less_keys.sorted_distinct [OF book_invD(1) [OF assms]]
    by (simp add: rev_map [symmetric])
  then show ?thesis by (cases s) (simp_all add: me_depth_at_def depth_at_def)
qed

lemma engine_view_empty: "engine_view empty_engine = empty_book"
  by (simp add: engine_view_def empty_engine_def empty_book_def)

lemma engine_add_orderD:
  assumes "book_inv (engine_view e)" "me_add_order ord fs e = (e', fs')"
  shows "add_order ord fs (engine_view e) = (engine_view e', fs')"
  using engine_add_order [OF assms(1), of ord fs] assms(2) by simp

lemma engine_cancelD:
  assumes "book_inv (engine_view e)" "me_cancel oid e = Some (e', res)"
  shows "cancel oid (engine_view e) = Some (engine_view e', res)"
  using engine_cancel [OF assms(1), of oid] assms(2) by simp

interpretation me: limit_book "\<lambda>e. book_inv (engine_view e)" "\<lambda>e. indexed (engine_view e)"
  "\<lambda>e. abs_of (engine_view e)" empty_engine me_add_order me_cancel
proof unfold_locales
  show "book_inv (engine_view empty_engine)" "indexed (engine_view empty_engine)"
    "abs_of (engine_view empty_engine) = ([], [])"
    by (simp_all add: engine_view_empty ob.inv_empty ob.exact_empty ob.abs_empty)
next
  fix e ord fs e' fs' oid res
  assume inv: "book_inv (engine_view e)"
  obtain e1 fs1 where a: "me_add_order ord fs e = (e1, fs1)" by (metis surj_pair)
  note A = engine_add_orderD [OF inv]
  show "abs_wf (abs_of (engine_view e))" by (rule ob.inv_abs [OF inv])
  show "book_inv (engine_view (fst (me_add_order ord fs e)))"
    using ob.inv_add [OF inv, of ord fs] A [OF a] by (simp add: a)
  show "me_add_order ord fs e = (e', fs') \<Longrightarrow>
      \<exists>new. spec_add ord (abs_of (engine_view e)) = (abs_of (engine_view e'), new) \<and> fs' = fs @ new"
    by (rule ob.add_refines [OF inv A])
  show "\<exists>e' res. me_cancel oid e = Some (e', res) \<and> book_inv (engine_view e')"
    using ob.inv_can [OF inv, of oid] engine_cancel [OF inv, of oid] by auto
  assume idx: "indexed (engine_view e)"
  show "o_id ord \<notin> quote_ids (fst (abs_of (engine_view e))) \<union> quote_ids (snd (abs_of (engine_view e))) \<Longrightarrow>
      indexed (engine_view (fst (me_add_order ord fs e)))"
    using ob.exact_add [OF inv idx, of ord fs] A [OF a] by (simp add: a)
  assume c: "me_cancel oid e = Some (e', res)"
  note C = engine_cancelD [OF inv c]
  show "indexed (engine_view e')" by (rule ob.exact_can [OF inv idx C])
  show "spec_cancel oid (abs_of (engine_view e)) = (abs_of (engine_view e'), res)"
    by (rule ob.can_refines [OF inv idx C])
qed

text \<open>The two classes are interchangeable: same fills, same book, for every sequence of calls.\<close>

lemma engine_run_ops:
  assumes "book_inv (engine_view e)"
  shows "map_option (\<lambda>(e', fs'). (engine_view e', fs')) (run_ops me_add_order me_cancel ops e fs) =
     run_ops add_order cancel ops (engine_view e) fs"
  using assms
proof (induction ops arbitrary: e fs)
  case (Cons op ops)
  show ?case
  proof (cases op)
    case (AddOrder ord)
    obtain e1 fs1 where a: "me_add_order ord fs e = (e1, fs1)" by (metis surj_pair)
    from Cons.IH [of e1] me.inv_add [OF Cons.prems, of ord fs] engine_add_orderD [OF Cons.prems a]
    show ?thesis by (simp add: AddOrder a)
  next
    case (CancelOrder oid)
    from me.inv_can [OF Cons.prems, of oid] obtain e1 res where
      c: "me_cancel oid e = Some (e1, res)" "book_inv (engine_view e1)" by blast
    from Cons.IH [OF c(2)] engine_cancelD [OF Cons.prems c(1)] show ?thesis
      by (simp add: CancelOrder c(1))
  qed
qed simp

end
