(* ===== verification/Matching_Properties.thy ===== *)
theory Matching_Properties
  imports Matching_Engine
begin

text \<open>
  What clients of the two matching books may rely on, over every sequence of calls that starts
  from an empty book.
\<close>

section \<open>Runs against the abstract book\<close>

text \<open>The reference run, and the identifiers that a sequence of calls submits.\<close>

fun run_spec :: "book_op list \<Rightarrow> abs_book \<Rightarrow> fill list \<Rightarrow> abs_book \<times> fill list" where
  "run_spec [] ab fs = (ab, fs)"
| "run_spec (AddOrder ord # ops) ab fs =
     (let (ab', new) = spec_add ord ab in run_spec ops ab' (fs @ new))"
| "run_spec (CancelOrder oid # ops) ab fs = run_spec ops (fst (spec_cancel oid ab)) fs"

fun submitted :: "book_op list \<Rightarrow> u64 list" where
  "submitted [] = []"
| "submitted (AddOrder ord # ops) = o_id ord # submitted ops"
| "submitted (CancelOrder oid # ops) = submitted ops"

abbreviation book_ids :: "abs_book \<Rightarrow> u64 set" where
  "book_ids ab \<equiv> quote_ids (fst ab) \<union> quote_ids (snd ab)"

lemma quote_ids_Cons: "quote_ids (x # xs) = insert (fst (snd x)) (quote_ids xs)"
  by (cases x) (auto simp: quote_ids_def)

lemma quote_ids_insert_prio: "quote_ids (insert_prio lt x xs) = insert (fst (snd x)) (quote_ids xs)"
proof -
  have "set (takeWhile P xs) \<union> set (dropWhile P xs) = set xs" for P
    by (metis set_append takeWhile_dropWhile_id)
  then have "set (insert_prio lt x xs) = insert x (set xs)"
    by (fastforce simp: insert_prio_def Let_def)
  then show ?thesis by (cases x) (simp add: quote_ids_def)
qed

lemma quote_ids_trade: "trade ok r xs = (r', xs', ts) \<Longrightarrow> quote_ids xs' \<subseteq> quote_ids xs"
  by (induction ok r xs arbitrary: r' xs' ts rule: trade.induct)
     (auto simp: quote_ids_Cons split: if_splits prod.splits)

lemma book_ids_spec_add:
  assumes "spec_add ord ab = (ab', new)"
  shows "book_ids ab' \<subseteq> insert (o_id ord) (book_ids ab)"
proof -
  obtain bs as where ab: "ab = (bs, as)" by (cases ab)
  obtain r xs ts where t: "trade (acceptable ord) (o_qty ord) (opposite_side ord ab) = (r, xs, ts)"
    by (metis prod_cases3)
  note q = quote_ids_trade [OF t]
  from assms t q show ?thesis
    by (cases "o_side ord")
       (auto simp: ab opposite_side_def quote_ids_insert_prio split: if_splits)
qed

lemma quote_ids_drop_id: "quote_ids (drop_id oid xs) = quote_ids xs - {oid}"
proof (induction xs)
  case (Cons x xs)
  then show ?case by (cases x) (auto simp: drop_id_def quote_ids_Cons)
qed (simp add: drop_id_def quote_ids_def)

lemma book_ids_spec_cancel: "book_ids (fst (spec_cancel oid ab)) = book_ids ab - {oid}"
  by (cases ab) (auto simp: quote_ids_drop_id)

context limit_book
begin

lemma run_refines:
  assumes "inv b" "exact b" "distinct (submitted ops)" "set (submitted ops) \<inter> book_ids (abs b) = {}"
  shows "\<exists>b' fs'. run_ops add can ops b fs = Some (b', fs') \<and> inv b' \<and> exact b' \<and>
           run_spec ops (abs b) fs = (abs b', fs')"
  using assms
proof (induction ops arbitrary: b fs)
  case (Cons op ops)
  show ?case
  proof (cases op)
    case (AddOrder ord)
    obtain b1 fs1 where a: "add ord fs b = (b1, fs1)" by (metis surj_pair)
    from add_refines [OF Cons.prems(1) a] obtain new where
      n: "spec_add ord (abs b) = (abs b1, new)" "fs1 = fs @ new" by blast
    have i: "inv b1" using inv_add [OF Cons.prems(1), of ord fs] by (simp add: a)
    have e: "exact b1" using exact_add [OF Cons.prems(1,2), of ord fs] Cons.prems(4)
      by (simp add: a AddOrder)
    have "set (submitted ops) \<inter> book_ids (abs b1) = {}"
      using book_ids_spec_add [OF n(1)] Cons.prems(3,4) by (auto simp: AddOrder)
    with Cons.IH [OF i e, of fs1] Cons.prems(3) show ?thesis
      by (simp add: AddOrder a n)
  next
    case (CancelOrder oid)
    from inv_can [OF Cons.prems(1), of oid] obtain b1 res where
      c: "can oid b = Some (b1, res)" "inv b1" by blast
    note s = can_refines [OF Cons.prems(1,2) c(1)]
    have "set (submitted ops) \<inter> book_ids (abs b1) = {}"
      using book_ids_spec_cancel [of oid "abs b"] Cons.prems(4) s by (auto simp: CancelOrder)
    with Cons.IH [OF c(2) exact_can [OF Cons.prems(1,2) c(1)], of fs] Cons.prems(3) show ?thesis
      by (simp add: CancelOrder c(1) s)
  qed
qed simp

lemma run_inv: "run_ops add can ops empty [] = Some (b, fs) \<Longrightarrow> inv b"
  using run_safe [OF inv_empty, of ops "[]"] by auto

end

section \<open>What the observers report\<close>

lemma best_ask_least:
  assumes "book_inv b" "best_ask b = Some p"
  shows "p \<in> fst ` set (asks b)" "\<forall>a \<in> fst ` set (asks b). p \<le> a"
  using book_invD(2) [OF assms(1)] assms(2) less_keys.begin_least
  by (cases "asks b"; force simp: best_ask_def)+

lemma best_bid_greatest:
  assumes "book_inv b" "best_bid b = Some p"
  shows "p \<in> fst ` set (bids b)" "\<forall>a \<in> fst ` set (bids b). a \<le> p"
proof -
  from assms(2) have ne: "bids b \<noteq> []" and p: "p = fst (last (bids b))"
    by (auto simp: best_bid_def split: if_splits)
  then obtain e es where es: "rev (bids b) = e # es" by (cases "rev (bids b)") auto
  have "omap_sorted (>) (e # es)"
    using book_invD(1) [OF assms(1)] omap_sorted_rev [of "(>)" "bids b"] by (simp add: es)
  moreover have "p = fst e" using p hd_rev [of "bids b"] by (simp add: es)
  moreover have "set (bids b) = set (e # es)" using set_rev [of "bids b"] by (simp add: es)
  ultimately show "p \<in> fst ` set (bids b)" "\<forall>a \<in> fst ` set (bids b). a \<le> p" by auto
qed

text \<open>\<open>depth_at\<close> sums, in 64-bit arithmetic, what rests at one price.\<close>

lemma foldl_qty: "foldl (\<lambda>t r. t + r_qty r) a q = a + of_nat (sum_list (map (unat \<circ> r_qty) q))"
  by (induction q arbitrary: a) (auto simp: ac_simps)

lemma depth_at_sum:
  assumes "distinct (map fst (side_levels s b))"
  shows "depth_at s p b =
     of_nat (sum_list (map (\<lambda>e. unat (r_qty (snd e))) (filter (\<lambda>e. fst e = p) (flat (side_levels s b)))))"
proof -
  have "filter (\<lambda>e. fst e = p) (flat ls) = map (Pair p) (queued p ls)"
    if "distinct (map fst ls)" for ls :: levels
    using that
  proof (induction ls)
    case (Cons l ls)
    obtain k q where l: "l = (k, q)" by (cases l)
    have "filter (\<lambda>e. fst e = p) (flat ls) = []" if "p \<notin> fst ` set ls" for ls :: levels
      using that keys_flat [of ls] by (auto simp: filter_empty_conv)
    with Cons l show ?case by (auto simp: queued_def filter_map comp_def)
  qed (simp add: queued_def)
  from this [OF assms] show ?thesis
    by (auto simp: depth_at_def foldl_qty queued_def comp_def split: option.splits)
qed

lemma indexed_len:
  assumes "book_inv b" "indexed b"
  shows "length (locs b) = length (fst (abs_of b)) + length (snd (abs_of b))"
proof -
  have "length (locs b) = card (fst ` set (locs b))"
    using distinct_card [of "map fst (locs b)"] book_invD(11) [OF assms(1)] by simp
  also have "\<dots> = card (set (ids (bids b @ asks b)))" using assms(2) by (simp add: indexed_def)
  also have "\<dots> = length (ids (bids b @ asks b))"
    using assms(2) distinct_card indexed_def by blast
  finally show ?thesis
    using mset_flat_rev [of "bids b"] by (simp add: abs_of_def size_mset [symmetric] del: size_mset)
qed

section \<open>Properties\<close>

text \<open>
  C1. Memory safety of the order book: whatever sequence of \<open>add_order\<close> and \<open>cancel\<close> calls is made
  on a fresh book, with whatever identifiers (reused ones included), no \<open>cancel\<close> ever dereferences
  an absent level or erases through a dangling list iterator, and the representation invariant
  holds afterwards.
\<close>
theorem book_memory_safe:
  "\<exists>b fs. run_ops add_order cancel ops empty_book [] = Some (b, fs) \<and> book_inv b"
  by (rule ob.run_safe [OF ob.inv_empty])

text \<open>
  C2. Functional correctness of the order book: when the submitted identifiers are distinct, every
  sequence of calls produces exactly the fills, in order, and leaves exactly the resting orders
  of the abstract price-time priority book.
\<close>
theorem book_refines_spec:
  assumes "distinct (submitted ops)"
  shows "\<exists>b fs. run_ops add_order cancel ops empty_book [] = Some (b, fs) \<and>
           run_spec ops ([], []) [] = (abs_of b, fs)"
  using ob.run_refines [OF ob.inv_empty ob.exact_empty assms, of "[]"]
  by (auto simp: ob.abs_empty quote_ids_def)

definition demo_ops :: "book_op list" where
  "demo_ops =
     [AddOrder \<lparr>o_id = 1, o_side = Sell, o_price = 101, o_qty = 5, o_type = Limit\<rparr>,
      AddOrder \<lparr>o_id = 2, o_side = Sell, o_price = 100, o_qty = 4, o_type = Limit\<rparr>,
      AddOrder \<lparr>o_id = 3, o_side = Buy, o_price = 101, o_qty = 6, o_type = Limit\<rparr>,
      AddOrder \<lparr>o_id = 4, o_side = Buy, o_price = 99, o_qty = 7, o_type = Limit\<rparr>,
      CancelOrder 1]"

theorem book_refines_spec_witness:
  "distinct (submitted demo_ops) \<and>
   (\<exists>b fs. run_ops add_order cancel demo_ops empty_book [] = Some (b, fs) \<and>
      run_spec demo_ops ([], []) [] = (abs_of b, fs))"
proof -
  have "distinct (submitted demo_ops)" by (simp add: demo_ops_def)
  with book_refines_spec [OF this] show ?thesis by blast
qed

text \<open>
  C3. The book is never crossed, and the observers report its best prices: after any sequence of
  calls the best bid and best ask are the extreme prices of their sides, the bid is below the
  ask, and \<open>spread\<close> is their exact difference without wrap-around.
\<close>
theorem book_never_crossed:
  assumes "run_ops add_order cancel ops empty_book [] = Some (b, fs)"
    and "best_bid b = Some bb" and "best_ask b = Some ba"
  shows "bb < ba \<and> spread b = Some (ba - bb) \<and> unat (ba - bb) = unat ba - unat bb \<and>
         bb \<in> fst ` set (bids b) \<and> (\<forall>p \<in> fst ` set (bids b). p \<le> bb) \<and>
         ba \<in> fst ` set (asks b) \<and> (\<forall>p \<in> fst ` set (asks b). ba \<le> p)"
proof -
  note inv = ob.run_inv [OF assms(1)]
  note A = best_ask_least [OF inv assms(3)] and B = best_bid_greatest [OF inv assms(2)]
  have "bb < ba" using book_invD(13) [OF inv] A(1) B(1) by (auto simp: uncrossed_def)
  then show ?thesis
    using A B by (simp add: spread_def assms(2,3) unat_sub order_less_imp_le)
qed

theorem book_never_crossed_witness:
  "\<exists>b fs. run_ops add_order cancel (take 2 demo_ops @
      [AddOrder \<lparr>o_id = 4, o_side = Buy, o_price = 99, o_qty = 7, o_type = Limit\<rparr>]) empty_book [] = Some (b, fs) \<and>
     best_bid b = Some 99 \<and> best_ask b = Some 100 \<and> spread b = Some 1"
proof -
  let ?ops = "take 2 demo_ops @
      [AddOrder \<lparr>o_id = 4, o_side = Buy, o_price = 99, o_qty = 7, o_type = Limit\<rparr>]"
  obtain b fs where r: "run_ops add_order cancel ?ops empty_book [] = Some (b, fs)"
    using ob.run_safe [OF ob.inv_empty] by blast
  have "map_option (\<lambda>(b, fs). (best_bid b, best_ask b)) (run_ops add_order cancel ?ops empty_book [])
      = Some (Some 99, Some 100)" by code_simp
  with r have "best_bid b = Some 99" "best_ask b = Some 100" by simp_all
  with book_never_crossed [OF r this] r show ?thesis by auto
qed

text \<open>
  C4. No quantity is created or lost by matching: at any reachable book, the filled quantity comes
  out of the opposite side exactly, and for a limit order fills plus what is added to its own
  side make up the submitted quantity.
\<close>
theorem matching_conserves_quantity:
  assumes "run_ops add_order cancel ops empty_book [] = Some (b, fs0)"
    and "add_order ord [] b = (b', fs)"
  shows "sum_list (map (unat \<circ> f_qty) fs) + volume (opposite_side ord (abs_of b')) =
           volume (opposite_side ord (abs_of b)) \<and>
         sum_list (map (unat \<circ> f_qty) fs) \<le> unat (o_qty ord) \<and>
         (o_type ord = Limit \<longrightarrow>
            volume (own_side ord (abs_of b')) =
              volume (own_side ord (abs_of b)) + (unat (o_qty ord) - sum_list (map (unat \<circ> f_qty) fs))) \<and>
         (o_type ord = Market \<longrightarrow> own_side ord (abs_of b') = own_side ord (abs_of b))"
proof -
  note inv = ob.run_inv [OF assms(1)]
  obtain r rest ts where
    t: "trade (acceptable ord) (o_qty ord) (opposite_side ord (abs_of b)) = (r, rest, ts)"
    "fs = map (mk_fill ord) ts"
    "o_type ord = Market \<Longrightarrow> own_side ord (abs_of b') = own_side ord (abs_of b)"
    by (rule ob.add_trades [OF inv assms(2)]) auto
  have "map (unat \<circ> f_qty) fs = map (\<lambda>(p, i, q). unat q) ts" by (auto simp: t(2) mk_fill_def)
  with trade_conserves [OF t(1)] have "sum_list (map (unat \<circ> f_qty) fs) \<le> unat (o_qty ord)" by simp
  with ob.add_conserves(2,3) [OF inv assms(2)] t(3) show ?thesis by auto
qed

definition demo_book :: order_book where
  "demo_book = (case run_ops add_order cancel (take 2 demo_ops) empty_book [] of
     None \<Rightarrow> empty_book | Some (b, fs) \<Rightarrow> b)"

definition demo_taker :: order where
  "demo_taker = \<lparr>o_id = 3, o_side = Buy, o_price = 101, o_qty = 6, o_type = Limit\<rparr>"

lemma demo_book_run: "run_ops add_order cancel (take 2 demo_ops) empty_book [] = Some (demo_book, [])"
proof -
  have "map_option snd (run_ops add_order cancel (take 2 demo_ops) empty_book []) = Some []"
    by code_simp
  then show ?thesis by (auto simp: demo_book_def)
qed

lemma demo_fills:
  "snd (add_order demo_taker [] demo_book) =
     [\<lparr>maker_id = 2, taker_id = 3, f_price = 100, f_qty = 4, f_side = Buy\<rparr>,
      \<lparr>maker_id = 1, taker_id = 3, f_price = 101, f_qty = 2, f_side = Buy\<rparr>]"
  by code_simp

theorem matching_conserves_quantity_witness:
  "\<exists>b' fs. add_order demo_taker [] demo_book = (b', fs) \<and> length fs = 2 \<and>
     sum_list (map (unat \<circ> f_qty) fs) + volume (opposite_side demo_taker (abs_of b')) =
       volume (opposite_side demo_taker (abs_of demo_book))"
proof -
  obtain b' fs where a: "add_order demo_taker [] demo_book = (b', fs)" by (metis surj_pair)
  from matching_conserves_quantity [OF demo_book_run a] demo_fills a show ?thesis by auto
qed

text \<open>
  C5. Price-time priority: the makers that trade are, in order, exactly the first ones of the
  opposite side's priority order (best price first, and within a price the oldest first); every
  fill is at the maker's price, which the taker's limit accepts, and has a positive quantity.
\<close>
theorem matching_price_time_priority:
  assumes "run_ops add_order cancel ops empty_book [] = Some (b, fs0)"
    and "add_order ord [] b = (b', fs)"
  shows "map (\<lambda>f. (f_price f, maker_id f)) fs =
           take (length fs) (map key (opposite_side ord (abs_of b))) \<and>
         sorted_wrt (case o_side ord of Buy \<Rightarrow> (\<le>) | Sell \<Rightarrow> (\<ge>)) (map f_price fs) \<and>
         (\<forall>f \<in> set fs. acceptable ord (f_price f) \<and> f_qty f \<noteq> 0 \<and> taker_id f = o_id ord)"
proof -
  note inv = ob.run_inv [OF assms(1)]
  note p = ob.add_priority [OF inv assms(2)]
  have "map f_price fs = map fst (map (\<lambda>f. (f_price f, maker_id f)) fs)" by simp
  also have "\<dots> = take (length fs) (map fst (opposite_side ord (abs_of b)))"
    unfolding p(1) by (simp add: take_map key_def)
  finally have "sorted_wrt (case o_side ord of Buy \<Rightarrow> (\<le>) | Sell \<Rightarrow> (\<ge>)) (map f_price fs)"
    using ob.inv_abs [OF inv]
    by (cases "o_side ord") (simp_all add: abs_wf_def opposite_side_def sorted_wrt_take)
  with p show ?thesis by blast
qed

theorem matching_price_time_priority_witness:
  "\<exists>b' fs. add_order demo_taker [] demo_book = (b', fs) \<and>
     map (\<lambda>f. (f_price f, maker_id f)) fs = [(100, 2), (101, 1)] \<and>
     map (\<lambda>f. (f_price f, maker_id f)) fs =
       take (length fs) (map key (opposite_side demo_taker (abs_of demo_book)))"
proof -
  obtain b' fs where a: "add_order demo_taker [] demo_book = (b', fs)" by (metis surj_pair)
  from matching_price_time_priority [OF demo_book_run a] demo_fills a show ?thesis by auto
qed

text \<open>
  C6. The counting observers: with distinct submitted identifiers, \<open>len\<close> is the number of resting
  orders (modulo the width of \<open>size_t\<close>), \<open>is_empty\<close> holds exactly when nothing rests, and \<open>depth_at\<close>
  is the 64-bit sum of the quantities resting at that price on that side.
\<close>
theorem book_observers_exact:
  assumes "distinct (submitted ops)" and "run_ops add_order cancel ops empty_book [] = Some (b, fs)"
  shows "book_len b = of_nat (length (fst (abs_of b)) + length (snd (abs_of b))) \<and>
         is_empty b = (abs_of b = ([], [])) \<and>
         depth_at s p b = of_nat (volume (filter (\<lambda>x. fst x = p)
           (case s of Buy \<Rightarrow> fst (abs_of b) | Sell \<Rightarrow> snd (abs_of b))))"
proof -
  from ob.run_refines [OF ob.inv_empty ob.exact_empty assms(1), of "[]"] assms(2)
  have inv: "book_inv b" and idx: "indexed b" by (auto simp: ob.abs_empty quote_ids_def)
  have d: "distinct (map fst (side_levels s b))"
    using less_keys.sorted_distinct book_invD(1,2) [OF inv] by (cases s) auto
  have v: "volume (filter (\<lambda>x. fst x = p) (quotes ls)) =
      sum_list (map (\<lambda>e. unat (r_qty (snd e))) (filter (\<lambda>e. fst e = p) (flat ls)))" for ls
    by (simp add: filter_map comp_def quote_of_def case_prod_unfold)
  have "sum_list (map f (filter P (flat (rev ls)))) = sum_list (map f (filter P (flat ls)))"
    for f :: "u64 \<times> resting_order \<Rightarrow> nat" and P ls
    by (metis mset_filter mset_flat_rev mset_map sum_mset_sum_list)
  with depth_at_sum [OF d] v have "depth_at s p b = of_nat (volume (filter (\<lambda>x. fst x = p)
      (case s of Buy \<Rightarrow> fst (abs_of b) | Sell \<Rightarrow> snd (abs_of b))))"
    by (cases s) (simp_all add: abs_of_def)
  moreover note indexed_len [OF inv idx]
  moreover have "is_empty b = (length (locs b) = 0)" by (simp add: is_empty_def)
  ultimately show ?thesis by (cases "abs_of b") (auto simp: book_len_def)
qed

theorem book_observers_exact_witness:
  "distinct (submitted (take 2 demo_ops)) \<and>
   depth_at Sell 100 demo_book = of_nat (volume (filter (\<lambda>x. fst x = 100) (snd (abs_of demo_book))))"
proof -
  have "distinct (submitted (take 2 demo_ops))" by (simp add: demo_ops_def)
  with book_observers_exact [OF this demo_book_run, of Sell 100] show ?thesis by simp
qed

text \<open>
  C7. The two order books of the repository are interchangeable: on every sequence of calls they
  both succeed with the same fills, and every observer returns the same afterwards.
\<close>
theorem matching_engine_equivalent:
  "\<exists>e b fs. run_ops me_add_order me_cancel ops empty_engine [] = Some (e, fs) \<and>
     run_ops add_order cancel ops empty_book [] = Some (b, fs) \<and>
     me_best_bid e = best_bid b \<and> me_best_ask e = best_ask b \<and> me_spread e = spread b \<and>
     me_len e = book_len b \<and> me_is_empty e = is_empty b \<and>
     (\<forall>s p. me_depth_at s p e = depth_at s p b)"
proof -
  obtain e fs where r: "run_ops me_add_order me_cancel ops empty_engine [] = Some (e, fs)"
    and inv: "book_inv (engine_view e)"
    using me.run_safe [OF me.inv_empty, of ops "[]"] by blast
  have "run_ops add_order cancel ops empty_book [] = Some (engine_view e, fs)"
    using engine_run_ops [OF me.inv_empty, of ops "[]"] r by (simp add: engine_view_empty)
  with r show ?thesis
    using engine_observers [of e] engine_depth_at [OF inv] by blast
qed

text \<open>
  Reusing the identifier of a resting order breaks the documented meaning of the observers:
  after two buys with identifier 1 the book reports one resting order while two rest, and after
  \<open>cancel(1)\<close> it reports itself empty while it still has a best bid, which no \<open>cancel\<close> can remove.
\<close>
theorem duplicate_id_breaks_len:
  "let buy = (\<lambda>p. AddOrder \<lparr>o_id = 1, o_side = Buy, o_price = p, o_qty = 5, o_type = Limit\<rparr>) in
   map_option (\<lambda>(b, fs). (book_len b, depth_at Buy 10 b, depth_at Buy 11 b))
     (run_ops add_order cancel [buy 10, buy 11] empty_book []) = Some (1, 5, 5) \<and>
   map_option (\<lambda>(b, fs). (is_empty b, best_bid b, map_option snd (cancel 1 b)))
     (run_ops add_order cancel [buy 10, buy 11, CancelOrder 1] empty_book []) =
       Some (True, Some 10, Some False)"
  by code_simp

end
