(* ===== verification/Doubles.thy ===== *)
theory Doubles
  imports Prelude "HOL-Library.Log_Nat"
begin

text \<open>
  The C++ type \<open>double\<close>: IEEE-754 binary64 with rounding to nearest, ties to even. A finite
  double is a sign and a rational magnitude; every arithmetic operation computes the exact
  rational result and rounds it once. There is one NaN: the payload of a NaN is not observable by
  any code of the repository except as bytes on the wire.

  All definitions compute. The lemmas are the ones the clients need: rounding is monotone, exact
  on representable values, and representable values are closed under it.
\<close>

section \<open>Binary exponent and rounding of positive rationals\<close>

abbreviation pw :: "int \<Rightarrow> rat" where
  "pw e \<equiv> 2 powi e"

definition mag_exp :: "rat \<Rightarrow> int" where
  "mag_exp x =
     (let (n, d) = quotient_of x; k = bitlen n - bitlen d
      in if pw k \<le> x then k else k - 1)"

definition round_half_even :: "rat \<Rightarrow> int" where
  "round_half_even x =
     (let f = \<lfloor>x\<rfloor>; r = x - of_int f
      in if r < 1 / 2 \<or> (r = 1 / 2 \<and> even f) then f else f + 1)"

definition ulp_exp :: "rat \<Rightarrow> int" where
  "ulp_exp x = max (mag_exp x - 52) (- 1074)"

definition rnd :: "rat \<Rightarrow> rat" where
  "rnd x = (if x = 0 then 0 else of_int (round_half_even (x / pw (ulp_exp x))) * pw (ulp_exp x))"

definition representable :: "rat \<Rightarrow> bool" where
  "representable x = (\<exists>m e. x = of_int m * pw e \<and> 0 \<le> m \<and> m < 2 ^ 53 \<and> - 1074 \<le> e)"

lemma bitlen_bracket:
  assumes "0 < n"
  shows "pw (bitlen n - 1) \<le> of_int n" "of_int n < pw (bitlen n)"
proof -
  have b: "1 \<le> bitlen n" using assms by (simp add: bitlen_def floorlog_def)
  have c: "2 ^ nat (bitlen n - 1) \<le> n \<and> n < 2 ^ nat (bitlen n)"
    by (rule bitlen_bounds [OF assms])
  have p: "pw k = of_int (2 ^ nat k)" if "0 \<le> k" for k using that by (simp add: power_int_def)
  show "pw (bitlen n - 1) \<le> of_int n"
    using c b by (simp only: p [of "bitlen n - 1"] of_int_le_iff)
  show "of_int n < pw (bitlen n)"
    using c b by (simp only: p [of "bitlen n"] of_int_less_iff)
qed

lemma mag_exp_bounds:
  assumes "0 < x"
  shows "pw (mag_exp x) \<le> x" "x < pw (mag_exp x + 1)"
proof -
  obtain n d where q: "quotient_of x = (n, d)" by (cases "quotient_of x")
  have d: "0 < d" using quotient_of_denom_pos [OF q] .
  have x: "x = of_int n / of_int d" using quotient_of_div [OF q] .
  with assms d have n: "0 < n" by (simp add: zero_less_divide_iff)
  note N = bitlen_bracket [OF n] and D = bitlen_bracket [OF d]
  let ?k = "bitlen n - bitlen d"
  have "pw (?k - 1) = pw (bitlen n - 1) / pw (bitlen d)"
    by (simp add: power_int_diff)
  also have "\<dots> \<le> x"
    unfolding x by (rule frac_le) (use N D d n in auto)
  finally have lo: "pw (?k - 1) \<le> x" .
  have "x < pw (bitlen n) / pw (bitlen d - 1)"
    unfolding x by (rule frac_less) (use N D d n in auto)
  also have "\<dots> = pw (?k + 1)" by (simp add: power_int_diff power_int_add)
  finally have hi: "x < pw (?k + 1)" .
  from lo hi show "pw (mag_exp x) \<le> x" "x < pw (mag_exp x + 1)"
    by (auto simp: mag_exp_def q Let_def)
qed

lemma pw_less_iff [simp]: "(pw a < pw b) = (a < b)"
  by (meson not_less one_less_numeral_iff power_int_increasing power_int_strict_increasing
      order_less_imp_le semiring_norm(76))

lemma pw_le_iff [simp]: "(pw a \<le> pw b) = (a \<le> b)"
  by (meson not_less pw_less_iff)

lemma pw_pos [simp]: "0 < pw e"
  by simp

lemma mag_exp_less:
  assumes "0 < x" "x < pw k"
  shows "mag_exp x < k"
proof -
  have "pw (mag_exp x) < pw k" using mag_exp_bounds(1) [OF assms(1)] assms(2) by linarith
  then show ?thesis by simp
qed

lemma mag_exp_ge:
  assumes "pw k \<le> x"
  shows "k \<le> mag_exp x"
proof -
  have "0 < x" using assms pw_pos [of k] by linarith
  then have "pw k < pw (mag_exp x + 1)" using mag_exp_bounds(2) [of x] assms by linarith
  then show ?thesis by (simp only: pw_less_iff)
qed

lemma mag_exp_mono: "0 < x \<Longrightarrow> x \<le> y \<Longrightarrow> mag_exp x \<le> mag_exp y"
  using mag_exp_bounds(1) [of x] by (intro mag_exp_ge) linarith

lemma mag_exp_eq:
  assumes "pw k \<le> x" "x < pw (k + 1)"
  shows "mag_exp x = k"
proof -
  have "0 < x" using assms(1) pw_pos [of k] by linarith
  from mag_exp_less [OF this assms(2)] mag_exp_ge [OF assms(1)] show ?thesis by simp
qed

lemma rhe_of_int [simp]: "round_half_even (of_int k) = k"
  by (simp add: round_half_even_def)

lemma rhe_mono:
  assumes "x \<le> y"
  shows "round_half_even x \<le> round_half_even y"
proof (cases "\<lfloor>x\<rfloor> = \<lfloor>y\<rfloor>")
  case True
  with assms show ?thesis by (auto simp: round_half_even_def Let_def)
next
  case False
  with floor_mono [OF assms] have "\<lfloor>x\<rfloor> + 1 \<le> \<lfloor>y\<rfloor>" by linarith
  then show ?thesis by (auto simp: round_half_even_def Let_def)
qed

lemma rhe_bound: "x \<le> of_int k \<Longrightarrow> round_half_even x \<le> k" "of_int k \<le> x \<Longrightarrow> k \<le> round_half_even x"
  using rhe_mono [of x "of_int k"] rhe_mono [of "of_int k" x] by simp_all

lemma rnd_0 [simp]: "rnd 0 = 0"
  by (simp add: rnd_def)

lemma scaled_bounds:
  assumes "0 < x"
  shows "x / pw (ulp_exp x) < 2 ^ 53"
proof -
  have "x < pw (ulp_exp x + 53)"
  proof -
    have "pw (mag_exp x + 1) \<le> pw (ulp_exp x + 53)" by (simp only: pw_le_iff) (simp add: ulp_exp_def)
    with mag_exp_bounds(2) [OF assms] show ?thesis by linarith
  qed
  then show ?thesis by (simp add: power_int_add field_simps)
qed

lemma rnd_exact:
  assumes "representable x"
  shows "rnd x = x"
proof (cases "x = 0")
  case False
  from assms obtain m e where x: "x = of_int m * pw e" and m: "0 \<le> m" "m < 2 ^ 53" and e: "- 1074 \<le> e"
    by (auto simp: representable_def)
  with False have "0 < m" by (cases "m = 0") auto
  then have pos: "0 < x" by (simp add: x)
  have "of_int m < (of_int (2 ^ 53) :: rat)" using m(2) by (simp only: of_int_less_iff)
  then have "x < pw (53 + e)" by (simp add: x power_int_add)
  from mag_exp_less [OF pos this] e have le: "ulp_exp x \<le> e" by (simp add: ulp_exp_def)
  have "x / pw (ulp_exp x) = of_int (m * 2 ^ nat (e - ulp_exp x))"
  proof -
    have p: "pw (e - ulp_exp x) = 2 ^ nat (e - ulp_exp x)" using le by (simp add: power_int_def)
    have "x / pw (ulp_exp x) = of_int m * pw (e - ulp_exp x)"
      by (subst x) (simp add: power_int_diff)
    then show ?thesis by (simp add: p)
  qed
  then have "of_int (round_half_even (x / pw (ulp_exp x))) = x / pw (ulp_exp x)" by (simp only: rhe_of_int)
  with False show ?thesis by (simp add: rnd_def)
qed simp

lemma rnd_nonneg: "0 \<le> x \<Longrightarrow> 0 \<le> rnd x"
  using rhe_bound(2) [of 0 "x / pw (ulp_exp x)"] by (simp add: rnd_def)

lemma rnd_mono:
  assumes "0 \<le> x" "x \<le> y"
  shows "rnd x \<le> rnd y"
proof (cases "x = 0")
  case True
  with assms rnd_nonneg show ?thesis by simp
next
  case False
  with assms have x: "0 < x" and y: "0 < y" by auto
  have le: "ulp_exp x \<le> ulp_exp y" using mag_exp_mono [OF x assms(2)] by (simp add: ulp_exp_def)
  show ?thesis
  proof (cases "ulp_exp x = ulp_exp y")
    case True
    have "x / pw (ulp_exp y) \<le> y / pw (ulp_exp y)" using assms(2) by (simp add: divide_right_mono)
    from rhe_mono [OF this] True x y show ?thesis by (simp add: rnd_def)
  next
    case False
    with le have less: "ulp_exp x + 1 \<le> ulp_exp y" by linarith
    then have "ulp_exp y = mag_exp y - 52" by (auto simp: ulp_exp_def)
    with mag_exp_bounds(1) [OF y] have "pw (52 + ulp_exp y) \<le> y" by simp
    then have "of_int (2 ^ 52) \<le> y / pw (ulp_exp y)" by (simp add: power_int_add field_simps)
    from rhe_bound(2) [OF this] have "of_int (2 ^ 52) \<le> (of_int (round_half_even (y / pw (ulp_exp y))) :: rat)"
      by (simp only: of_int_le_iff)
    then have hi: "2 ^ 52 * pw (ulp_exp y) \<le> rnd y" using y by (simp add: rnd_def)
    have "x / pw (ulp_exp x) \<le> of_int (2 ^ 53)" using scaled_bounds [OF x] by simp
    from rhe_bound(1) [OF this] have "of_int (round_half_even (x / pw (ulp_exp x))) \<le> (of_int (2 ^ 53) :: rat)"
      by (simp only: of_int_le_iff)
    then have lo: "rnd x \<le> 2 ^ 53 * pw (ulp_exp x)" using x by (simp add: rnd_def)
    have "2 ^ 53 * pw (ulp_exp x) = 2 ^ 52 * pw (ulp_exp x + 1)" by (simp add: power_int_add)
    also have "\<dots> \<le> 2 ^ 52 * pw (ulp_exp y)" using less by (simp del: power_int_add_1 power_int_add_1')
    finally show ?thesis using lo hi by linarith
  qed
qed

lemma representableI:
  "x = of_int m * pw e \<Longrightarrow> 0 \<le> m \<Longrightarrow> m < 2 ^ 53 \<Longrightarrow> - 1074 \<le> e \<Longrightarrow> representable x"
  unfolding representable_def by blast

lemma representable_0 [simp]: "representable 0"
  by (rule representableI [of _ 0 0]) simp_all

lemma representable_rnd: "0 \<le> x \<Longrightarrow> representable (rnd x)"
proof (cases "x = 0")
  case False
  assume "0 \<le> x"
  with False have x: "0 < x" by simp
  let ?m = "round_half_even (x / pw (ulp_exp x))"
  have "x / pw (ulp_exp x) \<le> of_int (2 ^ 53)" using scaled_bounds [OF x] by simp
  from rhe_bound(1) [OF this] have m: "?m \<le> 2 ^ 53" .
  have m0: "0 \<le> ?m" using rhe_bound(2) [of 0 "x / pw (ulp_exp x)"] x by simp
  have e: "- 1074 \<le> ulp_exp x" by (simp add: ulp_exp_def)
  show ?thesis
  proof (cases "?m = 2 ^ 53")
    case True
    then have "rnd x = of_int (2 ^ 52) * pw (ulp_exp x + 1)"
      using x by (simp add: rnd_def power_int_add)
    then show ?thesis by (rule representableI) (use e in simp_all)
  next
    case False
    have "rnd x = of_int ?m * pw (ulp_exp x)" using x by (simp add: rnd_def)
    then show ?thesis by (rule representableI) (use m m0 e False in simp_all)
  qed
qed simp

lemma representable_int: "0 \<le> n \<Longrightarrow> n \<le> 2 ^ 53 \<Longrightarrow> representable (of_int n)"
proof (cases "n = 2 ^ 53")
  case True
  then show ?thesis by (intro representableI [of _ "2 ^ 52" 1]) simp_all
next
  case False
  assume "0 \<le> n" "n \<le> 2 ^ 53"
  with False show ?thesis by (intro representableI [of _ n 0]) simp_all
qed

section \<open>The type and its operations\<close>

datatype double = NaN | Inf bool | Fin bool rat

definition max_finite_bound :: rat where
  "max_finite_bound = pw 1024"

text \<open>The double nearest to the number of sign \<open>s\<close> and magnitude \<open>x\<close>.\<close>

definition mk_double :: "bool \<Rightarrow> rat \<Rightarrow> double" where
  "mk_double s x =
     (let y = rnd x in if y \<noteq> 0 \<and> 1024 \<le> mag_exp y then Inf s else Fin s y)"

fun wf_double :: "double \<Rightarrow> bool" where
  "wf_double (Fin s x) = (0 \<le> x \<and> representable x \<and> x < max_finite_bound)"
| "wf_double _ = True"

fun val :: "double \<Rightarrow> rat" where
  "val (Fin s x) = (if s then - x else x)"
| "val _ = 0"

fun is_finite :: "double \<Rightarrow> bool" where
  "is_finite (Fin s x) = True"
| "is_finite _ = False"

definition of_rat_double :: "bool \<Rightarrow> rat \<Rightarrow> double" where
  "of_rat_double zs v = (if v = 0 then Fin zs 0 else mk_double (v < 0) \<bar>v\<bar>)"

fun fneg :: "double \<Rightarrow> double" where
  "fneg NaN = NaN"
| "fneg (Inf s) = Inf (\<not> s)"
| "fneg (Fin s x) = Fin (\<not> s) x"

fun fadd :: "double \<Rightarrow> double \<Rightarrow> double" where
  "fadd (Fin s x) (Fin t y) = of_rat_double (s \<and> t) (val (Fin s x) + val (Fin t y))"
| "fadd (Inf s) (Inf t) = (if s = t then Inf s else NaN)"
| "fadd (Inf s) (Fin t y) = Inf s"
| "fadd (Fin s x) (Inf t) = Inf t"
| "fadd _ _ = NaN"

definition fsub :: "double \<Rightarrow> double \<Rightarrow> double" where
  "fsub a b = fadd a (fneg b)"

fun fmul :: "double \<Rightarrow> double \<Rightarrow> double" where
  "fmul (Fin s x) (Fin t y) = mk_double (s \<noteq> t) (x * y)"
| "fmul (Inf s) (Inf t) = Inf (s \<noteq> t)"
| "fmul (Inf s) (Fin t y) = (if y = 0 then NaN else Inf (s \<noteq> t))"
| "fmul (Fin s x) (Inf t) = (if x = 0 then NaN else Inf (s \<noteq> t))"
| "fmul _ _ = NaN"

fun fdiv :: "double \<Rightarrow> double \<Rightarrow> double" where
  "fdiv (Fin s x) (Fin t y) =
     (if y = 0 then (if x = 0 then NaN else Inf (s \<noteq> t)) else mk_double (s \<noteq> t) (x / y))"
| "fdiv (Inf s) (Fin t y) = Inf (s \<noteq> t)"
| "fdiv (Fin s x) (Inf t) = Fin (s \<noteq> t) 0"
| "fdiv _ _ = NaN"

fun flt :: "double \<Rightarrow> double \<Rightarrow> bool" where
  "flt (Fin s x) (Fin t y) = (val (Fin s x) < val (Fin t y))"
| "flt (Inf s) (Inf t) = (s \<and> \<not> t)"
| "flt (Inf s) (Fin t y) = s"
| "flt (Fin s x) (Inf t) = (\<not> t)"
| "flt _ _ = False"

fun fle :: "double \<Rightarrow> double \<Rightarrow> bool" where
  "fle (Fin s x) (Fin t y) = (val (Fin s x) \<le> val (Fin t y))"
| "fle (Inf s) (Inf t) = (s \<or> \<not> t)"
| "fle (Inf s) (Fin t y) = s"
| "fle (Fin s x) (Inf t) = (\<not> t)"
| "fle _ _ = False"

abbreviation fgt :: "double \<Rightarrow> double \<Rightarrow> bool" where
  "fgt a b \<equiv> flt b a"

abbreviation fge :: "double \<Rightarrow> double \<Rightarrow> bool" where
  "fge a b \<equiv> fle b a"

fun fabs :: "double \<Rightarrow> double" where
  "fabs NaN = NaN"
| "fabs (Inf s) = Inf False"
| "fabs (Fin s x) = Fin False x"

definition dbl_of_int :: "int \<Rightarrow> double" where
  "dbl_of_int n = of_rat_double False (of_int n)"

abbreviation dbl_of_u32 :: "u32 \<Rightarrow> double" where
  "dbl_of_u32 w \<equiv> dbl_of_int (uint w)"

abbreviation dbl_of_u64 :: "u64 \<Rightarrow> double" where
  "dbl_of_u64 w \<equiv> dbl_of_int (uint w)"

abbreviation dbl_of_i32 :: "i32 \<Rightarrow> double" where
  "dbl_of_i32 w \<equiv> dbl_of_int (sint w)"

text \<open>\<open>static_cast<uint64_t>\<close>: truncation, undefined (\<open>None\<close>) when the result does not fit.\<close>

fun dbl_to_u64 :: "double \<Rightarrow> u64 option" where
  "dbl_to_u64 (Fin s x) =
     (let n = \<lfloor>x\<rfloor>
      in if s \<and> n \<noteq> 0 then None else if 2 ^ 64 \<le> n then None else Some (of_int n))"
| "dbl_to_u64 _ = None"

section \<open>Results are doubles, exact where representable\<close>

lemma mag_exp_bound:
  assumes "0 < x"
  shows "(mag_exp x < k) = (x < pw k)"
  using mag_exp_less [OF assms, of k] mag_exp_ge [of k x] by (meson not_less)

lemma mk_double_alt:
  assumes "0 \<le> x"
  shows "mk_double s x = (if max_finite_bound \<le> rnd x then Inf s else Fin s (rnd x))"
proof (cases "rnd x = 0")
  case False
  with rnd_nonneg [OF assms] have "0 < rnd x" by linarith
  from mag_exp_bound [OF this, of 1024] False show ?thesis
    by (auto simp: mk_double_def Let_def max_finite_bound_def)
qed (simp add: mk_double_def max_finite_bound_def)

lemma wf_mk_double [simp]: "0 \<le> x \<Longrightarrow> wf_double (mk_double s x)"
  by (simp add: mk_double_alt rnd_nonneg representable_rnd)

lemma max_finite_bound_pos [simp]: "0 < max_finite_bound"
  by (simp add: max_finite_bound_def)

lemma wf_of_rat_double [simp]: "wf_double (of_rat_double zs v)"
  by (simp add: of_rat_double_def)

lemma wf_fneg [simp]: "wf_double (fneg a) = wf_double a"
  by (cases a) auto

lemma wf_fadd [simp]: "wf_double (fadd a b)"
  by (cases "(a, b)" rule: fadd.cases) auto

lemma wf_fsub [simp]: "wf_double (fsub a b)"
  by (simp add: fsub_def)

lemma wf_fmul [simp]: "wf_double a \<Longrightarrow> wf_double b \<Longrightarrow> wf_double (fmul a b)"
  by (cases "(a, b)" rule: fmul.cases) auto

lemma wf_fdiv [simp]: "wf_double a \<Longrightarrow> wf_double b \<Longrightarrow> wf_double (fdiv a b)"
  by (cases "(a, b)" rule: fdiv.cases) auto

lemma wf_dbl_of_int [simp]: "wf_double (dbl_of_int n)"
  by (simp add: dbl_of_int_def)

lemma wf_fabs [simp]: "wf_double a \<Longrightarrow> wf_double (fabs a)"
  by (cases a) auto

text \<open>Rounding of signed values: odd, monotone, the identity on representable values.\<close>

definition srnd :: "rat \<Rightarrow> rat" where
  "srnd v = (if v < 0 then - rnd (- v) else rnd v)"

lemma srnd_mono:
  assumes "v \<le> w"
  shows "srnd v \<le> srnd w"
proof -
  consider "v < 0" "w < 0" | "v < 0" "0 \<le> w" | "0 \<le> v" "0 \<le> w" using assms by linarith
  then show ?thesis
  proof cases
    case 1
    with assms show ?thesis by (simp add: srnd_def rnd_mono)
  next
    case 2
    then have "0 \<le> rnd (- v)" "0 \<le> rnd w" by (simp_all add: rnd_nonneg)
    with 2 show ?thesis by (simp add: srnd_def)
  next
    case 3
    with assms show ?thesis by (simp add: srnd_def rnd_mono)
  qed
qed

lemma srnd_exact: "representable \<bar>v\<bar> \<Longrightarrow> srnd v = v"
  using rnd_exact [of "\<bar>v\<bar>"] by (auto simp: srnd_def abs_if split: if_splits)

lemma srnd_0 [simp]: "srnd 0 = 0"
  by (simp add: srnd_def)

lemma mk_double_finite: "is_finite (mk_double s x) \<Longrightarrow> mk_double s x = Fin s (rnd x)"
  by (auto simp: mk_double_def Let_def split: if_splits)

lemma val_of_rat_double: "is_finite (of_rat_double zs v) \<Longrightarrow> val (of_rat_double zs v) = srnd v"
  by (auto simp: of_rat_double_def srnd_def dest: mk_double_finite split: if_splits)

lemma wf_val: "wf_double a \<Longrightarrow> representable \<bar>val a\<bar>"
  by (cases a) auto

lemma is_finite_fadd: "is_finite (fadd a b) \<Longrightarrow> is_finite a \<and> is_finite b"
  by (cases "(a, b)" rule: fadd.cases) (auto split: if_splits)

lemma val_fadd: "is_finite (fadd a b) \<Longrightarrow> val (fadd a b) = srnd (val a + val b)"
  using is_finite_fadd [of a b]
  by (cases "(a, b)" rule: fadd.cases) (auto simp: val_of_rat_double simp del: val.simps)

lemma val_fneg [simp]: "val (fneg a) = - val a"
  by (cases a) auto

lemma is_finite_fneg [simp]: "is_finite (fneg a) = is_finite a"
  by (cases a) auto

lemma val_fsub: "is_finite (fsub a b) \<Longrightarrow> val (fsub a b) = srnd (val a - val b)"
  using val_fadd [of a "fneg b"] by (simp add: fsub_def)

lemma val_fabs [simp]: "wf_double a \<Longrightarrow> val (fabs a) = \<bar>val a\<bar>"
  by (cases a) auto

lemma val_fmul:
  assumes "wf_double a" "wf_double b" "is_finite a" "is_finite b" "is_finite (fmul a b)"
  shows "val (fmul a b) = srnd (val a * val b)"
proof -
  obtain s x t y where ab: "a = Fin s x" "b = Fin t y"
    using assms(3,4) by (cases a; cases b) auto
  with assms have xy: "0 \<le> x" "0 \<le> y" and r: "fmul a b = Fin (s \<noteq> t) (rnd (x * y))"
    using mk_double_finite [of "s \<noteq> t" "x * y"] by auto
  then have p: "0 \<le> x * y" by simp
  show ?thesis
  proof (cases "x * y = 0")
    case True
    then show ?thesis using r by (auto simp: ab)
  next
    case False
    with p have "0 < x * y" by linarith
    then show ?thesis using r by (simp add: ab srnd_def)
  qed
qed

lemma fle_val: "is_finite a \<Longrightarrow> is_finite b \<Longrightarrow> fle a b = (val a \<le> val b)"
  by (cases a; cases b) auto

lemma flt_val: "is_finite a \<Longrightarrow> is_finite b \<Longrightarrow> flt a b = (val a < val b)"
  by (cases a; cases b) auto

section \<open>Integers are exact up to \<open>2 ^ 53\<close>\<close>

definition is_int :: "double \<Rightarrow> int \<Rightarrow> bool" where
  "is_int a n = (wf_double a \<and> is_finite a \<and> val a = of_int n)"

lemma max_finite_bound_ge: "(2 ^ 53 :: rat) < max_finite_bound"
proof -
  have "(2 ^ 53 :: rat) = pw 53" by (simp add: power_int_def)
  also have "\<dots> < pw 1024" by (simp only: pw_less_iff)
  finally show ?thesis by (simp add: max_finite_bound_def)
qed

lemma mk_double_int:
  assumes "0 \<le> n" "n \<le> 2 ^ 53"
  shows "mk_double s (of_int n) = Fin s (of_int n)"
proof -
  have "(of_int n :: rat) \<le> of_int (2 ^ 53)" using assms(2) by (simp only: of_int_le_iff)
  then have "(of_int n :: rat) < max_finite_bound" using max_finite_bound_ge by simp
  moreover have "rnd (of_int n) = of_int n" by (rule rnd_exact [OF representable_int [OF assms]])
  ultimately show ?thesis using assms(1) by (simp add: mk_double_alt)
qed

lemma is_int_of_rat:
  assumes "\<bar>n\<bar> \<le> 2 ^ 53"
  shows "is_int (of_rat_double zs (of_int n)) n"
proof (cases "n = 0")
  case False
  have "(of_int n < (0 :: rat)) = (n < 0)" by simp
  with False mk_double_int [OF _ assms, of "n < 0"]
  have "of_rat_double zs (of_int n) = Fin (n < 0) \<bar>of_int n\<bar>"
    by (simp add: of_rat_double_def)
  moreover have "wf_double (of_rat_double zs (of_int n))" by simp
  ultimately show ?thesis by (auto simp: is_int_def)
qed (simp add: is_int_def of_rat_double_def)

lemma is_int_dbl_of_int: "\<bar>n\<bar> \<le> 2 ^ 53 \<Longrightarrow> is_int (dbl_of_int n) n"
  by (simp add: dbl_of_int_def is_int_of_rat)

lemma is_int_fadd:
  assumes "is_int a n" "is_int b m" "\<bar>n + m\<bar> \<le> 2 ^ 53"
  shows "is_int (fadd a b) (n + m)"
proof -
  obtain s x t y where ab: "a = Fin s x" "b = Fin t y"
    using assms(1,2) by (cases a; cases b) (auto simp: is_int_def)
  then have "fadd a b = of_rat_double (s \<and> t) (val a + val b)" by simp
  also have "val a + val b = of_int (n + m)" using assms(1,2) by (simp add: is_int_def)
  finally show ?thesis by (simp only: is_int_of_rat [OF assms(3)])
qed

lemma is_int_fneg: "is_int a n \<Longrightarrow> is_int (fneg a) (- n)"
  by (simp add: is_int_def)

lemma is_int_fsub: "is_int a n \<Longrightarrow> is_int b m \<Longrightarrow> \<bar>n - m\<bar> \<le> 2 ^ 53 \<Longrightarrow> is_int (fsub a b) (n - m)"
  using is_int_fadd [OF _ is_int_fneg, of a n b m] by (simp add: fsub_def)

lemma is_int_fmul:
  assumes "is_int a n" "is_int b m" "\<bar>n * m\<bar> \<le> 2 ^ 53"
  shows "is_int (fmul a b) (n * m)"
proof -
  obtain s x t y where ab: "a = Fin s x" "b = Fin t y"
    using assms(1,2) by (cases a; cases b) (auto simp: is_int_def)
  have x: "x = of_int \<bar>n\<bar>" and y: "y = of_int \<bar>m\<bar>"
    using assms(1,2) by (auto simp: is_int_def ab split: if_splits)
  have "x * y = of_int \<bar>n * m\<bar>" by (simp add: x y abs_mult)
  then have "fmul a b = Fin (s \<noteq> t) (of_int \<bar>n * m\<bar>)"
    using mk_double_int [OF _ assms(3), of "s \<noteq> t"] by (simp only: ab fmul.simps)
  moreover have "wf_double (fmul a b)" using assms(1,2) by (simp add: is_int_def)
  moreover have "(if s \<noteq> t then - of_int \<bar>n * m\<bar> else of_int \<bar>n * m\<bar> :: rat) = of_int (n * m)"
    using assms(1,2) by (auto simp: is_int_def ab abs_mult x y split: if_splits)
  ultimately show ?thesis by (auto simp: is_int_def split: if_splits)
qed

section \<open>Midpoints\<close>

definition half :: double where
  "half = Fin False (1 / 2)"

lemma representable_double: "representable x \<Longrightarrow> representable (2 * x)"
proof -
  assume "representable x"
  then obtain m e where "x = of_int m * pw e" "0 \<le> m" "m < 2 ^ 53" "- 1074 \<le> e"
    by (auto simp: representable_def)
  moreover from this have "2 * x = of_int m * pw (e + 1)" by (simp add: power_int_add)
  ultimately show ?thesis by (intro representableI [of _ m "e + 1"]) simp_all
qed

lemma half_wf: "wf_double half"
proof -
  have "representable (1 / 2)" by (rule representableI [of _ 1 "- 1"]) simp_all
  moreover have "(1 / 2 :: rat) < max_finite_bound" using max_finite_bound_ge by simp
  ultimately show ?thesis by (simp add: half_def)
qed

lemma midpoint_between:
  assumes wf: "wf_double a" "wf_double b" and fin: "is_finite (fadd a b)" "is_finite (fmul (fadd a b) half)"
    and le: "val a \<le> val b"
  shows "val a \<le> val (fmul (fadd a b) half) \<and> val (fmul (fadd a b) half) \<le> val b"
proof -
  have h: "val half = 1 / 2" "is_finite half" by (simp_all add: half_def)
  define s where "s = srnd (val a + val b)"
  have m: "val (fmul (fadd a b) half) = srnd (s * (1 / 2))"
    using val_fmul [OF wf_fadd half_wf fin(1) h(2) fin(2)] val_fadd [OF fin(1)] by (simp add: h s_def)
  have twice: "srnd (2 * val x) = 2 * val x" if "wf_double x" for x
    using representable_double [OF wf_val [OF that]] by (intro srnd_exact) (simp add: abs_mult)
  have "2 * val a \<le> s"
    unfolding s_def by (subst twice [OF wf(1), symmetric]) (use le in \<open>intro srnd_mono, simp\<close>)
  moreover have "s \<le> 2 * val b"
    unfolding s_def by (subst twice [OF wf(2), symmetric]) (use le in \<open>intro srnd_mono, simp\<close>)
  ultimately have "srnd (val a) \<le> srnd (s * (1 / 2))" "srnd (s * (1 / 2)) \<le> srnd (val b)"
    by (intro srnd_mono; simp)+
  then show ?thesis by (simp add: m srnd_exact [OF wf_val [OF wf(1)]] srnd_exact [OF wf_val [OF wf(2)]])
qed

section \<open>The bit pattern\<close>

text \<open>Sign bit, eleven exponent bits, fifty-two fraction bits. Every NaN pattern reads as \<open>NaN\<close>.\<close>

definition pack_bits :: "bool \<Rightarrow> int \<Rightarrow> int \<Rightarrow> u64" where
  "pack_bits s e f = of_int ((if s then 2 ^ 63 else 0) + e * 2 ^ 52 + f)"

fun bits_of_double :: "double \<Rightarrow> u64" where
  "bits_of_double NaN = pack_bits False 2047 (2 ^ 51)"
| "bits_of_double (Inf s) = pack_bits s 2047 0"
| "bits_of_double (Fin s x) =
     (if x = 0 \<or> mag_exp x < - 1022 then pack_bits s 0 \<lfloor>x / pw (- 1074)\<rfloor>
      else let e = mag_exp x
           in pack_bits s (e + 1023) (\<lfloor>x / pw (e - 52)\<rfloor> - 2 ^ 52))"

definition double_of_bits :: "u64 \<Rightarrow> double" where
  "double_of_bits w =
     (let n = uint w; s = (2 ^ 63 \<le> n); e = (n div 2 ^ 52) mod 2 ^ 11; f = n mod 2 ^ 52
      in if e = 2047 then (if f = 0 then Inf s else NaN)
         else if e = 0 then Fin s (of_int f * pw (- 1074))
         else Fin s (of_int (2 ^ 52 + f) * pw (e - 1075)))"

text \<open>Evaluation treats zero apart, which saves computing \<open>2 ^ 1074\<close>.\<close>

lemma bits_of_double_code [code]:
  "bits_of_double NaN = pack_bits False 2047 (2 ^ 51)"
  "bits_of_double (Inf s) = pack_bits s 2047 0"
  "bits_of_double (Fin s x) =
     (if x = 0 then pack_bits s 0 0
      else if mag_exp x < - 1022 then pack_bits s 0 \<lfloor>x / pw (- 1074)\<rfloor>
      else let e = mag_exp x in pack_bits s (e + 1023) (\<lfloor>x / pw (e - 52)\<rfloor> - 2 ^ 52))"
  by simp_all

lemma double_of_bits_code [code]:
  "double_of_bits w =
     (let n = uint w; s = (2 ^ 63 \<le> n); e = (n div 2 ^ 52) mod 2 ^ 11; f = n mod 2 ^ 52
      in if e = 2047 then (if f = 0 then Inf s else NaN)
         else if e = 0 then (if f = 0 then Fin s 0 else Fin s (of_int f * pw (- 1074)))
         else Fin s (of_int (2 ^ 52 + f) * pw (e - 1075)))"
  by (simp add: double_of_bits_def Let_def)

lemma unpack:
  fixes s :: bool and e f :: int
  assumes "0 \<le> e" "e < 2 ^ 11" "0 \<le> f" "f < 2 ^ 52"
  defines "n \<equiv> uint (pack_bits s e f)"
  shows "(2 ^ 63 \<le> n) = s" "(n div 2 ^ 52) mod 2 ^ 11 = e" "n mod 2 ^ 52 = f"
proof -
  have n: "n = (if s then 2 ^ 63 else 0) + e * 2 ^ 52 + f"
    unfolding n_def pack_bits_def uint_word_of_int
    by (rule mod_pos_pos_trivial) (use assms(1-4) in simp_all)
  show "(2 ^ 63 \<le> n) = s" unfolding n using assms(1-4) by auto
  have q: "(q * 2 ^ 52 + f) div 2 ^ 52 = q" "(q * 2 ^ 52 + f) mod 2 ^ 52 = f" for q
    using assms(3,4) by simp_all
  have "n = ((if s then 2 ^ 11 else 0) + e) * 2 ^ 52 + f" unfolding n by simp
  then have d: "n div 2 ^ 52 = (if s then 2 ^ 11 else 0) + e" "n mod 2 ^ 52 = f"
    by (simp_all only: q)
  show "(n div 2 ^ 52) mod 2 ^ 11 = e" unfolding d(1) using assms(1,2) by simp
  show "n mod 2 ^ 52 = f" by (rule d(2))
qed

lemma of_pack_bits:
  assumes "0 \<le> e" "e < 2 ^ 11" "0 \<le> f" "f < 2 ^ 52"
  shows "double_of_bits (pack_bits s e f) =
     (if e = 2047 then (if f = 0 then Inf s else NaN)
      else if e = 0 then Fin s (of_int f * pw (- 1074))
      else Fin s (of_int (2 ^ 52 + f) * pw (e - 1075)))"
  unfolding double_of_bits_def Let_def unpack [OF assms] ..

lemma representable_scaled:
  assumes "representable x"
  obtains k where "x = of_int k * pw (ulp_exp x)" "x / pw (ulp_exp x) = of_int k"
proof (cases "x = 0")
  case False
  then have "x = of_int (round_half_even (x / pw (ulp_exp x))) * pw (ulp_exp x)"
    using rnd_exact [OF assms] by (simp add: rnd_def)
  then have "x / pw (ulp_exp x) = of_int (round_half_even (x / pw (ulp_exp x)))"
    using pw_pos [of "ulp_exp x"] by (metis nonzero_mult_div_cancel_right order_less_irrefl)
  then show ?thesis
    using that [of "round_half_even (x / pw (ulp_exp x))"] \<open>x = of_int _ * _\<close> by blast
qed (use that [of 0] in simp)

lemma bits_roundtrip_subnormal:
  assumes "0 \<le> x" "representable x" "x < pw (- 1022)"
  shows "double_of_bits (bits_of_double (Fin s x)) = Fin s x"
proof -
  obtain k where k: "x = of_int k * pw (- 1074)" "x / pw (- 1074) = of_int k"
  proof (cases "x = 0")
    case True
    then show ?thesis using that [of 0] by simp
  next
    case False
    with assms(1,3) have "mag_exp x < - 1022" by (intro mag_exp_less) simp_all
    then have "ulp_exp x = - 1074" by (simp add: ulp_exp_def)
    with representable_scaled [OF assms(2)] that show ?thesis by metis
  qed
  have k0: "0 \<le> k" using k(1) assms(1) by (simp add: zero_le_mult_iff)
  have "pw (- 1022) = of_int (2 ^ 52) * pw (- 1074)"
    using power_int_add [of "2 :: rat" 52 "- 1074"] by simp
  with assms(3) k(1) have "of_int k < (of_int (2 ^ 52) :: rat)" by simp
  then have "k < 2 ^ 52" by (simp only: of_int_less_iff)
  moreover have "x = 0 \<or> mag_exp x < - 1022" using assms(1,3) mag_exp_less [of x "- 1022"] by linarith
  ultimately show ?thesis
    using of_pack_bits [of 0 k s] k0 by (simp add: k(2)) (simp add: k(1))
qed

lemma bits_roundtrip_normal:
  assumes "representable x" "pw (- 1022) \<le> x" "x < max_finite_bound"
  shows "double_of_bits (bits_of_double (Fin s x)) = Fin s x"
proof -
  let ?e = "mag_exp x"
  have pos: "0 < x" using assms(2) pw_pos [of "- 1022"] by linarith
  have e: "- 1022 \<le> ?e" "?e < 1024"
    using mag_exp_ge [OF assms(2)] mag_exp_less [OF pos] assms(3) by (simp_all add: max_finite_bound_def)
  then have u: "ulp_exp x = ?e - 52" by (simp add: ulp_exp_def)
  obtain k where k: "x = of_int k * pw (?e - 52)" "x / pw (?e - 52) = of_int k"
    using representable_scaled [OF assms(1)] unfolding u by metis
  have "of_int (2 ^ 52) * pw (?e - 52) \<le> of_int k * pw (?e - 52)"
    using mag_exp_bounds(1) [OF pos] power_int_add [of "2 :: rat" 52 "?e - 52"] k(1) by simp
  then have lo: "2 ^ 52 \<le> k" by (simp only: mult_le_cancel_right_pos [OF pw_pos] of_int_le_iff)
  have "of_int k * pw (?e - 52) < of_int (2 ^ 53) * pw (?e - 52)"
    using mag_exp_bounds(2) [OF pos] power_int_add [of "2 :: rat" 53 "?e - 52"] k(1)
    by (simp add: add.commute)
  then have hi: "k < 2 ^ 53" by (simp only: mult_less_cancel_right_pos [OF pw_pos] of_int_less_iff)
  have "bits_of_double (Fin s x) = pack_bits s (?e + 1023) (k - 2 ^ 52)"
    using pos e(1) k(2) by (simp add: Let_def)
  also have "double_of_bits \<dots> = Fin s (of_int (2 ^ 52 + (k - 2 ^ 52)) * pw (?e + 1023 - 1075))"
    using e lo hi by (subst of_pack_bits) auto
  finally show ?thesis using k(1) by simp
qed

lemma bits_roundtrip: "wf_double a \<Longrightarrow> double_of_bits (bits_of_double a) = a"
proof (cases a)
  case NaN
  then show ?thesis by (simp add: of_pack_bits)
next
  case (Inf s)
  then show ?thesis by (simp add: of_pack_bits)
next
  case (Fin s x)
  assume "wf_double a"
  with Fin show ?thesis
    using bits_roundtrip_subnormal [of x s] bits_roundtrip_normal [of x s]
    by (cases "x < pw (- 1022)") (simp_all del: bits_of_double.simps)
qed

lemma wf_double_of_bits: "wf_double (double_of_bits w)"
proof -
  let ?e = "(uint w div 2 ^ 52) mod 2 ^ 11" and ?f = "uint w mod 2 ^ 52"
  have f: "0 \<le> ?f" "?f < 2 ^ 52" and e: "0 \<le> ?e" "?e < 2 ^ 11" by simp_all
  have bnd: "of_int m * pw k < max_finite_bound" if "m < 2 ^ 53" "k \<le> 971" for m k
  proof -
    have "(of_int m :: rat) < of_int (2 ^ 53)" using that(1) by (simp only: of_int_less_iff)
    then have "of_int m * pw k < of_int (2 ^ 53) * pw k" by (rule mult_strict_right_mono) simp
    also have "\<dots> = pw (53 + k)" by (simp add: power_int_add)
    also have "\<dots> \<le> pw 1024" using that(2) by (simp only: pw_le_iff)
    finally show ?thesis by (simp only: max_finite_bound_def)
  qed
  have wf: "wf_double (Fin s (of_int m * pw k))" if "0 \<le> m" "m < 2 ^ 53" "- 1074 \<le> k" "k \<le> 971" for s m k
    using that representableI [of _ m k] bnd [of m k] by simp
  show ?thesis
    unfolding double_of_bits_def Let_def
    using wf [of ?f "- 1074"] wf [of "2 ^ 52 + ?f" "?e - 1075"] f e
    by (auto simp del: wf_double.simps(1))
qed

end
