(* ===== verification/Order_Map.thy ===== *)
theory Order_Map
  imports Prelude
begin

text \<open>
  The open-addressing hash map of the order management system, \<open>OMS::order_map_\<close> with
  \<open>map_hash\<close>, \<open>map_find\<close>, \<open>map_insert\<close> and \<open>map_remove\<close> (\<open>include/nts/oms.h\<close>, \<open>src/oms.cpp\<close>).

  \<open>ORDER_MAP_SIZE\<close> is \<open>2 ^ 13\<close>, so an array position is a 13-bit word and
  \<open>(x + i) & (ORDER_MAP_SIZE - 1)\<close> is addition of such words. The result \<open>ORDER_MAP_SIZE\<close> of
  \<open>map_find\<close>, which means absent, is \<open>None\<close>. The rehashing loop of \<open>map_remove\<close> has no bound of its
  own; it is a partial function, and its termination is proved from the invariant.
\<close>

type_synonym pos = "13 word"

record map_entry =
  e_id :: u64
  e_slot :: u32
  e_occ :: bool

type_synonym order_map = "pos \<Rightarrow> map_entry"

definition ORDER_MAP_SIZE :: u64 where
  "ORDER_MAP_SIZE = 8192"

definition empty_map :: order_map where
  "empty_map = (\<lambda>_. \<lparr>e_id = 0, e_slot = 0, e_occ = False\<rparr>)"

section \<open>Operations\<close>

definition map_hash :: "u64 \<Rightarrow> pos" where
  "map_hash oid = ucast (drop_bit (64 - 13) (oid * 11400714819323198485))"

function find_loop :: "order_map \<Rightarrow> u64 \<Rightarrow> pos \<Rightarrow> u64 \<Rightarrow> pos option" where
  "find_loop m oid idx i =
     (if i < ORDER_MAP_SIZE then
        let p = idx + ucast i
        in if \<not> e_occ (m p) then None
           else if e_id (m p) = oid then Some p
           else find_loop m oid idx (i + 1)
      else None)"
  by pat_completeness auto
termination
  by (relation "measure (\<lambda>(_, _, _, i). unat (ORDER_MAP_SIZE - i))")
     (auto simp: ORDER_MAP_SIZE_def unat_sub_if' unat_word_ariths word_less_nat_alt)

definition map_find :: "order_map \<Rightarrow> u64 \<Rightarrow> pos option" where
  "map_find m oid = find_loop m oid (map_hash oid) 0"

function insert_loop :: "u64 \<Rightarrow> u32 \<Rightarrow> pos \<Rightarrow> u64 \<Rightarrow> order_map \<Rightarrow> order_map" where
  "insert_loop oid slot idx i m =
     (if i < ORDER_MAP_SIZE then
        let p = idx + ucast i
        in if \<not> e_occ (m p) then m(p := \<lparr>e_id = oid, e_slot = slot, e_occ = True\<rparr>)
           else insert_loop oid slot idx (i + 1) m
      else m)"
  by pat_completeness auto
termination
  by (relation "measure (\<lambda>(_, _, _, i, _). unat (ORDER_MAP_SIZE - i))")
     (auto simp: ORDER_MAP_SIZE_def unat_sub_if' unat_word_ariths word_less_nat_alt)

definition map_insert :: "u64 \<Rightarrow> u32 \<Rightarrow> order_map \<Rightarrow> order_map" where
  "map_insert oid slot m = insert_loop oid slot (map_hash oid) 0 m"

definition vacate :: "pos \<Rightarrow> order_map \<Rightarrow> order_map" where
  "vacate p m = m(p := (m p)\<lparr>e_occ := False, e_id := 0\<rparr>)"

partial_function (option) rehash :: "order_map \<Rightarrow> pos \<Rightarrow> order_map option" where
  "rehash m next =
     (if e_occ (m next) then
        let tmp = m next
        in rehash (map_insert (e_id tmp) (e_slot tmp) (vacate next m)) (next + 1)
      else Some m)"

definition map_remove :: "u64 \<Rightarrow> order_map \<Rightarrow> order_map option" where
  "map_remove oid m =
     (case map_find m oid of
        None \<Rightarrow> Some m
      | Some p \<Rightarrow> rehash (vacate p m) (p + 1))"

declare find_loop.simps [simp del] insert_loop.simps [simp del]
declare rehash.simps [code]

section \<open>Probing\<close>

lemma ucast_of_nat: "ucast (of_nat n :: u64) = (of_nat n :: pos)"
proof -
  have "unat (of_nat (take_bit 64 n) :: pos) = unat (of_nat n :: pos)"
    by (simp only: unsigned_of_nat of_nat_id take_bit_take_bit) simp
  then show ?thesis by (simp add: unsigned_of_nat word_unat_eq_iff)
qed

lemma find_loop_None:
  "\<forall>p. e_occ (m p) \<longrightarrow> e_id (m p) \<noteq> oid \<Longrightarrow> find_loop m oid idx i = None"
proof (induction m oid idx i rule: find_loop.induct)
  case (1 m oid idx i)
  then show ?case by (subst find_loop.simps) (auto simp: Let_def)
qed

text \<open>The loop counter as a natural number below the table size.\<close>

lemma counter_less: "n < 8192 \<Longrightarrow> (of_nat n :: u64) < ORDER_MAP_SIZE"
  by (simp add: ORDER_MAP_SIZE_def word_less_nat_alt unat_of_nat)

lemma counter_step: "(of_nat n :: u64) + 1 = of_nat (Suc n)"
  by simp

lemma find_loop_step:
  assumes "n < 8192"
  shows "find_loop m oid idx (of_nat n) =
     (if \<not> e_occ (m (idx + of_nat n)) then None
      else if e_id (m (idx + of_nat n)) = oid then Some (idx + of_nat n)
      else find_loop m oid idx (of_nat (Suc n)))"
  by (subst find_loop.simps)
     (simp add: counter_less [OF assms] Let_def ucast_of_nat counter_step del: of_nat_Suc)

lemma insert_loop_step:
  assumes "n < 8192"
  shows "insert_loop oid slot idx (of_nat n) m =
     (if \<not> e_occ (m (idx + of_nat n))
      then m(idx + of_nat n := \<lparr>e_id = oid, e_slot = slot, e_occ = True\<rparr>)
      else insert_loop oid slot idx (of_nat (Suc n)) m)"
  by (subst insert_loop.simps)
     (simp add: counter_less [OF assms] Let_def ucast_of_nat counter_step del: of_nat_Suc)

lemma find_loop_hit:
  assumes "n + k < 8192" "e_occ (m (idx + of_nat (n + k)))" "e_id (m (idx + of_nat (n + k))) = oid"
    and "\<forall>j < k. e_occ (m (idx + of_nat (n + j))) \<and> e_id (m (idx + of_nat (n + j))) \<noteq> oid"
  shows "find_loop m oid idx (of_nat n) = Some (idx + of_nat (n + k))"
  using assms
proof (induction k arbitrary: n)
  case 0
  then show ?case by (subst find_loop_step) simp_all
next
  case (Suc k)
  have "e_occ (m (idx + of_nat (n + 0))) \<and> e_id (m (idx + of_nat (n + 0))) \<noteq> oid"
    using Suc.prems(4) by blast
  moreover have "e_occ (m (idx + of_nat (Suc n + j))) \<and> e_id (m (idx + of_nat (Suc n + j))) \<noteq> oid"
    if "j < k" for j
    using Suc.prems(4) [rule_format, of "Suc j"] that by simp
  ultimately show ?case
    using Suc.IH [of "Suc n"] Suc.prems(1-3)
    by (subst find_loop_step) (simp_all add: add.assoc del: of_nat_Suc of_nat_add)
qed

lemma insert_loop_hit:
  assumes "n + k < 8192" "\<not> e_occ (m (idx + of_nat (n + k)))"
    and "\<forall>j < k. e_occ (m (idx + of_nat (n + j)))"
  shows "insert_loop oid slot idx (of_nat n) m =
     m(idx + of_nat (n + k) := \<lparr>e_id = oid, e_slot = slot, e_occ = True\<rparr>)"
  using assms
proof (induction k arbitrary: n)
  case 0
  then show ?case by (subst insert_loop_step) simp_all
next
  case (Suc k)
  have "e_occ (m (idx + of_nat (n + 0)))" using Suc.prems(3) by blast
  moreover have "e_occ (m (idx + of_nat (Suc n + j)))" if "j < k" for j
    using Suc.prems(3) [rule_format, of "Suc j"] that by simp
  ultimately show ?case
    using Suc.IH [of "Suc n"] Suc.prems(1,2)
    by (subst insert_loop_step) (simp_all add: add.assoc fun_upd_def del: of_nat_Suc of_nat_add)
qed

text \<open>\<open>q\<close> lies on the probe path from \<open>h\<close> to \<open>p\<close>, before \<open>p\<close>.\<close>

definition before :: "pos \<Rightarrow> pos \<Rightarrow> pos \<Rightarrow> bool" where
  "before h q p = (q - h < p - h)"

lemma pos_unat: "h + of_nat (unat (p - h)) = (p :: pos)"
  by simp

lemma unat_pos: "unat (p :: pos) < 8192"
  using unsigned_less [of p] by simp

lemma before_offset:
  fixes p h :: pos
  assumes "j < unat (p - h)"
  shows "before h (h + of_nat j) p"
proof -
  have "unat (of_nat j :: pos) = j" using assms unat_pos [of "p - h"] by (simp add: unat_of_nat)
  then show ?thesis using assms by (simp add: before_def word_less_nat_alt)
qed

lemma find_at:
  assumes "e_occ (m p)" "\<forall>q. before (map_hash (e_id (m p))) q p \<longrightarrow> e_occ (m q) \<and> e_id (m q) \<noteq> e_id (m p)"
  shows "map_find m (e_id (m p)) = Some p"
proof -
  let ?h = "map_hash (e_id (m p))"
  have "find_loop m (e_id (m p)) ?h (of_nat 0) = Some (?h + of_nat (0 + unat (p - ?h)))"
    by (rule find_loop_hit) (use assms unat_pos [of "p - ?h"] in \<open>auto simp: before_offset\<close>)
  then show ?thesis by (simp add: map_find_def)
qed

lemma insert_at:
  assumes "\<not> e_occ (m p)" "\<forall>q. before (map_hash oid) q p \<longrightarrow> e_occ (m q)"
  shows "map_insert oid slot m = m(p := \<lparr>e_id = oid, e_slot = slot, e_occ = True\<rparr>)"
proof -
  let ?h = "map_hash oid"
  have "insert_loop oid slot ?h (of_nat 0) m =
      m(?h + of_nat (0 + unat (p - ?h)) := \<lparr>e_id = oid, e_slot = slot, e_occ = True\<rparr>)"
    by (rule insert_loop_hit) (use assms unat_pos [of "p - ?h"] in \<open>auto simp: before_offset\<close>)
  then show ?thesis by (simp add: map_insert_def)
qed

text \<open>A probe from anywhere reaches a first free position, no later than any given free one.\<close>

lemma first_free:
  assumes "\<not> e_occ (m p)"
  obtains f where "\<not> e_occ (m f)" "\<forall>q. before h q f \<longrightarrow> e_occ (m q)" "f = p \<or> before h f p"
proof -
  let ?P = "\<lambda>n. \<not> e_occ (m (h + of_nat n))"
  have P: "?P (unat (p - h))" using assms by simp
  define n where "n = (LEAST n. ?P n)"
  have n: "?P n" and least: "\<And>k. k < n \<Longrightarrow> \<not> ?P k" and le: "n \<le> unat (p - h)"
    unfolding n_def using LeastI [of ?P, OF P] not_less_Least Least_le [of ?P, OF P] by blast+
  have un: "unat (of_nat n :: pos) = n" using le unat_pos [of "p - h"] by (simp add: unat_of_nat)
  show ?thesis
  proof (rule that [of "h + of_nat n"])
    show "\<forall>q. before h q (h + of_nat n) \<longrightarrow> e_occ (m q)"
    proof (intro allI impI)
      fix q assume "before h q (h + of_nat n)"
      then have "unat (q - h) < n" by (simp add: before_def word_less_nat_alt un)
      from least [OF this] show "e_occ (m q)" by simp
    qed
    show "h + of_nat n = p \<or> before h (h + of_nat n) p"
    proof (cases "n = unat (p - h)")
      case False
      with le show ?thesis by (simp add: before_def word_less_nat_alt un)
    qed simp
  qed (rule n)
qed

section \<open>Invariant and abstraction\<close>

definition unbroken :: "order_map \<Rightarrow> pos \<Rightarrow> bool" where
  "unbroken m p = (\<forall>q. before (map_hash (e_id (m p))) q p \<longrightarrow> e_occ (m q))"

definition unique_ids :: "order_map \<Rightarrow> bool" where
  "unique_ids m = (\<forall>p q. e_occ (m p) \<and> e_occ (m q) \<and> e_id (m p) = e_id (m q) \<longrightarrow> p = q)"

definition map_inv :: "order_map \<Rightarrow> bool" where
  "map_inv m = ((\<forall>p. e_occ (m p) \<longrightarrow> unbroken m p) \<and> unique_ids m \<and> (\<exists>p. \<not> e_occ (m p)))"

text \<open>What the table stores, as a set of pairs, and what a lookup reads.\<close>

definition stored :: "order_map \<Rightarrow> (u64 \<times> u32) set" where
  "stored m = {(e_id (m p), e_slot (m p)) |p. e_occ (m p)}"

definition lookup :: "order_map \<Rightarrow> u64 \<Rightarrow> u32 option" where
  "lookup m oid = (case map_find m oid of None \<Rightarrow> None | Some p \<Rightarrow> Some (e_slot (m p)))"

lemma before_irrefl [simp]: "\<not> before h p p"
  by (simp add: before_def)

lemma find_stored:
  assumes "map_inv m" "e_occ (m p)"
  shows "map_find m (e_id (m p)) = Some p"
proof (rule find_at [of m p, OF assms(2)], intro allI impI conjI)
  fix q assume b: "before (map_hash (e_id (m p))) q p"
  show "e_occ (m q)" using assms b by (auto simp: map_inv_def unbroken_def)
  then show "e_id (m q) \<noteq> e_id (m p)"
    using assms b before_irrefl unfolding map_inv_def unique_ids_def by metis
qed

lemma find_absent: "\<forall>p. e_occ (m p) \<longrightarrow> e_id (m p) \<noteq> oid \<Longrightarrow> map_find m oid = None"
  by (simp add: map_find_def find_loop_None)

lemma map_find_iff:
  assumes "map_inv m"
  shows "map_find m oid = Some p \<longleftrightarrow> e_occ (m p) \<and> e_id (m p) = oid"
  using find_stored [OF assms] find_absent [of m oid] by (metis option.discI option.inject)

lemma lookup_iff:
  assumes "map_inv m"
  shows "lookup m oid = Some slot \<longleftrightarrow> (oid, slot) \<in> stored m"
proof
  assume "lookup m oid = Some slot"
  then obtain p where "map_find m oid = Some p" "slot = e_slot (m p)"
    by (auto simp: lookup_def split: option.splits)
  moreover from this have "e_occ (m p)" "e_id (m p) = oid" using map_find_iff [OF assms] by blast+
  ultimately show "(oid, slot) \<in> stored m" by (auto simp: stored_def)
next
  assume "(oid, slot) \<in> stored m"
  then obtain p where "e_occ (m p)" "oid = e_id (m p)" "slot = e_slot (m p)"
    by (auto simp: stored_def)
  then show "lookup m oid = Some slot" by (simp add: lookup_def find_stored [OF assms])
qed

lemma map_inv_empty: "map_inv empty_map"
  by (simp add: map_inv_def empty_map_def unique_ids_def)

lemma lookup_empty: "lookup empty_map = (\<lambda>_. None)"
  by (rule ext) (simp add: lookup_def empty_map_def find_absent)

text \<open>As many positions are occupied as identifiers are stored.\<close>

lemma card_dom_lookup:
  assumes "map_inv m"
  shows "card (dom (lookup m)) = card {p. e_occ (m p)}"
proof -
  have "dom (lookup m) = (\<lambda>p. e_id (m p)) ` {p. e_occ (m p)}"
    using lookup_iff [OF assms] by (auto simp: dom_def stored_def)
  moreover have "inj_on (\<lambda>p. e_id (m p)) {p. e_occ (m p)}"
    using assms by (auto simp: map_inv_def unique_ids_def inj_on_def)
  ultimately show ?thesis by (simp add: card_image)
qed

lemma finite_dom_lookup: "map_inv m \<Longrightarrow> finite (dom (lookup m))"
proof -
  assume "map_inv m"
  then have "dom (lookup m) \<subseteq> (\<lambda>p. e_id (m p)) ` {p. e_occ (m p)}"
    using lookup_iff by (auto simp: dom_def stored_def)
  then show ?thesis by (rule finite_subset) simp
qed

lemma card_pos: "card (UNIV :: pos set) = 8192"
  by (simp add: card_word)

lemma option_eq_iff: "(\<And>v. (a = Some v) = (b = Some v)) \<Longrightarrow> a = b"
  by (cases a; cases b) auto

section \<open>Insertion\<close>

lemma unbroken_upd:
  assumes "unbroken m p" "e_occ x" "p \<noteq> f"
  shows "unbroken (m(f := x)) p"
  using assms by (auto simp: unbroken_def)

lemma stored_image: "stored m = (\<lambda>p. (e_id (m p), e_slot (m p))) ` {p. e_occ (m p)}"
  by (auto simp: stored_def)

lemma stored_upd:
  assumes "\<not> e_occ (m f)" "e_occ x"
  shows "stored (m(f := x)) = insert (e_id x, e_slot x) (stored m)"
proof -
  have "{p. e_occ ((m(f := x)) p)} = insert f {p. e_occ (m p)}" using assms by auto
  then show ?thesis
    using assms(1) by (simp add: stored_image cong: image_cong_simp)
       (intro arg_cong [where f = "insert _"] image_cong; auto)
qed

lemma map_insert_correct:
  assumes inv: "map_inv m" and fresh: "lookup m oid = None" and room: "card (dom (lookup m)) < 8191"
  shows "map_inv (map_insert oid slot m) \<and> lookup (map_insert oid slot m) = (lookup m)(oid \<mapsto> slot)"
proof -
  let ?x = "\<lparr>e_id = oid, e_slot = slot, e_occ = True\<rparr>"
  obtain p where "\<not> e_occ (m p)" using inv by (auto simp: map_inv_def)
  from first_free [of m p "map_hash oid", OF this] obtain f where
    f: "\<not> e_occ (m f)" "\<forall>q. before (map_hash oid) q f \<longrightarrow> e_occ (m q)" by blast
  note ins = insert_at [of m f oid slot, OF this]
  have absent: "e_id (m p) \<noteq> oid" if "e_occ (m p)" for p
    using fresh lookup_iff [OF inv, of oid] that by (force simp: stored_def)
  have free: "\<exists>p. \<not> e_occ ((m(f := ?x)) p)"
  proof (rule ccontr)
    assume "\<not> ?thesis"
    then have "{p. e_occ (m p)} = UNIV - {f}" using f(1) by (auto split: if_splits)
    then have "card {p. e_occ (m p)} = 8191" by (simp add: card_Diff_subset card_pos)
    with room show False by (simp add: card_dom_lookup [OF inv])
  qed
  have "unbroken (m(f := ?x)) p" if "e_occ ((m(f := ?x)) p)" for p
  proof (cases "p = f")
    case True
    then show ?thesis using f(2) by (auto simp: unbroken_def)
  next
    case False
    then show ?thesis using that inv unbroken_upd [of m p ?x f] by (simp add: map_inv_def)
  qed
  moreover have "unique_ids (m(f := ?x))"
    using inv absent by (auto simp: map_inv_def unique_ids_def)
  ultimately have inv': "map_inv (m(f := ?x))" using free by (auto simp: map_inv_def)
  have "stored (m(f := ?x)) = insert (oid, slot) (stored m)"
    using stored_upd [of m f ?x] f(1) by simp
  then have "(lookup (m(f := ?x)) k = Some v) = (((lookup m)(oid \<mapsto> slot)) k = Some v)" for k v
    using absent by (auto simp: lookup_iff [OF inv'] lookup_iff [OF inv] stored_def)
  then have "lookup (m(f := ?x)) = (lookup m)(oid \<mapsto> slot)" by (intro ext option_eq_iff)
  with inv' ins show ?thesis by simp
qed

section \<open>Removal\<close>

text \<open>
  The rehashing loop walks the run of occupied positions from the vacated position \<open>v\<close> to the next
  free position \<open>E\<close>. At cursor \<open>c\<close>, entries outside \<open>[c, E)\<close> have unbroken probe paths, and the paths of
  the others are broken only in the part \<open>[v, c)\<close> already walked.
\<close>

definition within :: "pos \<Rightarrow> pos \<Rightarrow> pos \<Rightarrow> bool" where
  "within a b q = (q - a < b - a)"

definition walking :: "pos \<Rightarrow> pos \<Rightarrow> pos \<Rightarrow> order_map \<Rightarrow> bool" where
  "walking v E c m =
     (c - v \<le> E - v \<and> E \<noteq> v \<and> c \<noteq> v \<and> \<not> e_occ (m E) \<and> unique_ids m \<and>
      (\<forall>p. within c E p \<longrightarrow> e_occ (m p)) \<and>
      (\<forall>p. e_occ (m p) \<longrightarrow>
         (if within c E p
          then \<forall>q. before (map_hash (e_id (m p))) q p \<longrightarrow> e_occ (m q) \<or> within v c q
          else unbroken m p)))"

lemma walkingD:
  assumes "walking v E c m"
  shows "c - v \<le> E - v" "E \<noteq> v" "c \<noteq> v" "\<not> e_occ (m E)" "unique_ids m"
    and "within c E p \<Longrightarrow> e_occ (m p)"
    and "within c E p \<Longrightarrow> before (map_hash (e_id (m p))) q p \<Longrightarrow> e_occ (m q) \<or> within v c q"
    and "e_occ (m p) \<Longrightarrow> \<not> within c E p \<Longrightarrow> unbroken m p"
  using assms unfolding walking_def by metis+

lemmas cyclic = before_def within_def word_less_nat_alt word_le_nat_alt unat_sub_if' unat_word_ariths

text \<open>A path that crosses \<open>c\<close> but not \<open>E\<close> ends between them.\<close>

lemma path_crossing:
  assumes "before h c p" "\<not> before h E p" "p \<noteq> E"
  shows "within c E p"
  using assms unat_pos [of h] unat_pos [of c] unat_pos [of p] unat_pos [of E]
  by (auto simp: cyclic word_unat_eq_iff split: if_splits)

lemma word_pred_less: "x \<noteq> 0 \<Longrightarrow> y \<noteq> 0 \<Longrightarrow> (x - 1 < y - 1) = (x < y)" for x y :: pos
  by (auto simp: word_less_nat_alt unat_minus_one unat_eq_0 [symmetric] simp del: unat_eq_0)

lemma within_Suc: "c \<noteq> E \<Longrightarrow> within (c + 1) E p \<longleftrightarrow> within c E p \<and> p \<noteq> c"
proof -
  assume E: "c \<noteq> E"
  have eq: "x - (c + 1) = (x - c) - 1" for x :: pos by simp
  show ?thesis
  proof (cases "p = c")
    case True
    have "\<not> (- 1 :: pos) < E - c - 1" by (simp add: not_less)
    with True show ?thesis by (simp add: within_def)
  next
    case False
    with E show ?thesis by (simp add: within_def eq word_pred_less)
  qed
qed

lemma word_succ_less: "x + 1 \<noteq> 0 \<Longrightarrow> x < x + 1" for x :: pos
  using unatSuc [of x] by (simp add: word_less_nat_alt add.commute)

lemma word_succ_le: "x < y \<Longrightarrow> x + 1 \<le> y" for x y :: pos
  using unat_pos [of y] by (simp add: word_less_nat_alt word_le_nat_alt unat_word_ariths)

lemma word_succ_nz: "x < y \<Longrightarrow> x + 1 \<noteq> 0" for x y :: pos
  using unat_pos [of y] by (auto simp: word_less_nat_alt word_unat_eq_iff unat_word_ariths)

lemma within_disjoint: "within c E p \<Longrightarrow> c - v \<le> E - v \<Longrightarrow> \<not> within v c p"
  using unat_pos [of v] unat_pos [of c] unat_pos [of p] unat_pos [of E]
  by (auto simp: cyclic split: if_splits)

lemma vacate_simps [simp]:
  "\<not> e_occ (vacate c m c)" "p \<noteq> c \<Longrightarrow> vacate c m p = m p"
  by (simp_all add: vacate_def)

lemma vacate_restore: "(vacate c m)(c := m c) = m"
  by (simp add: vacate_def)

lemma stored_vacate: "e_occ (m c) \<Longrightarrow> stored m = insert (e_id (m c), e_slot (m c)) (stored (vacate c m))"
  using stored_upd [of "vacate c m" c "m c"] by (simp add: vacate_restore)

lemma entry_eta: "e_occ x \<Longrightarrow> \<lparr>e_id = e_id x, e_slot = e_slot x, e_occ = True\<rparr> = x" for x :: map_entry
  by (cases x) simp

lemma walk_insert:
  assumes w: "walking v E c m" and c: "e_occ (m c)" "within c E c"
  obtains f where "map_insert (e_id (m c)) (e_slot (m c)) (vacate c m) = (vacate c m)(f := m c)"
    and "\<not> e_occ (vacate c m f)" "f = c \<or> within v c f"
    and "\<forall>q. before (map_hash (e_id (m c))) q f \<longrightarrow> e_occ (vacate c m q)"
proof -
  let ?h = "map_hash (e_id (m c))"
  obtain f where f: "\<not> e_occ (vacate c m f)" "\<forall>q. before ?h q f \<longrightarrow> e_occ (vacate c m q)"
    "f = c \<or> before ?h f c"
    using first_free [of "vacate c m" c ?h] by auto
  have "f = c \<or> within v c f"
  proof (cases "f = c")
    case False
    have "\<forall>q. before ?h q c \<longrightarrow> e_occ (m q) \<or> within v c q" using walkingD(7) [OF w c(2)] by blast
    with False f(1,3) show ?thesis by auto
  qed simp
  moreover have "map_insert (e_id (m c)) (e_slot (m c)) (vacate c m) = (vacate c m)(f := m c)"
    using insert_at [of "vacate c m" f "e_id (m c)" "e_slot (m c)"] f(1,2) c(1) by (simp add: entry_eta)
  ultimately show ?thesis using that f(1,2) by blast
qed

lemma walk_step:
  assumes w: "walking v E c m" and ne: "c \<noteq> E"
  defines "m' \<equiv> map_insert (e_id (m c)) (e_slot (m c)) (vacate c m)"
  shows "walking v E (c + 1) m' \<and> stored m' = stored m"
proof -
  have cE: "within c E c" using ne by (simp add: within_def word_gt_0_iff)
  note W = walkingD [OF w]
  have c: "e_occ (m c)" by (rule W(6) [OF cE])
  obtain f where m': "m' = (vacate c m)(f := m c)" and ff: "\<not> e_occ (vacate c m f)"
    and f: "f = c \<or> within v c f"
    and path: "\<forall>q. before (map_hash (e_id (m c))) q f \<longrightarrow> e_occ (vacate c m q)"
    unfolding m'_def by (rule walk_insert [OF w c cE])
  have le: "c - v < E - v" using W(1) ne by (auto simp: order_le_less)
  have le': "c + 1 - v \<le> E - v" using word_succ_le [OF le] by (simp add: algebra_simps)
  have cv: "c + 1 \<noteq> v" using word_succ_nz [OF le] by (simp add: algebra_simps eq_diff_eq)
  have ext: "c - v < c + 1 - v" using word_succ_less [of "c - v"] word_succ_nz [OF le] by (simp add: algebra_simps)
  have fE: "f \<noteq> E" using f le ne by (auto simp: within_def)
  have keep: "e_occ (m' q)" if "e_occ (m q)" "q \<noteq> c" for q using that c by (simp add: m')
  have old: "m' p = m p \<and> e_occ (m p) \<and> p \<noteq> c" if "e_occ (m' p)" "p \<noteq> f" for p
    using that by (cases "p = c") (auto simp: m')
  have uniq: "unique_ids m'"
    unfolding unique_ids_def
  proof (intro allI impI)
    fix p q assume pq: "e_occ (m' p) \<and> e_occ (m' q) \<and> e_id (m' p) = e_id (m' q)"
    note u = W(5)
    have "m' f = m c" by (simp add: m')
    with pq old [of p] old [of q] u c show "p = q"
      unfolding unique_ids_def by (metis (full_types))
  qed
  have tail: "if within (c + 1) E p
       then \<forall>q. before (map_hash (e_id (m' p))) q p \<longrightarrow> e_occ (m' q) \<or> within v (c + 1) q
       else unbroken m' p" if p: "e_occ (m' p)" for p
  proof (cases "within (c + 1) E p")
    case True
    then have pc: "within c E p" "p \<noteq> c" using within_Suc [OF ne] by auto
    from within_disjoint [OF pc(1) order_less_imp_le [OF le]] f pc(2) have "p \<noteq> f" by auto
    from old [OF p this] have mp: "m' p = m p" "e_occ (m p)" by auto
    have "e_occ (m' q) \<or> within v (c + 1) q" if "before (map_hash (e_id (m p))) q p" for q
    proof -
      have "e_occ (m q) \<or> within v c q" by (rule W(7) [OF pc(1) that])
      with keep [of q] ext show ?thesis by (cases "q = c") (auto simp: within_def)
    qed
    with True mp show ?thesis by simp
  next
    case False
    show ?thesis
    proof (cases "p = f")
      case True
      have "m' f = m c" by (simp add: m')
      with True path False c show ?thesis by (auto simp: unbroken_def m')
    next
      case pf: False
      from old [OF p pf] have mp: "m' p = m p" "e_occ (m p)" "p \<noteq> c" by auto
      have nw: "\<not> within c E p" using False mp(3) within_Suc [OF ne] by auto
      have ub: "unbroken m p" by (rule W(8) [OF mp(2) nw])
      with W(4) have "\<not> before (map_hash (e_id (m p))) E p" "p \<noteq> E" using mp(2) by (auto simp: unbroken_def)
      with nw path_crossing have "\<not> before (map_hash (e_id (m p))) c p" by blast
      with ub keep mp have "unbroken m' p" unfolding unbroken_def by (metis)
      with False show ?thesis by simp
    qed
  qed
  have "stored m' = stored m"
    using stored_upd [of "vacate c m" f "m c"] ff c stored_vacate [of m c] by (simp add: m')
  moreover have "\<forall>p. within (c + 1) E p \<longrightarrow> e_occ (m' p)"
    using W(6) keep within_Suc [OF ne] by simp
  moreover have "\<not> e_occ (m' E)" using W(4) fE ne by (simp add: m')
  ultimately show ?thesis
    using W(2) le' cv uniq tail unfolding walking_def by blast
qed

lemma rehash_walk:
  assumes "walking v E c m"
  shows "\<exists>m'. rehash m c = Some m' \<and> walking v E E m' \<and> stored m' = stored m"
  using assms
proof (induction "unat (E - c)" arbitrary: c m rule: less_induct)
  case less
  show ?case
  proof (cases "c = E")
    case True
    with walkingD(4) [OF less.prems] less.prems show ?thesis by (subst rehash.simps) simp
  next
    case False
    let ?m = "map_insert (e_id (m c)) (e_slot (m c)) (vacate c m)"
    from walk_step [OF less.prems False] have w: "walking v E (c + 1) ?m" "stored ?m = stored m" by auto
    have "within c E c" using False by (simp add: within_def word_gt_0_iff)
    then have occ: "e_occ (m c)" by (rule walkingD(6) [OF less.prems])
    have eq: "E - (c + 1) = (E - c) - 1" by simp
    have nz: "E - c \<noteq> 0" using False by simp
    then have "0 < unat (E - c)" by (simp add: unat_gt_0)
    then have "unat (E - (c + 1)) < unat (E - c)" unfolding eq unat_minus_one [OF nz] by simp
    from less.hyps [OF this w(1)] w(2) occ show ?thesis
      by (subst rehash.simps) (simp add: Let_def)
  qed
qed

lemma walking_start:
  assumes inv: "map_inv m" and v: "e_occ (m v)"
  obtains E where "walking v E (v + 1) (vacate v m)"
proof -
  obtain e where "\<not> e_occ (m e)" using inv by (auto simp: map_inv_def)
  then obtain E where E: "\<not> e_occ (m E)" "\<forall>q. before (v + 1) q E \<longrightarrow> e_occ (m q)"
    using first_free [of m e "v + 1"] by metis
  with v have Ev: "v \<noteq> E" by auto
  have step: "within (v + 1) E p \<longleftrightarrow> within v E p \<and> p \<noteq> v" for p by (rule within_Suc [OF Ev])
  have run: "e_occ (m p) \<and> p \<noteq> v" if "within (v + 1) E p" for p
    using E(2) that step by (simp add: before_def within_def)
  have "0 < E - v" using Ev by (simp add: word_gt_0_iff)
  from word_succ_le [OF this] have one: "v + 1 - v \<le> E - v" by simp
  have tail: "if within (v + 1) E p
      then \<forall>q. before (map_hash (e_id (vacate v m p))) q p \<longrightarrow> e_occ (vacate v m q) \<or> within v (v + 1) q
      else unbroken (vacate v m) p" if p: "e_occ (vacate v m p)" for p
  proof -
    from p have pv: "p \<noteq> v" by auto
    with p inv have ub: "unbroken m p" "e_occ (m p)" by (simp_all add: map_inv_def)
    have vv: "within v (v + 1) v" by (simp add: within_def)
    have other: "e_occ (vacate v m q)" if "before (map_hash (e_id (m p))) q p" "q \<noteq> v" for q
      using ub(1) that by (simp add: unbroken_def)
    show ?thesis
    proof (cases "within (v + 1) E p")
      case True
      with other vv pv show ?thesis by (metis (full_types) vacate_simps(2))
    next
      case False
      have "\<not> before (map_hash (e_id (m p))) E p" "p \<noteq> E" using ub E(1) by (auto simp: unbroken_def)
      with False step pv path_crossing have "\<not> before (map_hash (e_id (m p))) v p" by blast
      with other pv have "unbroken (vacate v m) p" unfolding unbroken_def by (metis vacate_simps(2))
      with False show ?thesis by simp
    qed
  qed
  have "unique_ids (vacate v m)"
    using inv unfolding map_inv_def unique_ids_def by (metis vacate_simps)
  moreover have "\<forall>p. within (v + 1) E p \<longrightarrow> e_occ (vacate v m p)" using run by simp
  moreover have "\<not> e_occ (vacate v m E)" using E(1) Ev by simp
  moreover have "v + 1 \<noteq> v" by simp
  ultimately have "walking v E (v + 1) (vacate v m)"
    using one Ev [symmetric] tail unfolding walking_def by blast
  then show ?thesis by (rule that)
qed

lemma walking_done: "walking v E E m \<Longrightarrow> map_inv m"
  using walkingD [of v E E m] by (auto simp: map_inv_def within_def)

lemma map_remove_correct:
  assumes inv: "map_inv m"
  shows "\<exists>m'. map_remove oid m = Some m' \<and> map_inv m' \<and> lookup m' = (lookup m)(oid := None)"
proof (cases "map_find m oid")
  case None
  with inv show ?thesis by (auto simp: map_remove_def lookup_def)
next
  case (Some v)
  then have v: "e_occ (m v)" "e_id (m v) = oid" using map_find_iff [OF inv] by auto
  obtain E where w: "walking v E (v + 1) (vacate v m)" by (rule walking_start [OF inv v(1)])
  from rehash_walk [OF w] obtain m' where
    m': "rehash (vacate v m) (v + 1) = Some m'" "walking v E E m'" "stored m' = stored (vacate v m)"
    by blast
  note inv' = walking_done [OF m'(2)]
  have "stored m' = {x \<in> stored m. fst x \<noteq> oid}"
  proof -
    have "(oid, s) \<notin> stored (vacate v m)" for s
    proof
      assume "(oid, s) \<in> stored (vacate v m)"
      then obtain p where p: "e_occ (vacate v m p)" "oid = e_id (vacate v m p)"
        by (auto simp: stored_def)
      then have "p \<noteq> v" by auto
      with p v inv show False unfolding map_inv_def unique_ids_def by (metis vacate_simps(2))
    qed
    then show ?thesis using stored_vacate [of m v] v by (auto simp: m'(3))
  qed
  then have "(lookup m' k = Some s) = (((lookup m)(oid := None)) k = Some s)" for k s
    by (auto simp: lookup_iff [OF inv'] lookup_iff [OF inv])
  then have "lookup m' = (lookup m)(oid := None)" by (intro ext option_eq_iff)
  with m'(1) inv' Some show ?thesis by (simp add: map_remove_def)
qed

section \<open>The index as an interface\<close>

text \<open>
  What the order management system relies on: an index from identifiers to slots that answers
  like a finite map as long as it is not full.
\<close>

locale order_index =
  fixes inv :: "'m \<Rightarrow> bool" and look :: "'m \<Rightarrow> u64 \<Rightarrow> u32 option" and empty :: 'm
    and ins :: "u64 \<Rightarrow> u32 \<Rightarrow> 'm \<Rightarrow> 'm" and rem :: "u64 \<Rightarrow> 'm \<Rightarrow> 'm option" and cap :: nat
  assumes inv_empty: "inv empty" and look_empty: "look empty = (\<lambda>_. None)"
    and ins_ok: "inv m \<Longrightarrow> look m oid = None \<Longrightarrow> card (dom (look m)) < cap \<Longrightarrow>
      inv (ins oid slot m) \<and> look (ins oid slot m) = (look m)(oid \<mapsto> slot)"
    and rem_ok: "inv m \<Longrightarrow>
      \<exists>m'. rem oid m = Some m' \<and> inv m' \<and> look m' = (look m)(oid := None)"
    and finite_look: "inv m \<Longrightarrow> finite (dom (look m))"
begin

lemma ins_inj:
  assumes "inv m" "look m oid = None" "card (dom (look m)) < cap"
    and "inj_on (look m) (dom (look m))" "slot \<notin> ran (look m)"
  shows "inj_on (look (ins oid slot m)) (dom (look (ins oid slot m)))"
proof -
  have "oid \<notin> dom (look m)" using assms(2) by (simp add: domIff)
  then have "inj_on ((look m)(oid \<mapsto> slot)) (insert oid (dom (look m)))"
    using assms(4,5) by (auto simp: inj_on_def ran_def)
  then show ?thesis using ins_ok [OF assms(1-3), of slot] by simp
qed

lemma rem_inj:
  assumes "inv m" "rem oid m = Some m'" "inj_on (look m) (dom (look m))"
  shows "inj_on (look m') (dom (look m'))"
  using rem_ok [OF assms(1), of oid] assms(2,3) by (auto simp: inj_on_def)

end

interpretation om: order_index map_inv lookup empty_map map_insert map_remove 8191
  by unfold_locales
     (simp_all add: map_inv_empty lookup_empty map_insert_correct map_remove_correct finite_dom_lookup)

end
