(* ===== verification/OMS.thy ===== *)
theory OMS
  imports Common Doubles Order_Map
begin

text \<open>
  The order management system of \<open>include/nts/oms.h\<close> and \<open>src/oms.cpp\<close>: order slots with a free
  stack, the identifier index of \<open>Order_Map\<close>, risk checks, execution reports, position and
  profit.

  Arrays are functions from an index; \<open>None\<close> is the outcome of an access outside the array or of a
  rehash that does not return. \<open>size_t\<close> counters are 64-bit words. \<open>int32_t\<close> values are 32-bit words
  read with \<open>sint\<close>. A member \<open>x_\<close> of the class is the field \<open>m_x\<close>. A pointer to an order is its slot.
\<close>

record oms_order =
  oo_id :: u64
  oo_price :: double
  oo_qty :: u32
  oo_filled_qty :: u32
  oo_leaves_qty :: u32
  oo_side :: side
  oo_type :: order_type
  oo_status :: order_status
  oo_source_exchange_tick :: u64
  oo_client_reaction_ns :: u64
  oo_avg_fill_price :: double

record execution_report =
  xr_order_id :: u64
  xr_exec_type :: exec_type
  xr_fill_price :: double
  xr_fill_qty :: u32
  xr_leaves_qty :: u32
  xr_timestamp_ns :: u64

record risk_limits =
  max_position :: i32
  max_order_qty :: u32
  max_price_deviation :: double
  max_live_orders :: u32

definition default_limits :: risk_limits where
  "default_limits =
     \<lparr>max_position = MAX_POSITION, max_order_qty = 10000,
      max_price_deviation = Fin False 5, max_live_orders = 50\<rparr>"

definition MAX_ORDERS :: u64 where
  "MAX_ORDERS = 4096"

record oms =
  m_orders :: "u64 \<Rightarrow> oms_order"
  m_next_id :: u64
  m_order_count :: u64
  m_free_stack :: "u64 \<Rightarrow> u64"
  m_free_top :: u64
  m_next_fresh_slot :: u64
  m_order_map :: order_map
  m_position :: i32
  m_pending_position_delta :: i32
  m_trading_cash :: double
  m_risk :: risk_limits
  m_ref_price :: double
  m_live_orders :: u64
  m_pending_new :: u64
  m_accepted_orders :: u64
  m_filled_orders :: u64
  m_missed_ioc :: u64
  m_fills :: u64
  m_buy_fills :: u64
  m_sell_fills :: u64
  m_cancels :: u64
  m_rejects :: u64
  m_total_filled_qty :: u32
  m_buy_qty :: u32
  m_sell_qty :: u32

definition empty_order :: oms_order where
  "empty_order =
     \<lparr>oo_id = 0, oo_price = Fin False 0, oo_qty = 0, oo_filled_qty = 0, oo_leaves_qty = 0,
      oo_side = Buy, oo_type = LimitOrder, oo_status = Empty, oo_source_exchange_tick = 0,
      oo_client_reaction_ns = 0, oo_avg_fill_price = Fin False 0\<rparr>"

definition init_oms :: oms where
  "init_oms =
     \<lparr>m_orders = (\<lambda>_. empty_order), m_next_id = 1, m_order_count = 0,
      m_free_stack = (\<lambda>_. 0), m_free_top = 0, m_next_fresh_slot = 0, m_order_map = empty_map,
      m_position = 0, m_pending_position_delta = 0, m_trading_cash = Fin False 0,
      m_risk = default_limits, m_ref_price = Fin False 0, m_live_orders = 0, m_pending_new = 0,
      m_accepted_orders = 0, m_filled_orders = 0, m_missed_ioc = 0, m_fills = 0, m_buy_fills = 0,
      m_sell_fills = 0, m_cancels = 0, m_rejects = 0, m_total_filled_qty = 0, m_buy_qty = 0,
      m_sell_qty = 0\<rparr>"

section \<open>Slots\<close>

definition alloc_slot :: "oms \<Rightarrow> u64 \<times> oms" where
  "alloc_slot st =
     (if m_free_top st > 0 then
        let top = m_free_top st - 1 in (m_free_stack st top, st\<lparr>m_free_top := top\<rparr>)
      else if m_next_fresh_slot st < MAX_ORDERS then
        (m_next_fresh_slot st, st\<lparr>m_next_fresh_slot := m_next_fresh_slot st + 1\<rparr>)
      else (MAX_ORDERS, st))"

definition free_slot :: "u64 \<Rightarrow> u64 \<Rightarrow> oms \<Rightarrow> oms option" where
  "free_slot slot oid st =
     (case map_remove oid (m_order_map st) of
        None \<Rightarrow> None
      | Some m \<Rightarrow>
          if m_free_top st < MAX_ORDERS
          then Some (st\<lparr>m_order_map := m, m_free_stack := (m_free_stack st)(m_free_top st := slot),
                       m_free_top := m_free_top st + 1\<rparr>)
          else None)"

section \<open>Risk and submission\<close>

definition signed_qty :: "side \<Rightarrow> u32 \<Rightarrow> i32" where
  "signed_qty s qty = (case s of Buy \<Rightarrow> qty | Sell \<Rightarrow> - qty)"

definition abs32 :: "i32 \<Rightarrow> i32" where
  "abs32 x = (if sint x < 0 then - x else x)"

definition check_risk :: "side \<Rightarrow> double \<Rightarrow> u32 \<Rightarrow> oms \<Rightarrow> bool" where
  "check_risk s price qty st =
     (if qty > max_order_qty (m_risk st) then False
      else if m_live_orders st + m_pending_new st \<ge> ucast (max_live_orders (m_risk st)) then False
      else
        let base = m_position st + m_pending_position_delta st + signed_qty s qty
        in if sint (abs32 base) > sint (max_position (m_risk st)) then False
           else if fgt (m_ref_price st) (Fin False 0) \<and> fgt (max_price_deviation (m_risk st)) (Fin False 0) \<and>
                   fgt (fabs (fsub price (m_ref_price st))) (max_price_deviation (m_risk st)) then False
           else True)"

definition send_new :: "side \<Rightarrow> double \<Rightarrow> u32 \<Rightarrow> order_type \<Rightarrow> oms \<Rightarrow> u64 option \<times> oms" where
  "send_new s price qty ty st =
     (if \<not> check_risk s price qty st then (None, st)
      else
        let (slot, st1) = alloc_slot st
        in if slot \<ge> MAX_ORDERS then (None, st1)
           else
             let oid = m_next_id st1;
                 ord = (m_orders st1 slot)
                   \<lparr>oo_id := oid, oo_price := price, oo_qty := qty, oo_filled_qty := 0,
                    oo_leaves_qty := qty, oo_side := s, oo_type := ty, oo_status := Sent,
                    oo_avg_fill_price := Fin False 0\<rparr>
             in (Some slot,
                 st1\<lparr>m_next_id := oid + 1, m_orders := (m_orders st1)(slot := ord),
                    m_order_map := map_insert oid (ucast slot) (m_order_map st1),
                    m_order_count := m_order_count st1 + 1, m_pending_new := m_pending_new st1 + 1,
                    m_pending_position_delta := m_pending_position_delta st1 + signed_qty s qty\<rparr>))"

definition set_reference_price :: "double \<Rightarrow> oms \<Rightarrow> oms" where
  "set_reference_price price st = st\<lparr>m_ref_price := price\<rparr>"

section \<open>Execution reports\<close>

definition apply_trading_fill :: "side \<Rightarrow> u32 \<Rightarrow> double \<Rightarrow> oms \<Rightarrow> oms" where
  "apply_trading_fill s qty fill_price st =
     (let notional = fmul fill_price (dbl_of_u32 qty)
      in case s of
           Buy \<Rightarrow> st\<lparr>m_position := m_position st + qty, m_trading_cash := fsub (m_trading_cash st) notional\<rparr>
         | Sell \<Rightarrow> st\<lparr>m_position := m_position st - qty, m_trading_cash := fadd (m_trading_cash st) notional\<rparr>)"

definition dec :: "u64 \<Rightarrow> u64" where
  "dec n = (if n > 0 then n - 1 else n)"

definition set_order :: "u64 \<Rightarrow> oms_order \<Rightarrow> oms \<Rightarrow> oms" where
  "set_order slot ord st = st\<lparr>m_orders := (m_orders st)(slot := ord)\<rparr>"

text \<open>What a fill does to the order itself, and to the counters of the system.\<close>

definition fill_order :: "execution_report \<Rightarrow> oms_order \<Rightarrow> oms_order" where
  "fill_order r ord =
     (let fq = xr_fill_qty r;
          old_cost = fmul (oo_avg_fill_price ord) (dbl_of_u32 (oo_filled_qty ord));
          new_cost = fadd old_cost (fmul (xr_fill_price r) (dbl_of_u32 fq));
          filled = oo_filled_qty ord + fq;
          leaves = (if oo_qty ord > filled then oo_qty ord - filled else 0);
          avg = (if filled > 0 then fdiv new_cost (dbl_of_u32 filled) else oo_avg_fill_price ord);
          fully_filled = (xr_exec_type r = Fill \<or> leaves = 0)
      in ord\<lparr>oo_filled_qty := filled, oo_leaves_qty := leaves, oo_avg_fill_price := avg,
             oo_status := (if fully_filled then Filled else PartiallyFilled)\<rparr>)"

definition count_fill :: "side \<Rightarrow> u32 \<Rightarrow> bool \<Rightarrow> oms \<Rightarrow> oms" where
  "count_fill s fq first st =
     (let st1 = st\<lparr>m_filled_orders := (if first then m_filled_orders st + 1 else m_filled_orders st),
                 m_fills := m_fills st + 1, m_total_filled_qty := m_total_filled_qty st + fq\<rparr>
      in case s of
           Buy \<Rightarrow> st1\<lparr>m_buy_fills := m_buy_fills st1 + 1, m_buy_qty := m_buy_qty st1 + fq\<rparr>
         | Sell \<Rightarrow> st1\<lparr>m_sell_fills := m_sell_fills st1 + 1, m_sell_qty := m_sell_qty st1 + fq\<rparr>)"

definition accept_order :: "oms \<Rightarrow> oms" where
  "accept_order st =
     st\<lparr>m_pending_new := dec (m_pending_new st), m_accepted_orders := m_accepted_orders st + 1,
       m_live_orders := m_live_orders st + 1\<rparr>"

definition on_new_ack :: "u64 \<Rightarrow> oms_order \<Rightarrow> oms \<Rightarrow> oms option" where
  "on_new_ack slot ord st =
     (if oo_status ord \<noteq> Sent then Some st
      else Some (accept_order (set_order slot (ord\<lparr>oo_status := Live\<rparr>) st)))"

definition on_fill :: "execution_report \<Rightarrow> u64 \<Rightarrow> oms_order \<Rightarrow> oms \<Rightarrow> oms option" where
  "on_fill r slot ord st =
     (if oo_status ord \<noteq> Live \<and> oo_status ord \<noteq> PartiallyFilled \<and> oo_status ord \<noteq> Sent then Some st
      else
        let st1 = (if oo_status ord = Sent then accept_order st else st);
            fq = xr_fill_qty r;
            ord' = fill_order r ord;
            st2 = set_order slot ord' st1;
            st3 = st2\<lparr>m_pending_position_delta := m_pending_position_delta st2 - signed_qty (oo_side ord') fq\<rparr>;
            st4 = apply_trading_fill (oo_side ord') fq (xr_fill_price r) st3;
            st5 = count_fill (oo_side ord') fq (oo_filled_qty ord' = fq) st4
        in if oo_status ord' = Filled
           then free_slot slot (oo_id ord') (st5\<lparr>m_live_orders := dec (m_live_orders st5)\<rparr>)
           else Some st5)"

definition on_cancel_ack :: "u64 \<Rightarrow> oms_order \<Rightarrow> oms \<Rightarrow> oms option" where
  "on_cancel_ack slot ord st =
     (let st1 = (if oo_type ord = IOC \<and> oo_filled_qty ord = 0
                then st\<lparr>m_missed_ioc := m_missed_ioc st + 1\<rparr> else st);
          st2 = st1\<lparr>m_pending_position_delta :=
                    m_pending_position_delta st1 - signed_qty (oo_side ord) (oo_leaves_qty ord)\<rparr>;
          st3 = set_order slot (ord\<lparr>oo_status := Cancelled\<rparr>) st2
      in free_slot slot (oo_id ord)
           (st3\<lparr>m_live_orders := dec (m_live_orders st3), m_cancels := m_cancels st3 + 1\<rparr>))"

definition on_reject :: "u64 \<Rightarrow> oms_order \<Rightarrow> oms \<Rightarrow> oms option" where
  "on_reject slot ord st =
     (let st1 = (if oo_status ord = Sent then st\<lparr>m_pending_new := dec (m_pending_new st)\<rparr> else st);
          st2 = st1\<lparr>m_pending_position_delta :=
                    m_pending_position_delta st1 - signed_qty (oo_side ord) (oo_leaves_qty ord)\<rparr>;
          st3 = set_order slot (ord\<lparr>oo_status := Rejected\<rparr>) st2
      in free_slot slot (oo_id ord) (st3\<lparr>m_rejects := m_rejects st3 + 1\<rparr>))"

definition on_execution :: "execution_report \<Rightarrow> oms \<Rightarrow> oms option" where
  "on_execution r st =
     (case map_find (m_order_map st) (xr_order_id r) of
        None \<Rightarrow> Some st
      | Some p \<Rightarrow>
          let slot = ucast (e_slot (m_order_map st p))
          in if slot \<ge> MAX_ORDERS then None
             else
               let ord = m_orders st slot
               in case xr_exec_type r of
                    NewAck \<Rightarrow> on_new_ack slot ord st
                  | Fill \<Rightarrow> on_fill r slot ord st
                  | PartialFill \<Rightarrow> on_fill r slot ord st
                  | CancelAck \<Rightarrow> on_cancel_ack slot ord st
                  | Reject \<Rightarrow> on_reject slot ord st
                  | CancelReject \<Rightarrow> Some st
                  | OtherExec _ \<Rightarrow> Some st)"

section \<open>Profit\<close>

definition liquidation_pnl :: "oms \<Rightarrow> double" where
  "liquidation_pnl st = Fin False 0"

definition mark_pnl :: "double \<Rightarrow> oms \<Rightarrow> double" where
  "mark_pnl current_mid st = fmul (dbl_of_i32 (m_position st)) current_mid"

definition total_pnl :: "double \<Rightarrow> oms \<Rightarrow> double" where
  "total_pnl current_mid st =
     fadd (fadd (m_trading_cash st) (liquidation_pnl st)) (mark_pnl current_mid st)"

definition total_failed_orders :: "oms \<Rightarrow> u64" where
  "total_failed_orders st = m_rejects st + m_missed_ioc st"

end
