(* ===== verification/OMS_Inv.thy ===== *)
theory OMS_Inv
  imports OMS
begin

text \<open>
  Memory safety of the order management system. The invariant says that the order slots below
  \<open>next_fresh_slot_\<close> are split between the free stack and the index, without overlap: no slot is
  leaked or handed out twice, the free stack cannot overflow, and the index never names a slot
  outside the array. It holds whatever reports arrive.
\<close>

abbreviation slot_map :: "oms \<Rightarrow> u64 \<Rightarrow> u32 option" where
  "slot_map st \<equiv> lookup (m_order_map st)"

definition used_slots :: "oms \<Rightarrow> nat set" where
  "used_slots st = unat ` ran (slot_map st)"

definition free_at :: "oms \<Rightarrow> nat \<Rightarrow> nat" where
  "free_at st i = unat (m_free_stack st (of_nat i))"

definition free_slots :: "oms \<Rightarrow> nat set" where
  "free_slots st = free_at st ` {..<unat (m_free_top st)}"

definition active :: "order_status \<Rightarrow> bool" where
  "active s = (s = Sent \<or> s = Live \<or> s = PartiallyFilled)"

definition slots_inv :: "oms \<Rightarrow> bool" where
  "slots_inv st =
     (map_inv (m_order_map st) \<and>
      unat (m_free_top st) \<le> unat (m_next_fresh_slot st) \<and> unat (m_next_fresh_slot st) \<le> 4096 \<and>
      inj_on (free_at st) {..<unat (m_free_top st)} \<and>
      inj_on (slot_map st) (dom (slot_map st)) \<and>
      used_slots st \<inter> free_slots st = {} \<and>
      used_slots st \<union> free_slots st = {..<unat (m_next_fresh_slot st)} \<and>
      (\<forall>oid \<in> dom (slot_map st). oid < m_next_id st))"

definition order_of :: "oms \<Rightarrow> u64 \<Rightarrow> oms_order option" where
  "order_of st oid = map_option (\<lambda>s. m_orders st (ucast s)) (slot_map st oid)"

definition orders_inv :: "oms \<Rightarrow> bool" where
  "orders_inv st =
     (\<forall>oid ord. order_of st oid = Some ord \<longrightarrow> oo_id ord = oid \<and> active (oo_status ord))"

definition oms_inv :: "oms \<Rightarrow> bool" where
  "oms_inv st = (slots_inv st \<and> orders_inv st)"

lemma slots_invD:
  assumes "slots_inv st"
  shows "map_inv (m_order_map st)"
    "unat (m_free_top st) \<le> unat (m_next_fresh_slot st)" "unat (m_next_fresh_slot st) \<le> 4096"
    "inj_on (free_at st) {..<unat (m_free_top st)}" "inj_on (slot_map st) (dom (slot_map st))"
    "used_slots st \<inter> free_slots st = {}"
    "used_slots st \<union> free_slots st = {..<unat (m_next_fresh_slot st)}"
    "\<And>oid. oid \<in> dom (slot_map st) \<Longrightarrow> oid < m_next_id st"
  using assms by (auto simp: slots_inv_def)

lemma oms_inv_init: "oms_inv init_oms"
  by (simp add: oms_inv_def slots_inv_def orders_inv_def order_of_def init_oms_def map_inv_empty
      lookup_empty used_slots_def free_slots_def)

text \<open>The slot invariant only reads the index, the free stack and the counters.\<close>

definition core :: "oms \<Rightarrow> order_map \<times> (u64 \<Rightarrow> u64) \<times> u64 \<times> u64 \<times> u64" where
  "core st = (m_order_map st, m_free_stack st, m_free_top st, m_next_fresh_slot st, m_next_id st)"

lemma slots_inv_core: "core st' = core st \<Longrightarrow> slots_inv st' = slots_inv st"
  by (simp add: core_def slots_inv_def used_slots_def free_slots_def free_at_def [abs_def])

section \<open>Counting\<close>

lemma ran_image: "ran m = (the \<circ> m) ` dom m"
  by (force simp: ran_def dom_def image_iff)

lemma card_used:
  assumes "slots_inv st"
  shows "card (used_slots st) = card (dom (slot_map st))"
proof -
  have "inj_on (the \<circ> slot_map st) (dom (slot_map st))"
    using slots_invD(5) [OF assms] by (auto simp: inj_on_def dom_def)
  then have "card (ran (slot_map st)) = card (dom (slot_map st))"
    unfolding ran_image by (rule card_image)
  moreover have "card (used_slots st) = card (ran (slot_map st))"
    unfolding used_slots_def by (rule card_image) (auto simp: inj_on_def word_unat_eq_iff)
  ultimately show ?thesis by simp
qed

lemma slot_accounting:
  assumes "slots_inv st"
  shows "card (dom (slot_map st)) + unat (m_free_top st) = unat (m_next_fresh_slot st)"
proof -
  have fin: "finite (used_slots st)" "finite (free_slots st)"
    using slots_invD(7) [OF assms] by (metis finite_Un finite_lessThan)+
  have "card (free_slots st) = unat (m_free_top st)"
    unfolding free_slots_def using card_image [OF slots_invD(4) [OF assms]] by simp
  with card_Un_disjoint [OF fin slots_invD(6) [OF assms]] card_used [OF assms]
  show ?thesis by (simp add: slots_invD(7) [OF assms])
qed

lemma room:
  assumes "slots_inv st"
  shows "card (dom (slot_map st)) < 8191"
  using slot_accounting [OF assms] slots_invD(3) [OF assms] by simp

lemma used_less:
  assumes "slots_inv st" "slot_map st oid = Some s"
  shows "unat s < unat (m_next_fresh_slot st)" "unat s < 4096"
proof -
  have "unat s \<in> used_slots st" using assms(2) by (auto simp: used_slots_def intro: ranI)
  then show "unat s < unat (m_next_fresh_slot st)" using slots_invD(7) [OF assms(1)] by blast
  then show "unat s < 4096" using slots_invD(3) [OF assms(1)] by simp
qed

lemma dom_pos:
  assumes "slots_inv st" "slot_map st oid = Some s"
  shows "0 < card (dom (slot_map st))"
proof -
  have "oid \<in> dom (slot_map st)" using assms(2) by blast
  with om.finite_look [OF slots_invD(1) [OF assms(1)]] show ?thesis by (auto simp only: card_gt_0_iff)
qed

lemma free_room:
  assumes "slots_inv st" "slot_map st oid = Some s"
  shows "unat (m_free_top st) < 4096"
  using slot_accounting [OF assms(1)] slots_invD(3) [OF assms(1)] dom_pos [OF assms] by linarith

section \<open>Giving a slot back\<close>

lemma ran_remove:
  assumes "inj_on m (dom m)" "m k = Some v"
  shows "ran (m(k := None)) = ran m - {v}"
proof -
  have "m a = Some v \<longleftrightarrow> a = k" for a using assms by (auto simp: inj_on_def dom_def)
  then show ?thesis unfolding ran_def by (simp add: set_eq_iff) (metis option.inject)
qed

lemma ucast_slot: "unat (ucast s :: u64) = unat (s :: u32)"
  by (simp add: unsigned_ucast_eq take_bit_nat_eq_self_iff order_less_trans [OF unsigned_less])

lemma free_slot_inv:
  assumes inv: "slots_inv st" and s: "slot_map st oid = Some s"
  shows "\<exists>st'. free_slot (ucast s) oid st = Some st' \<and> slots_inv st' \<and>
           slot_map st' = (slot_map st)(oid := None) \<and> m_orders st' = m_orders st"
proof -
  note I = slots_invD [OF inv]
  obtain m where m: "map_remove oid (m_order_map st) = Some m" "map_inv m"
    "lookup m = (slot_map st)(oid := None)"
    using om.rem_ok [OF I(1), of oid] by blast
  note top = free_room [OF inv s] and dom_pos = dom_pos [OF inv s]
  define st' where "st' = st\<lparr>m_order_map := m,
    m_free_stack := (m_free_stack st)(m_free_top st := ucast s), m_free_top := m_free_top st + 1\<rparr>"
  have run: "free_slot (ucast s) oid st = Some st'"
    using top m(1) by (simp add: free_slot_def st'_def MAX_ORDERS_def word_less_nat_alt)
  have top': "unat (m_free_top st') = Suc (unat (m_free_top st))"
    using top by (simp add: st'_def unat_word_ariths)
  have at: "free_at st' i = (if i = unat (m_free_top st) then unat s else free_at st i)"
    if "i \<le> unat (m_free_top st)" for i
  proof -
    have "(of_nat i = m_free_top st) = (i = unat (m_free_top st))"
      using that top by (simp add: word_unat_eq_iff unat_of_nat)
    then show ?thesis by (simp add: free_at_def st'_def ucast_slot)
  qed
  have "unat s \<in> used_slots st" using s by (auto simp: used_slots_def intro: ranI)
  with I(6) have new: "unat s \<notin> free_slots st" by blast
  have F: "free_slots st' = insert (unat s) (free_slots st)"
    unfolding free_slots_def top' by (auto simp: at lessThan_Suc image_iff)
  have U: "used_slots st' = used_slots st - {unat s}"
  proof -
    have "used_slots st' = unat ` (ran (slot_map st) - {s})"
      using ran_remove [OF I(5) s] by (simp add: used_slots_def st'_def m(3))
    then show ?thesis by (auto simp: used_slots_def word_unat_eq_iff)
  qed
  have ne: "free_at st i \<noteq> unat s" if "i < unat (m_free_top st)" for i
    using new that unfolding free_slots_def by (metis imageI lessThan_iff)
  have "inj_on (free_at st') {..<unat (m_free_top st')}"
  proof (rule inj_onI)
    fix i j
    assume ij: "i \<in> {..<unat (m_free_top st')}" "j \<in> {..<unat (m_free_top st')}"
      and eq: "free_at st' i = free_at st' j"
    then have le: "i \<le> unat (m_free_top st)" "j \<le> unat (m_free_top st)" by (auto simp: top')
    with eq ne [of i] ne [of j] inj_onD [OF I(4), of i j] show "i = j"
      by (auto simp: at split: if_splits)
  qed
  moreover have "inj_on (slot_map st') (dom (slot_map st'))"
    using om.rem_inj [OF I(1) m(1) I(5)] by (simp add: st'_def)
  moreover have "unat (m_free_top st') \<le> unat (m_next_fresh_slot st')"
    using slot_accounting [OF inv] dom_pos top' by (simp add: st'_def)
  moreover have "used_slots st' \<inter> free_slots st' = {}" using I(6) unfolding U F by blast
  moreover have "used_slots st' \<union> free_slots st' = {..<unat (m_next_fresh_slot st)}"
    using I(7) \<open>unat s \<in> used_slots st\<close> unfolding U F by blast
  moreover have "map_inv (m_order_map st')" "m_next_fresh_slot st' = m_next_fresh_slot st"
    "\<forall>oid \<in> dom (slot_map st'). oid < m_next_id st'"
    using m(2,3) I(3,8) by (simp_all add: st'_def)
  ultimately have "slots_inv st'" unfolding slots_inv_def using I(3) by simp
  with run m(3) show ?thesis by (auto simp: st'_def)
qed

section \<open>Taking a slot\<close>

definition taken :: "oms \<Rightarrow> u64 \<Rightarrow> oms \<Rightarrow> bool" where
  "taken st slot st' =
     (\<not> slot \<ge> MAX_ORDERS \<and> unat slot \<notin> used_slots st \<and>
      unat (m_free_top st') \<le> unat (m_next_fresh_slot st') \<and> unat (m_next_fresh_slot st') \<le> 4096 \<and>
      inj_on (free_at st') {..<unat (m_free_top st')} \<and>
      free_slots st' = free_slots st - {unat slot} \<and>
      insert (unat slot) {..<unat (m_next_fresh_slot st)} = {..<unat (m_next_fresh_slot st')} \<and>
      st' = st\<lparr>m_free_top := m_free_top st', m_next_fresh_slot := m_next_fresh_slot st'\<rparr>)"

lemma alloc_slot_inv:
  assumes inv: "slots_inv st" and a: "alloc_slot st = (slot, st')"
  shows "slot \<ge> MAX_ORDERS \<and> st' = st \<or> taken st slot st'"
proof -
  note I = slots_invD [OF inv]
  consider (reuse) "m_free_top st > 0" "slot = m_free_stack st (m_free_top st - 1)"
      "st' = st\<lparr>m_free_top := m_free_top st - 1\<rparr>"
    | (fresh) "m_free_top st = 0" "m_next_fresh_slot st < MAX_ORDERS" "slot = m_next_fresh_slot st"
      "st' = st\<lparr>m_next_fresh_slot := m_next_fresh_slot st + 1\<rparr>"
    | (full) "slot = MAX_ORDERS" "st' = st"
    using a by (auto simp: alloc_slot_def Let_def word_gt_0_iff split: if_splits)
  then show ?thesis
  proof cases
    case reuse
    define n where "n = unat (m_free_top st) - 1"
    have n: "unat (m_free_top st) = Suc n" using reuse(1) by (simp add: n_def word_less_nat_alt)
    have top2: "unat (m_free_top st - 1) = n"
      using reuse(1) unat_minus_one [of "m_free_top st"] by (simp add: n_def word_gt_0_iff)
    have top: "m_free_top st - 1 = of_nat n" unfolding top2 [symmetric] by simp
    have slot: "unat slot = free_at st n" by (simp add: reuse(2) free_at_def top)
    have F: "free_slots st = insert (free_at st n) (free_at st ` {..<n})"
      by (simp add: free_slots_def n lessThan_Suc)
    have at: "free_at (st\<lparr>m_free_top := x\<rparr>) = free_at st" for x by (simp add: free_at_def [abs_def])
    have "free_at st n \<notin> free_at st ` {..<n}"
    proof
      assume "free_at st n \<in> free_at st ` {..<n}"
      then obtain i where "i < n" "free_at st n = free_at st i" by blast
      with inj_onD [OF I(4), of n i] show False by (simp add: n)
    qed
    then have F': "free_slots st' = free_slots st - {unat slot}"
      by (simp add: F slot) (simp add: free_slots_def at reuse(3) top2)
    have "unat slot \<in> free_slots st" by (simp add: F slot)
    then have "unat slot < unat (m_next_fresh_slot st)" "unat slot \<notin> used_slots st"
      using I(6,7) by blast+
    moreover have "inj_on (free_at st') {..<unat (m_free_top st')}"
      using I(4) by (auto simp: at reuse(3) top2 n intro: inj_on_subset)
    ultimately show ?thesis
      using I(2,3) F' n top2
      by (auto simp: taken_def reuse(3) MAX_ORDERS_def word_le_nat_alt insert_absorb)
  next
    case fresh
    have S: "unat (m_next_fresh_slot st + 1) = Suc (unat (m_next_fresh_slot st))"
      using fresh(2) by (simp add: MAX_ORDERS_def word_less_nat_alt unat_word_ariths)
    have "free_slots st = {}" "free_slots st' = {}" by (simp_all add: free_slots_def fresh(1,4))
    moreover have "unat slot \<notin> used_slots st" using I(7) fresh(3) by blast
    ultimately show ?thesis
      using fresh S by (auto simp: taken_def MAX_ORDERS_def word_less_nat_alt word_le_nat_alt lessThan_Suc)
  next
    case full
    then show ?thesis by simp
  qed
qed

lemma send_new_cases:
  assumes "send_new s price qty ty st = (res, st')"
  obtains (refused) "res = None" "st' = st" "\<not> check_risk s price qty st"
    | (full) st1 slot where "check_risk s price qty st" "alloc_slot st = (slot, st1)"
        "slot \<ge> MAX_ORDERS" "res = None" "st' = st1"
    | (sent) st1 slot ord where "check_risk s price qty st" "alloc_slot st = (slot, st1)"
        "\<not> slot \<ge> MAX_ORDERS" "res = Some slot"
        "ord = (m_orders st1 slot)\<lparr>oo_id := m_next_id st1, oo_price := price, oo_qty := qty,
           oo_filled_qty := 0, oo_leaves_qty := qty, oo_side := s, oo_type := ty, oo_status := Sent,
           oo_avg_fill_price := Fin False 0\<rparr>"
        "st' = st1\<lparr>m_next_id := m_next_id st1 + 1, m_orders := (m_orders st1)(slot := ord),
           m_order_map := map_insert (m_next_id st1) (ucast slot) (m_order_map st1),
           m_order_count := m_order_count st1 + 1, m_pending_new := m_pending_new st1 + 1,
           m_pending_position_delta := m_pending_position_delta st1 + signed_qty s qty\<rparr>"
proof (cases "check_risk s price qty st")
  case False
  with assms show ?thesis using refused by (auto simp: send_new_def)
next
  case True
  obtain slot st1 where a: "alloc_slot st = (slot, st1)" by (cases "alloc_slot st")
  show ?thesis
  proof (cases "slot \<ge> MAX_ORDERS")
    case True
    with \<open>check_risk s price qty st\<close> a assms show ?thesis using full by (auto simp: send_new_def)
  next
    case False
    show ?thesis
      by (rule sent [OF \<open>check_risk s price qty st\<close> a False])
         (use \<open>check_risk s price qty st\<close> a False assms in \<open>auto simp: send_new_def Let_def\<close>)
  qed
qed

lemma oms_invD: "oms_inv st \<Longrightarrow> slots_inv st" "oms_inv st \<Longrightarrow> orders_inv st"
  by (simp_all add: oms_inv_def)

definition placed :: "side \<Rightarrow> double \<Rightarrow> u32 \<Rightarrow> order_type \<Rightarrow> oms \<Rightarrow> u64 \<Rightarrow> oms \<Rightarrow> bool" where
  "placed s price qty ty st slot st' =
     (\<exists>ord. unat slot < 4096 \<and> m_orders st' slot = ord \<and>
       order_of st (m_next_id st) = None \<and> order_of st' = (order_of st)(m_next_id st \<mapsto> ord) \<and>
       oo_id ord = m_next_id st \<and> oo_status ord = Sent \<and> oo_side ord = s \<and> oo_qty ord = qty \<and>
       oo_price ord = price \<and> oo_type ord = ty \<and> oo_filled_qty ord = 0 \<and> oo_leaves_qty ord = qty)"

lemma send_new_inv:
  assumes inv: "oms_inv st" and n: "m_next_id st + 1 \<noteq> 0"
    and s: "send_new s price qty ty st = (res, st')"
  shows "oms_inv st' \<and> (case res of None \<Rightarrow> st' = st | Some slot \<Rightarrow> placed s price qty ty st slot st')"
  using s
proof (cases rule: send_new_cases)
  case refused
  then show ?thesis using inv by simp
next
  case (full st1 slot)
  with alloc_slot_inv [OF oms_invD(1) [OF inv] full(2)] inv show ?thesis by (auto simp: taken_def)
next
  case (sent st1 k ord)
  note I = slots_invD [OF oms_invD(1) [OF inv]]
  from alloc_slot_inv [OF oms_invD(1) [OF inv] sent(2)] sent(3) have T: "taken st k st1" by blast
  obtain ft nf where st1: "st1 = st\<lparr>m_free_top := ft, m_next_fresh_slot := nf\<rparr>"
    using T unfolding taken_def by blast
  have "m_next_id st \<notin> dom (slot_map st)" using I(8) [of "m_next_id st"] by blast
  then have fresh: "slot_map st (m_next_id st) = None" by (simp only: domIff not_not)
  from om.ins_ok [OF I(1) this room [OF oms_invD(1) [OF inv]], of "ucast k"]
  have m: "map_inv (m_order_map st')" "slot_map st' = (slot_map st)(m_next_id st \<mapsto> ucast k)"
    by (simp_all add: sent(6) st1)
  have k: "unat k < 4096" using sent(3) by (simp add: MAX_ORDERS_def word_le_nat_alt)
  have uk1: "unat (ucast k :: u32) = unat k"
    using k by (simp add: unsigned_ucast_eq take_bit_nat_eq_self_iff)
  then have uk: "unat (ucast k :: u32) = unat k" "(ucast (ucast k :: u32) :: u64) = k"
    using ucast_slot [of "ucast k"] by (metis word_unat_eq_iff)+
  have new: "ucast k \<notin> ran (slot_map st)"
    using T uk(1) by (auto simp: taken_def used_slots_def image_iff)
  have U: "used_slots st' = insert (unat k) (used_slots st)"
    using fresh by (simp add: used_slots_def m(2) ran_map_upd uk)
  have F: "free_slots st' = free_slots st - {unat k}"
    using T by (simp add: taken_def sent(6) free_slots_def free_at_def [abs_def])
  have "slots_inv st'"
    unfolding slots_inv_def
  proof (intro conjI)
    show "inj_on (slot_map st') (dom (slot_map st'))"
      using om.ins_inj [OF I(1) fresh room [OF oms_invD(1) [OF inv]] I(5) new]
      by (simp add: sent(6) st1)
    show "\<forall>oid \<in> dom (slot_map st'). oid < m_next_id st'"
    proof -
      have "oid < m_next_id st + 1" if "oid \<in> insert (m_next_id st) (dom (slot_map st))" for oid
        using that I(8) by (intro word_le_less_succ [OF n]) (auto intro: less_imp_le)
      moreover have "m_next_id st' = m_next_id st + 1" by (simp add: sent(6) st1)
      ultimately show ?thesis unfolding m(2) by simp
    qed
  qed (use m T U F I in \<open>auto simp: taken_def sent(6) free_at_def [abs_def]\<close>)
  moreover have O: "order_of st' = (order_of st)(m_next_id st \<mapsto> ord)"
  proof
    fix oid
    have "m_orders st' (ucast s) = m_orders st (ucast s)" if "slot_map st oid = Some s" for s
    proof -
      have "s \<noteq> ucast k" using new that by (auto intro: ranI)
      then have "ucast s \<noteq> k" using uk ucast_slot [of s] by (metis word_unat_eq_iff)
      then show ?thesis by (simp add: sent(6) st1)
    qed
    moreover have "m_orders st' k = ord" by (simp add: sent(6))
    ultimately show "order_of st' oid = ((order_of st)(m_next_id st \<mapsto> ord)) oid"
      by (cases "slot_map st oid") (auto simp: order_of_def m(2) uk)
  qed
  moreover have "orders_inv st'"
    using oms_invD(2) [OF inv] sent(5) by (auto simp: orders_inv_def O st1 active_def)
  moreover have "order_of st (m_next_id st) = None" using fresh by (simp add: order_of_def)
  moreover have "m_orders st' k = ord" by (simp add: sent(6))
  ultimately show ?thesis
    using k sent(5) by (simp add: sent(4) oms_inv_def placed_def st1)
qed

section \<open>Execution reports\<close>

text \<open>What a report does to the order it names: the new order, or \<open>None\<close> when it leaves the system.\<close>

definition report_effect :: "execution_report \<Rightarrow> oms_order \<Rightarrow> oms_order option" where
  "report_effect r ord =
     (case xr_exec_type r of
        NewAck \<Rightarrow> Some (if oo_status ord = Sent then ord\<lparr>oo_status := Live\<rparr> else ord)
      | Fill \<Rightarrow> (if oo_status (fill_order r ord) = Filled then None else Some (fill_order r ord))
      | PartialFill \<Rightarrow> (if oo_status (fill_order r ord) = Filled then None else Some (fill_order r ord))
      | CancelAck \<Rightarrow> None
      | Reject \<Rightarrow> None
      | CancelReject \<Rightarrow> Some ord
      | OtherExec _ \<Rightarrow> Some ord)"

lemma frame_simps [simp, oms_simps]:
  "core (accept_order st) = core st" "m_orders (accept_order st) = m_orders st"
  "core (set_order k ord st) = core st" "m_orders (set_order k ord st) = (m_orders st)(k := ord)"
  "core (apply_trading_fill s q p st) = core st" "m_orders (apply_trading_fill s q p st) = m_orders st"
  "core (count_fill s q b st) = core st" "m_orders (count_fill s q b st) = m_orders st"
  by (cases s; simp add: core_def accept_order_def set_order_def apply_trading_fill_def
      count_fill_def Let_def)+

lemma core_updates [simp, oms_simps]:
  "core (st\<lparr>m_pending_position_delta := d\<rparr>) = core st" "core (st\<lparr>m_live_orders := n\<rparr>) = core st"
  "core (st\<lparr>m_missed_ioc := n\<rparr>) = core st" "core (st\<lparr>m_cancels := n\<rparr>) = core st"
  "core (st\<lparr>m_pending_new := n\<rparr>) = core st" "core (st\<lparr>m_rejects := n\<rparr>) = core st"
  "core (st\<lparr>m_ref_price := p\<rparr>) = core st"
  by (simp_all add: core_def)

lemma core_slot_map: "core st' = core st \<Longrightarrow> slot_map st' = slot_map st"
  by (simp add: core_def)

lemma order_of_upd:
  assumes inv: "slots_inv st" and s: "slot_map st oid = Some k"
    and eq: "core st' = core st" "m_orders st' = (m_orders st)(ucast k := ord)"
  shows "order_of st' = (order_of st)(oid \<mapsto> ord)"
proof
  fix i
  have "ucast k' \<noteq> (ucast k :: u64)" if "slot_map st i = Some k'" "i \<noteq> oid" for k'
  proof -
    have "k' \<noteq> k" using slots_invD(5) [OF inv] s that by (auto simp: inj_on_def dom_def)
    then show ?thesis using ucast_slot [of k] ucast_slot [of k'] by (metis word_unat_eq_iff)
  qed
  then show "order_of st' i = ((order_of st)(oid \<mapsto> ord)) i"
    using s by (cases "slot_map st i") (auto simp: order_of_def core_slot_map [OF eq(1)] eq(2))
qed

lemma keep_order:
  assumes "slots_inv st" "slot_map st oid = Some k"
    and "core st' = core st" "m_orders st' = (m_orders st)(ucast k := ord)"
  shows "slots_inv st' \<and> order_of st' = (order_of st)(oid \<mapsto> ord)"
  using slots_inv_core [OF assms(3)] order_of_upd [OF assms] assms(1) by simp

lemma drop_order:
  assumes "slots_inv st" "slot_map st oid = Some k"
    and "core st1 = core st" "m_orders st1 = (m_orders st)(ucast k := ord)"
  shows "\<exists>st'. free_slot (ucast k) oid st1 = Some st' \<and> slots_inv st' \<and>
           order_of st' = (order_of st)(oid := None)"
proof -
  from keep_order [OF assms] have k: "slots_inv st1" "order_of st1 = (order_of st)(oid \<mapsto> ord)" by auto
  have "slot_map st1 oid = Some k" using core_slot_map [OF assms(3)] assms(2) by simp
  from free_slot_inv [OF k(1) this] obtain st' where
    st': "free_slot (ucast k) oid st1 = Some st'" "slots_inv st'"
      "slot_map st' = (slot_map st1)(oid := None)" "m_orders st' = m_orders st1" by blast
  then have "order_of st' = (order_of st1)(oid := None)" by (auto simp: order_of_def fun_eq_iff)
  with st' k(2) show ?thesis by auto
qed

lemma fill_order_fields [simp, oms_simps]:
  "oo_id (fill_order r ord) = oo_id ord" "oo_side (fill_order r ord) = oo_side ord"
  "oo_qty (fill_order r ord) = oo_qty ord" "oo_type (fill_order r ord) = oo_type ord"
  by (simp_all add: fill_order_def Let_def)

lemma fill_order_status:
  "oo_status (fill_order r ord) = Filled \<or> oo_status (fill_order r ord) = PartiallyFilled"
  by (simp add: fill_order_def Let_def)

lemma on_fill_inv:
  assumes inv: "slots_inv st" and k: "slot_map st (oo_id ord) = Some k" and act: "active (oo_status ord)"
  shows "\<exists>st'. on_fill r (ucast k) ord st = Some st' \<and> slots_inv st' \<and>
    order_of st' = (order_of st)(oo_id ord :=
      if oo_status (fill_order r ord) = Filled then None else Some (fill_order r ord))"
proof -
  obtain st5 where st5: "core st5 = core st" "m_orders st5 = (m_orders st)(ucast k := fill_order r ord)"
    and run: "on_fill r (ucast k) ord st =
      (if oo_status (fill_order r ord) = Filled
       then free_slot (ucast k) (oo_id ord) (st5\<lparr>m_live_orders := dec (m_live_orders st5)\<rparr>) else Some st5)"
    by (rule that [of "count_fill (oo_side ord) (xr_fill_qty r)
         (oo_filled_qty (fill_order r ord) = xr_fill_qty r)
         (apply_trading_fill (oo_side ord) (xr_fill_qty r) (xr_fill_price r)
           (let st2 = set_order (ucast k) (fill_order r ord)
              (if oo_status ord = Sent then accept_order st else st)
            in st2\<lparr>m_pending_position_delta :=
                 m_pending_position_delta st2 - signed_qty (oo_side ord) (xr_fill_qty r)\<rparr>))"])
       (use act in \<open>auto simp: on_fill_def active_def Let_def\<close>)
  show ?thesis
  proof (cases "oo_status (fill_order r ord) = Filled")
    case True
    from drop_order [OF inv k, of "st5\<lparr>m_live_orders := dec (m_live_orders st5)\<rparr>"] st5 run True
    show ?thesis by simp
  next
    case False
    from keep_order [OF inv k st5] run False show ?thesis by simp
  qed
qed

lemma on_execution_absent: "order_of st (xr_order_id r) = None \<Longrightarrow> on_execution r st = Some st"
  by (auto simp: order_of_def lookup_def on_execution_def split: option.splits)

lemma on_execution_found:
  assumes inv: "oms_inv st" and ord: "order_of st (xr_order_id r) = Some ord"
  shows "\<exists>st'. on_execution r st = Some st' \<and> oms_inv st' \<and>
           order_of st' = (order_of st)(xr_order_id r := report_effect r ord)"
proof -
  note I = oms_invD [OF inv]
  obtain p k where p: "map_find (m_order_map st) (xr_order_id r) = Some p"
    "e_slot (m_order_map st p) = k" and k: "slot_map st (xr_order_id r) = Some k"
    "ord = m_orders st (ucast k)"
    using ord by (auto simp: order_of_def lookup_def split: option.splits)
  have o: "oo_id ord = xr_order_id r" "active (oo_status ord)"
    using I(2) ord by (auto simp: orders_inv_def)
  have kk: "slot_map st (oo_id ord) = Some k" using k o(1) by simp
  have bound: "\<not> (ucast k :: u64) \<ge> MAX_ORDERS"
    using used_less(2) [OF I(1) k(1)] by (simp add: MAX_ORDERS_def word_le_nat_alt ucast_slot)
  have same: "slots_inv st \<and> order_of st = (order_of st)(oo_id ord \<mapsto> ord)"
    using I(1) ord o(1) by (simp add: fun_upd_idem)
  have eff: "report_effect r ord = None \<or>
      (\<exists>ord'. report_effect r ord = Some ord' \<and> oo_id ord' = oo_id ord \<and> active (oo_status ord'))"
    using o(2) fill_order_status [of r ord]
    by (auto simp: report_effect_def active_def split: exec_type.splits)
  have "\<exists>st'. on_execution r st = Some st' \<and> slots_inv st' \<and>
           order_of st' = (order_of st)(oo_id ord := report_effect r ord)"
  proof (cases "xr_exec_type r")
    case NewAck
    show ?thesis
    proof (cases "oo_status ord = Sent")
      case True
      from keep_order [OF I(1) kk, of "accept_order (set_order (ucast k) (ord\<lparr>oo_status := Live\<rparr>) st)"]
      show ?thesis using p bound NewAck True k(2)
        by (simp add: on_execution_def on_new_ack_def report_effect_def Let_def)
    next
      case False
      show ?thesis using same p bound NewAck False k(2)
        by (simp add: on_execution_def on_new_ack_def report_effect_def Let_def)
    qed
  next
    case Fill
    show ?thesis using on_fill_inv [OF I(1) kk o(2), of r] p bound Fill
      by (simp add: on_execution_def report_effect_def Let_def k(2) [symmetric])
  next
    case PartialFill
    show ?thesis using on_fill_inv [OF I(1) kk o(2), of r] p bound PartialFill
      by (simp add: on_execution_def report_effect_def Let_def k(2) [symmetric])
  next
    case CancelAck
    then show ?thesis using p bound k(2)
        drop_order [OF I(1) kk, where ord = "ord\<lparr>oo_status := Cancelled\<rparr>"]
      by (simp add: on_execution_def on_cancel_ack_def report_effect_def Let_def)
  next
    case Reject
    then show ?thesis using p bound k(2)
        drop_order [OF I(1) kk, where ord = "ord\<lparr>oo_status := Rejected\<rparr>"]
      by (simp add: on_execution_def on_reject_def report_effect_def Let_def)
  next
    case CancelReject
    then show ?thesis using same p bound by (simp add: on_execution_def report_effect_def Let_def)
  next
    case (OtherExec b)
    then show ?thesis using same p bound by (simp add: on_execution_def report_effect_def Let_def)
  qed
  then obtain st' where st': "on_execution r st = Some st'" "slots_inv st'"
    "order_of st' = (order_of st)(oo_id ord := report_effect r ord)" by blast
  have "orders_inv st'" using I(2) eff by (auto simp: orders_inv_def st'(3))
  with st' o(1) show ?thesis by (auto simp: oms_inv_def)
qed

lemma on_execution_inv:
  assumes "oms_inv st"
  shows "\<exists>st'. on_execution r st = Some st' \<and> oms_inv st' \<and>
           order_of st' = (order_of st)(xr_order_id r :=
             case order_of st (xr_order_id r) of None \<Rightarrow> None | Some ord \<Rightarrow> report_effect r ord)"
proof (cases "order_of st (xr_order_id r)")
  case None
  with on_execution_absent [OF this] assms show ?thesis by (simp add: fun_upd_idem)
next
  case (Some ord)
  with on_execution_found [OF assms Some] show ?thesis by simp
qed

end
