(* ===== verification/OMS_Ledger.thy ===== *)
theory OMS_Ledger
  imports OMS_Inv
begin

text \<open>
  Accounting of the order management system: which counters and which exposure the reports move,
  what holds of them when the exchange keeps to its protocol, and what the risk check guarantees.
\<close>

section \<open>Sequences of calls\<close>

datatype oms_op = SendNew side double u32 order_type | Report execution_report | SetReference double

fun oms_step :: "oms_op \<Rightarrow> oms \<Rightarrow> oms option" where
  "oms_step (SendNew s price qty ty) st = Some (snd (send_new s price qty ty st))"
| "oms_step (Report r) st = on_execution r st"
| "oms_step (SetReference price) st = Some (set_reference_price price st)"

fun run_oms :: "oms_op list \<Rightarrow> oms \<Rightarrow> oms option" where
  "run_oms [] st = Some st"
| "run_oms (op # ops) st = (case oms_step op st of None \<Rightarrow> None | Some st' \<Rightarrow> run_oms ops st')"

lemma send_new_next_id:
  "m_next_id (snd (send_new s price qty ty st)) = m_next_id st \<or>
   m_next_id (snd (send_new s price qty ty st)) = m_next_id st + 1"
  by (auto simp: send_new_def alloc_slot_def Let_def)

lemma free_slot_keeps:
  assumes "free_slot k oid st = Some st'"
  shows "st' = st\<lparr>m_order_map := m_order_map st', m_free_stack := m_free_stack st',
      m_free_top := m_free_top st'\<rparr>"
  using assms by (auto simp: free_slot_def split: option.splits if_splits)

lemma set_reference_inv [simp]:
  "oms_inv (set_reference_price p st) = oms_inv st" "order_of (set_reference_price p st) = order_of st"
  by (simp_all add: set_reference_price_def oms_inv_def slots_inv_def orders_inv_def used_slots_def
      free_slots_def free_at_def [abs_def] order_of_def [abs_def])

section \<open>The exposure and the counters\<close>

text \<open>Orders awaiting acknowledgement, orders working, position still to come, position.\<close>

record ledger =
  awaiting :: u64
  working :: u64
  to_come :: i32
  held :: i32

definition ledger_of :: "oms \<Rightarrow> ledger" where
  "ledger_of st = \<lparr>awaiting = m_pending_new st, working = m_live_orders st,
     to_come = m_pending_position_delta st, held = m_position st\<rparr>"

definition ack_ledger :: "oms_order \<Rightarrow> ledger \<Rightarrow> ledger" where
  "ack_ledger ord l =
     (if oo_status ord = Sent then l\<lparr>awaiting := dec (awaiting l), working := working l + 1\<rparr> else l)"

definition report_ledger :: "execution_report \<Rightarrow> oms_order \<Rightarrow> ledger \<Rightarrow> ledger" where
  "report_ledger r ord l =
     (let fill = (let l1 = ack_ledger ord l; d = signed_qty (oo_side ord) (xr_fill_qty r)
                  in l1\<lparr>to_come := to_come l1 - d, held := held l1 + d,
                       working := (if oo_status (fill_order r ord) = Filled
                                   then dec (working l1) else working l1)\<rparr>);
          rest = signed_qty (oo_side ord) (oo_leaves_qty ord)
      in case xr_exec_type r of
           NewAck \<Rightarrow> ack_ledger ord l
         | Fill \<Rightarrow> fill
         | PartialFill \<Rightarrow> fill
         | CancelAck \<Rightarrow> l\<lparr>working := dec (working l), to_come := to_come l - rest\<rparr>
         | Reject \<Rightarrow>
             l\<lparr>awaiting := (if oo_status ord = Sent then dec (awaiting l) else awaiting l),
               to_come := to_come l - rest\<rparr>
         | CancelReject \<Rightarrow> l
         | OtherExec _ \<Rightarrow> l)"

lemma ledger_of_updates [simp, oms_simps]:
  "ledger_of (accept_order st) =
     (ledger_of st)\<lparr>awaiting := dec (m_pending_new st), working := m_live_orders st + 1\<rparr>"
  "ledger_of (set_order k ord st) = ledger_of st"
  "ledger_of (count_fill s q b st) = ledger_of st"
  "ledger_of (apply_trading_fill s q p st) = (ledger_of st)\<lparr>held := m_position st + signed_qty s q\<rparr>"
  by (cases s; simp add: ledger_of_def accept_order_def set_order_def count_fill_def
      apply_trading_fill_def signed_qty_def Let_def)+

lemma ledger_free_slot:
  assumes "free_slot k oid st = Some st'"
  shows "ledger_of st' = ledger_of st"
  by (subst free_slot_keeps [OF assms]) (simp add: ledger_of_def)

lemma ledger_fields:
  "m_pending_new st = awaiting (ledger_of st)" "m_live_orders st = working (ledger_of st)"
  "m_pending_position_delta st = to_come (ledger_of st)" "m_position st = held (ledger_of st)"
  by (simp_all add: ledger_of_def)

lemma ledger_upd [simp]:
  "ledger_of (st\<lparr>m_pending_new := n\<rparr>) = (ledger_of st)\<lparr>awaiting := n\<rparr>"
  "ledger_of (st\<lparr>m_live_orders := n\<rparr>) = (ledger_of st)\<lparr>working := n\<rparr>"
  "ledger_of (st\<lparr>m_pending_position_delta := d\<rparr>) = (ledger_of st)\<lparr>to_come := d\<rparr>"
  "ledger_of (st\<lparr>m_missed_ioc := n\<rparr>) = ledger_of st" "ledger_of (st\<lparr>m_cancels := n\<rparr>) = ledger_of st"
  "ledger_of (st\<lparr>m_rejects := n\<rparr>) = ledger_of st"
  by (simp_all add: ledger_of_def)

lemma on_fill_ledger:
  assumes "on_fill r k ord st = Some st'" "active (oo_status ord)"
    and "xr_exec_type r = Fill \<or> xr_exec_type r = PartialFill"
  shows "ledger_of st' = report_ledger r ord (ledger_of st)"
proof -
  have "report_ledger r ord (ledger_of st) =
    (let l1 = ack_ledger ord (ledger_of st); d = signed_qty (oo_side ord) (xr_fill_qty r)
     in l1\<lparr>to_come := to_come l1 - d, held := held l1 + d,
           working := (if oo_status (fill_order r ord) = Filled then dec (working l1) else working l1)\<rparr>)"
    using assms(3) by (auto simp: report_ledger_def Let_def)
  with assms(1,2) show ?thesis
    by (auto simp: on_fill_def active_def Let_def ack_ledger_def ledger_fields
        dest!: ledger_free_slot split: if_splits)
qed

lemma on_execution_ledger:
  assumes inv: "oms_inv st" and run: "on_execution r st = Some st'"
    and ord: "order_of st (xr_order_id r) = Some ord"
  shows "ledger_of st' = report_ledger r ord (ledger_of st)"
proof -
  obtain p k where p: "map_find (m_order_map st) (xr_order_id r) = Some p"
    "e_slot (m_order_map st p) = k" and k: "m_orders st (ucast k) = ord"
    using ord by (auto simp: order_of_def lookup_def split: option.splits)
  have act: "active (oo_status ord)" using oms_invD(2) [OF inv] ord by (auto simp: orders_inv_def)
  have bound: "\<not> (ucast k :: u64) \<ge> MAX_ORDERS" using run p by (auto simp: on_execution_def Let_def)
  show ?thesis
  proof (cases "xr_exec_type r")
    case NewAck
    with run p bound k show ?thesis
      by (auto simp: on_execution_def on_new_ack_def report_ledger_def ack_ledger_def Let_def
          ledger_fields split: if_splits)
  next
    case CancelAck
    with run p bound k show ?thesis
      by (auto simp: on_execution_def on_cancel_ack_def report_ledger_def Let_def ledger_fields
          dest!: ledger_free_slot split: if_splits)
  next
    case Reject
    with run p bound k show ?thesis
      by (auto simp: on_execution_def on_reject_def report_ledger_def Let_def ledger_fields
          dest!: ledger_free_slot split: if_splits)
  qed (use run p bound k act in \<open>auto simp: on_execution_def report_ledger_def Let_def
         dest!: on_fill_ledger split: if_splits\<close>)
qed

section \<open>An exchange that keeps to its protocol\<close>

text \<open>
  A full fill fills what is left, a partial fill at most that, only acknowledged orders are
  cancelled and only unacknowledged ones rejected.
\<close>

definition protocol :: "execution_report \<Rightarrow> oms_order \<Rightarrow> bool" where
  "protocol r ord =
     (case xr_exec_type r of
        Fill \<Rightarrow> xr_fill_qty r = oo_leaves_qty ord
      | PartialFill \<Rightarrow> xr_fill_qty r \<le> oo_leaves_qty ord
      | CancelAck \<Rightarrow> oo_status ord \<noteq> Sent
      | Reject \<Rightarrow> oo_status ord = Sent
      | _ \<Rightarrow> True)"

definition balanced :: "oms_order \<Rightarrow> bool" where
  "balanced ord = (unat (oo_filled_qty ord) + unat (oo_leaves_qty ord) = unat (oo_qty ord))"

definition is_sent :: "oms_order \<Rightarrow> nat" where
  "is_sent ord = (if oo_status ord = Sent then 1 else 0)"

definition is_live :: "oms_order \<Rightarrow> nat" where
  "is_live ord = (if oo_status ord = Sent then 0 else 1)"

definition exposure :: "oms_order \<Rightarrow> i32" where
  "exposure ord = signed_qty (oo_side ord) (oo_leaves_qty ord)"

definition books_balance :: "oms \<Rightarrow> bool" where
  "books_balance st =
     (m_pending_new st = of_nat (map_total is_sent (order_of st)) \<and>
      m_live_orders st = of_nat (map_total is_live (order_of st)) \<and>
      m_pending_position_delta st = map_total exposure (order_of st) \<and>
      (\<forall>oid ord. order_of st oid = Some ord \<longrightarrow> balanced ord))"

lemma dom_order_of: "dom (order_of st) = dom (slot_map st)"
  by (auto simp: order_of_def)

lemma finite_orders: "oms_inv st \<Longrightarrow> finite (dom (order_of st))"
  using om.finite_look slots_invD(1) oms_invD(1) by (simp add: dom_order_of)

lemma sent_live_total:
  assumes "finite (dom m)"
  shows "map_total is_sent m + map_total is_live m = card (dom m)"
  unfolding map_total_def using assms
  by (simp add: is_sent_def is_live_def flip: sum.distrib) (simp add: if_distrib cong: if_cong)

lemma in_flight_bound: "oms_inv st \<Longrightarrow> card (dom (order_of st)) \<le> 4096"
  using slot_accounting slots_invD(3) oms_invD(1) by (fastforce simp: dom_order_of)

lemma dec_of_nat: "n < 2 ^ 64 - 1 \<Longrightarrow> dec (of_nat (Suc n)) = of_nat n"
  by (simp add: dec_def word_gt_0_iff word_unat_eq_iff unat_word_ariths unat_of_nat take_bit_nat_eq_self_iff)

lemma fill_balanced:
  assumes "balanced ord" "xr_fill_qty r \<le> oo_leaves_qty ord"
  shows "balanced (fill_order r ord)" "oo_leaves_qty (fill_order r ord) = oo_leaves_qty ord - xr_fill_qty r"
proof -
  let ?f = "oo_filled_qty ord + xr_fill_qty r"
  have b: "unat (oo_filled_qty ord) + unat (oo_leaves_qty ord) = unat (oo_qty ord)"
    using assms(1) by (simp add: balanced_def)
  have le: "unat (xr_fill_qty r) \<le> unat (oo_leaves_qty ord)" using assms(2) by (simp add: word_le_nat_alt)
  have f: "unat ?f = unat (oo_filled_qty ord) + unat (xr_fill_qty r)"
    using b le unat_u32 [of "oo_qty ord"] by (simp add: unat_word_ariths)
  have lv: "unat (oo_leaves_qty (fill_order r ord)) = unat (oo_leaves_qty ord) - unat (xr_fill_qty r)"
    using b le f by (auto simp: fill_order_def Let_def word_less_nat_alt unat_sub_if')
  then show "oo_leaves_qty (fill_order r ord) = oo_leaves_qty ord - xr_fill_qty r"
    using le by (simp add: word_unat_eq_iff unat_sub_if')
  show "balanced (fill_order r ord)"
    using lv f b le by (simp add: balanced_def fill_order_def Let_def)
qed

lemma fill_complete:
  assumes "balanced ord" "xr_fill_qty r \<le> oo_leaves_qty ord"
    and "xr_exec_type r = Fill \<Longrightarrow> xr_fill_qty r = oo_leaves_qty ord"
  shows "(oo_status (fill_order r ord) = Filled) = (oo_leaves_qty (fill_order r ord) = 0)"
  using fill_balanced(2) [OF assms(1,2)] assms(3) by (auto simp: fill_order_def Let_def)

lemma signed_qty_diff: "signed_qty s (a - b) = signed_qty s a - signed_qty s b"
  by (cases s) (simp_all add: signed_qty_def)

lemma signed_qty_0 [simp]: "signed_qty s 0 = 0"
  by (cases s) (simp_all add: signed_qty_def)

text \<open>One report moves the ledger exactly as it moves the order.\<close>

abbreviation opt_total :: "(oms_order \<Rightarrow> 'a::comm_monoid_add) \<Rightarrow> oms_order option \<Rightarrow> 'a" where
  "opt_total f x \<equiv> (case x of None \<Rightarrow> 0 | Some ord \<Rightarrow> f ord)"

lemma report_ledger_balance:
  assumes bal: "balanced ord" and prot: "protocol r ord" and act: "active (oo_status ord)"
    and n: "a + b < 2 ^ 63"
    and l: "awaiting l = of_nat (is_sent ord + a)" "working l = of_nat (is_live ord + b)"
      "to_come l = exposure ord + d"
  defines "l' \<equiv> report_ledger r ord l"
  shows "awaiting l' = of_nat (opt_total is_sent (report_effect r ord) + a) \<and>
         working l' = of_nat (opt_total is_live (report_effect r ord) + b) \<and>
         to_come l' = opt_total exposure (report_effect r ord) + d \<and>
         (case report_effect r ord of None \<Rightarrow> True | Some ord' \<Rightarrow> balanced ord')"
proof -
  have dec_a: "dec (1 + of_nat a) = of_nat a"
    and dec_b: "dec (1 + of_nat b) = of_nat b" "dec (of_nat b + 1) = of_nat b"
    using dec_of_nat [of a] dec_of_nat [of b] n by (simp_all add: add.commute)
  have fill: ?thesis if t: "xr_exec_type r = Fill \<or> xr_exec_type r = PartialFill"
  proof -
    have le: "xr_fill_qty r \<le> oo_leaves_qty ord"
      and full: "xr_exec_type r = Fill \<Longrightarrow> xr_fill_qty r = oo_leaves_qty ord"
      using prot t by (auto simp: protocol_def)
    note F = fill_balanced [OF bal le] fill_complete [OF bal le full]
    have ex: "exposure (fill_order r ord) = exposure ord - signed_qty (oo_side ord) (xr_fill_qty r)"
      by (simp add: exposure_def F(2) signed_qty_diff)
    have z: "oo_status (fill_order r ord) = Filled \<Longrightarrow>
        exposure ord = signed_qty (oo_side ord) (xr_fill_qty r)"
      using F(3) ex by (simp add: exposure_def)
    have eff: "report_effect r ord =
        (if oo_status (fill_order r ord) = Filled then None else Some (fill_order r ord))"
      using t by (auto simp: report_effect_def)
    have lg: "l' = (let l1 = ack_ledger ord l; x = signed_qty (oo_side ord) (xr_fill_qty r)
        in l1\<lparr>to_come := to_come l1 - x, held := held l1 + x,
             working := (if oo_status (fill_order r ord) = Filled then dec (working l1) else working l1)\<rparr>)"
      using t by (auto simp: l'_def report_ledger_def Let_def)
    have ns: "oo_status (fill_order r ord) \<noteq> Sent" using fill_order_status [of r ord] by auto
    show ?thesis
      using l F(1) ex z ns dec_a dec_b
      by (auto simp: lg eff Let_def ack_ledger_def is_sent_def is_live_def)
  qed
  show ?thesis
  proof (cases "xr_exec_type r")
    case NewAck
    then show ?thesis using l bal dec_a
      by (auto simp: l'_def report_ledger_def report_effect_def ack_ledger_def is_sent_def is_live_def
          exposure_def balanced_def)
  next
    case CancelAck
    then show ?thesis using l prot dec_b
      by (auto simp: l'_def report_ledger_def report_effect_def protocol_def is_sent_def is_live_def
          exposure_def Let_def)
  next
    case Reject
    then show ?thesis using l prot dec_a
      by (auto simp: l'_def report_ledger_def report_effect_def protocol_def is_sent_def is_live_def
          exposure_def Let_def)
  qed (use fill l bal in \<open>auto simp: l'_def report_ledger_def report_effect_def Let_def\<close>)
qed

lemma books_balance_report:
  assumes inv: "oms_inv st" and bal: "books_balance st"
    and prot: "\<And>ord. order_of st (xr_order_id r) = Some ord \<Longrightarrow> protocol r ord"
    and run: "on_execution r st = Some st'"
  shows "books_balance st'"
proof (cases "order_of st (xr_order_id r)")
  case None
  with on_execution_absent [OF None] run bal show ?thesis by simp
next
  case (Some ord)
  let ?m = "(order_of st)(xr_order_id r := None)"
  have fin: "finite (dom (order_of st))" by (rule finite_orders [OF inv])
  have B: "balanced ord" using bal Some by (auto simp: books_balance_def)
  have act: "active (oo_status ord)" using oms_invD(2) [OF inv] Some by (auto simp: orders_inv_def)
  have rm: "map_total f (order_of st) = f ord + map_total f ?m" for f :: "oms_order \<Rightarrow> 'a::comm_monoid_add"
    by (rule map_total_remove [OF fin Some])
  have eff: "order_of st' = (order_of st)(xr_order_id r := report_effect r ord)"
    using on_execution_found [OF inv Some] run by auto
  have ch: "map_total f (order_of st') = opt_total f (report_effect r ord) + map_total f ?m"
    for f :: "oms_order \<Rightarrow> 'a::comm_monoid_add"
    unfolding eff by (rule map_total_change [OF fin Some])
  have small: "map_total is_sent ?m + map_total is_live ?m < 2 ^ 63"
  proof -
    have "map_total is_sent ?m + map_total is_live ?m = card (dom ?m)"
      by (rule sent_live_total) (use fin in simp)
    also have "\<dots> \<le> card (dom (order_of st))" by (rule card_mono [OF fin]) auto
    finally show ?thesis using in_flight_bound [OF inv] by simp
  qed
  from bal have L: "awaiting (ledger_of st) = of_nat (is_sent ord + map_total is_sent ?m)"
    "working (ledger_of st) = of_nat (is_live ord + map_total is_live ?m)"
    "to_come (ledger_of st) = exposure ord + map_total exposure ?m"
    by (simp_all only: books_balance_def rm [symmetric] ledger_of_def ledger.select_convs)
  from report_ledger_balance [OF B prot [OF Some] act small L] on_execution_ledger [OF inv run Some]
  have "m_pending_new st' = of_nat (opt_total is_sent (report_effect r ord) + map_total is_sent ?m)"
    "m_live_orders st' = of_nat (opt_total is_live (report_effect r ord) + map_total is_live ?m)"
    "m_pending_position_delta st' = opt_total exposure (report_effect r ord) + map_total exposure ?m"
    and new: "case report_effect r ord of None \<Rightarrow> True | Some ord' \<Rightarrow> balanced ord'"
    by (simp_all only: ledger_fields)
  moreover have "balanced o'" if "order_of st' oid = Some o'" for oid o'
    using that new bal by (auto simp: eff books_balance_def split: if_splits)
  ultimately show ?thesis unfolding books_balance_def ch by blast
qed

lemma books_balance_send:
  assumes inv: "oms_inv st" and n: "m_next_id st + 1 \<noteq> 0" and bal: "books_balance st"
    and run: "send_new s price qty ty st = (res, st')"
  shows "books_balance st'"
proof (cases res)
  case None
  with send_new_inv [OF inv n run] bal show ?thesis by simp
next
  case (Some slot)
  from send_new_inv [OF inv n run] Some have "placed s price qty ty st slot st'" by simp
  then obtain ord where ord: "order_of st (m_next_id st) = None"
    "order_of st' = (order_of st)(m_next_id st \<mapsto> ord)" "oo_status ord = Sent" "oo_side ord = s"
    "oo_qty ord = qty" "oo_filled_qty ord = 0" "oo_leaves_qty ord = qty"
    by (auto simp: placed_def)
  have fields: "m_pending_new st' = m_pending_new st + 1" "m_live_orders st' = m_live_orders st"
    "m_pending_position_delta st' = m_pending_position_delta st + signed_qty s qty"
    using run Some by (auto simp: send_new_def alloc_slot_def Let_def split: if_splits)
  have tot: "map_total f (order_of st') = f ord + map_total f (order_of st)"
    for f :: "oms_order \<Rightarrow> 'a::comm_monoid_add"
    unfolding ord(2) by (rule map_total_upd_new [OF finite_orders [OF inv] ord(1)])
  have "balanced x" if "order_of st' oid = Some x" for oid x
    using that bal ord by (auto simp: books_balance_def balanced_def split: if_splits)
  then show ?thesis
    using bal ord(3-) unfolding books_balance_def tot fields
    by (simp add: is_sent_def is_live_def exposure_def add.commute)
qed

lemma books_balance_init: "books_balance init_oms"
  by (simp add: books_balance_def order_of_def [abs_def] init_oms_def lookup_empty)

lemma books_balance_ref [simp]: "books_balance (set_reference_price p st) = books_balance st"
  by (simp add: books_balance_def) (simp add: set_reference_price_def)

section \<open>Runs\<close>

fun op_obeys :: "oms_op \<Rightarrow> oms \<Rightarrow> bool" where
  "op_obeys (Report r) st =
     (case order_of st (xr_order_id r) of None \<Rightarrow> True | Some ord \<Rightarrow> protocol r ord)"
| "op_obeys _ st = True"

fun obeys :: "oms_op list \<Rightarrow> oms \<Rightarrow> bool" where
  "obeys [] st = True"
| "obeys (op # ops) st =
     (op_obeys op st \<and> (case oms_step op st of None \<Rightarrow> True | Some st' \<Rightarrow> obeys ops st'))"

lemma oms_step_next_id:
  assumes "oms_inv st" "oms_step op st = Some st'"
  shows "m_next_id st' = m_next_id st \<or> m_next_id st' = m_next_id st + 1"
proof (cases op)
  case (SendNew s p q t)
  with assms send_new_next_id [of s p q t st] show ?thesis by auto
next
  case (Report r)
  have free: "m_next_id st2 = m_next_id st1" if "free_slot k oid st1 = Some st2" for k oid st1 st2
    by (subst free_slot_keeps [OF that]) simp
  have "core (x :: oms) = core y \<Longrightarrow> m_next_id x = m_next_id y" for x y by (simp add: core_def)
  note c = this [OF frame_simps(1)] this [OF frame_simps(3)] this [OF frame_simps(5)] this [OF frame_simps(7)]
  show ?thesis using assms Report
    by (auto simp: on_execution_def on_new_ack_def on_fill_def on_cancel_ack_def on_reject_def Let_def c
        dest!: free split: option.splits if_splits exec_type.splits)
next
  case (SetReference p)
  with assms show ?thesis by (auto simp: set_reference_price_def)
qed

lemma oms_step_inv:
  assumes "oms_inv st" "m_next_id st + 1 \<noteq> 0"
  shows "\<exists>st'. oms_step op st = Some st' \<and> oms_inv st' \<and>
           (op_obeys op st \<longrightarrow> books_balance st \<longrightarrow> books_balance st')"
proof (cases op)
  case (SendNew s p q t)
  obtain res st' where s: "send_new s p q t st = (res, st')" by (metis surj_pair)
  from send_new_inv [OF assms s] books_balance_send [OF assms _ s] show ?thesis by (simp add: SendNew s)
next
  case (Report r)
  from on_execution_inv [OF assms(1), of r] obtain st' where
    st': "on_execution r st = Some st'" "oms_inv st'" by blast
  with books_balance_report [OF assms(1) _ _ st'(1)] show ?thesis
    by (auto simp: Report split: option.splits)
next
  case (SetReference p)
  then show ?thesis using assms by simp
qed

lemma run_oms_inv:
  assumes "oms_inv st" "unat (m_next_id st) + length ops < 2 ^ 64 - 1"
  shows "\<exists>st'. run_oms ops st = Some st' \<and> oms_inv st' \<and>
           unat (m_next_id st') \<le> unat (m_next_id st) + length ops \<and>
           (obeys ops st \<longrightarrow> books_balance st \<longrightarrow> books_balance st')"
  using assms
proof (induction ops arbitrary: st)
  case (Cons op ops)
  have S: "unat (m_next_id st + 1) = Suc (unat (m_next_id st))"
    using Cons.prems(2) by (simp add: unat_word_ariths)
  then have n: "m_next_id st + 1 \<noteq> 0" by (metis nat.distinct(1) unat_0)
  from oms_step_inv [OF Cons.prems(1) n, of op] obtain st1 where
    st1: "oms_step op st = Some st1" "oms_inv st1"
      "op_obeys op st \<longrightarrow> books_balance st \<longrightarrow> books_balance st1" by blast
  from oms_step_next_id [OF Cons.prems(1) st1(1)] S
  have le: "unat (m_next_id st1) \<le> Suc (unat (m_next_id st))" by auto
  with Cons.prems(2) have "unat (m_next_id st1) + length ops < 2 ^ 64 - 1" by simp
  from Cons.IH [OF st1(2) this] st1 le show ?case by auto
qed simp

section \<open>What the risk check guarantees\<close>

lemma check_riskD:
  assumes "check_risk s price qty st"
  shows "qty \<le> max_order_qty (m_risk st)"
    "m_live_orders st + m_pending_new st < ucast (max_live_orders (m_risk st))"
    "sint (abs32 (m_position st + m_pending_position_delta st + signed_qty s qty)) \<le>
       sint (max_position (m_risk st))"
    "\<not> (fgt (m_ref_price st) (Fin False 0) \<and> fgt (max_price_deviation (m_risk st)) (Fin False 0) \<and>
        fgt (fabs (fsub price (m_ref_price st))) (max_price_deviation (m_risk st)))"
  using assms by (auto simp: check_risk_def Let_def not_less not_le split: if_splits)

lemma abs32_bound:
  assumes "sint (abs32 x) \<le> b" "sint x \<noteq> - (2 ^ 31)"
  shows "\<bar>sint x\<bar> \<le> b"
proof (cases "sint x < 0")
  case True
  have "sint (- x) = - sint x"
    using True assms(2) sint_range_size [of x] by (simp add: word_size sint_word_ariths signed_take_bit_int_eq_self_iff)
  with True assms show ?thesis by (simp add: abs32_def)
qed (use assms in \<open>simp add: abs32_def\<close>)

text \<open>A rounded difference within five is a difference within five, up to one unit of rounding.\<close>

lemma representable_above_5: "representable (5 + 1 / 2 ^ 50)"
proof (rule representableI)
  show "(5 + 1 / 2 ^ 50 :: rat) = of_int (5 * 2 ^ 50 + 1) * pw (- 50)"
    by (simp add: power_int_minus field_simps)
qed simp_all

lemma deviation_bound:
  assumes wf: "wf_double p" "wf_double r" and fin: "is_finite (fsub p r)"
    and ok: "\<not> fgt (fabs (fsub p r)) (Fin False 5)"
  shows "\<bar>val p - val r\<bar> < 5 + 1 / 2 ^ 50"
proof (rule ccontr)
  assume "\<not> ?thesis"
  then consider "5 + 1 / 2 ^ 50 \<le> val p - val r" | "val p - val r \<le> - (5 + 1 / 2 ^ 50)" by linarith
  moreover have "srnd (5 + 1 / 2 ^ 50) = 5 + 1 / 2 ^ 50" "srnd (- (5 + 1 / 2 ^ 50)) = - (5 + 1 / 2 ^ 50)"
    using representable_above_5 by (intro srnd_exact; simp)+
  ultimately have "5 + 1 / 2 ^ 50 \<le> \<bar>srnd (val p - val r)\<bar>"
    using srnd_mono [of "5 + 1 / 2 ^ 50" "val p - val r"] srnd_mono [of "val p - val r" "- (5 + 1 / 2 ^ 50)"]
    by cases linarith+
  then have "(5 :: rat) < \<bar>val (fsub p r)\<bar>" unfolding val_fsub [OF fin] by (rule less_le_trans [rotated]) simp
  moreover have "is_finite (fabs (fsub p r))" using fin by (cases "fsub p r") auto
  ultimately show False using ok by (simp add: flt_val)
qed

end
