(* ===== verification/OMS_Properties.thy ===== *)
theory OMS_Properties
  imports OMS_Ledger
begin

text \<open>
  What the order management system guarantees over every sequence of submissions, reports and
  reference prices that starts from its initial state.
\<close>

section \<open>At most \<open>max_live_orders\<close> orders in flight\<close>

lemma on_execution_risk: "on_execution r st = Some st' \<Longrightarrow> m_risk st' = m_risk st"
proof -
  assume run: "on_execution r st = Some st'"
  have free: "m_risk st2 = m_risk st1" if "free_slot k oid st1 = Some st2" for k oid st1 st2
    by (subst free_slot_keeps [OF that]) simp
  have "m_risk (accept_order x) = m_risk x" "m_risk (set_order k ord x) = m_risk x"
    "m_risk (apply_trading_fill s q p x) = m_risk x" "m_risk (count_fill s q b x) = m_risk x"
    for x k ord s q p b
    by (cases s; simp add: accept_order_def set_order_def apply_trading_fill_def count_fill_def Let_def)+
  with run show ?thesis
    by (auto simp: on_execution_def on_new_ack_def on_fill_def on_cancel_ack_def on_reject_def Let_def
        dest!: free split: option.splits if_splits exec_type.splits)
qed

lemma send_new_risk: "m_risk (snd (send_new s p q t st)) = m_risk st"
  by (auto simp: send_new_def alloc_slot_def Let_def)

lemma oms_step_risk: "oms_step op st = Some st' \<Longrightarrow> m_risk st' = m_risk st"
  by (cases op) (auto simp: set_reference_price_def send_new_risk dest: on_execution_risk)

lemma counters_card:
  assumes "oms_inv st" "books_balance st"
  shows "unat (m_live_orders st + m_pending_new st) = card (dom (order_of st))"
proof -
  let ?n = "map_total is_sent (order_of st) + map_total is_live (order_of st)"
  have n: "?n = card (dom (order_of st))" by (rule sent_live_total [OF finite_orders [OF assms(1)]])
  have "m_live_orders st + m_pending_new st = of_nat ?n"
    using assms(2) by (simp add: books_balance_def add.commute)
  then show ?thesis using in_flight_bound [OF assms(1)] by (simp only: n) (simp add: unat_of_nat)
qed

lemma in_flight_step:
  assumes inv: "oms_inv st" and n: "m_next_id st + 1 \<noteq> 0" and bal: "books_balance st"
    and b: "card (dom (order_of st)) \<le> unat (max_live_orders (m_risk st))"
    and run: "oms_step op st = Some st'"
  shows "card (dom (order_of st')) \<le> unat (max_live_orders (m_risk st))"
proof (cases op)
  case (SendNew s p q t)
  obtain res st1 where s: "send_new s p q t st = (res, st1)" by (metis surj_pair)
  with run SendNew have st1: "st' = st1" by simp
  show ?thesis
  proof (cases res)
    case None
    with send_new_inv [OF inv n s] st1 b show ?thesis by simp
  next
    case (Some slot)
    with s have "check_risk s p q st" by (auto simp: send_new_def split: if_splits)
    from check_riskD(2) [OF this] have "card (dom (order_of st)) < unat (max_live_orders (m_risk st))"
      by (simp add: word_less_nat_alt counters_card [OF inv bal] ucast_slot)
    moreover have "card (dom (order_of st')) \<le> Suc (card (dom (order_of st)))"
      using send_new_inv [OF inv n s] Some st1
      by (auto simp: placed_def dom_fun_upd card_insert_if finite_orders [OF inv])
    ultimately show ?thesis by simp
  qed
next
  case (Report r)
  from on_execution_inv [OF inv, of r] run Report have
    "order_of st' = (order_of st)(xr_order_id r :=
       case order_of st (xr_order_id r) of None \<Rightarrow> None | Some ord \<Rightarrow> report_effect r ord)" by auto
  then have "dom (order_of st') \<subseteq> dom (order_of st)" by (auto split: option.splits if_splits)
  with card_mono [OF finite_orders [OF inv]] b show ?thesis by (meson order_trans)
next
  case (SetReference p)
  with run b show ?thesis by auto
qed

lemma in_flight_run:
  assumes "oms_inv st" "books_balance st" "unat (m_next_id st) + length ops < 2 ^ 64 - 1"
    and "card (dom (order_of st)) \<le> unat (max_live_orders (m_risk st))" "obeys ops st"
    and "run_oms ops st = Some st'"
  shows "card (dom (order_of st')) \<le> unat (max_live_orders (m_risk st))"
  using assms
proof (induction ops arbitrary: st)
  case (Cons op ops)
  have S: "unat (m_next_id st + 1) = Suc (unat (m_next_id st))"
    using Cons.prems(3) by (simp add: unat_word_ariths)
  then have n: "m_next_id st + 1 \<noteq> 0" by (metis nat.distinct(1) unat_0)
  obtain st1 where st1: "oms_step op st = Some st1" "oms_inv st1" "books_balance st1"
    using oms_step_inv [OF Cons.prems(1) n, of op] Cons.prems(2,5) by auto
  from oms_step_next_id [OF Cons.prems(1) st1(1)] S Cons.prems(3)
  have "unat (m_next_id st1) + length ops < 2 ^ 64 - 1" by auto
  from Cons.IH [OF st1(2,3) this] in_flight_step [OF Cons.prems(1) n Cons.prems(2,4) st1(1)]
    Cons.prems(5,6) st1(1) oms_step_risk [OF st1(1)]
  show ?case by simp
qed simp

section \<open>Position and cash\<close>

text \<open>The fills that a sequence of calls books: signed quantity and price.\<close>

definition booked :: "oms_op \<Rightarrow> oms \<Rightarrow> (side \<times> u32 \<times> double) list" where
  "booked op st =
     (case op of
        Report r \<Rightarrow>
          (case order_of st (xr_order_id r) of
             None \<Rightarrow> []
           | Some ord \<Rightarrow>
               if xr_exec_type r = Fill \<or> xr_exec_type r = PartialFill
               then [(oo_side ord, xr_fill_qty r, xr_fill_price r)] else [])
      | _ \<Rightarrow> [])"

fun all_booked :: "oms_op list \<Rightarrow> oms \<Rightarrow> (side \<times> u32 \<times> double) list" where
  "all_booked [] st = []"
| "all_booked (op # ops) st =
     booked op st @ (case oms_step op st of None \<Rightarrow> [] | Some st' \<Rightarrow> all_booked ops st')"

definition book_cash :: "double \<Rightarrow> side \<times> u32 \<times> double \<Rightarrow> double" where
  "book_cash cash = (\<lambda>(s, q, p).
     (case s of Buy \<Rightarrow> fsub cash (fmul p (dbl_of_u32 q)) | Sell \<Rightarrow> fadd cash (fmul p (dbl_of_u32 q))))"

lemma free_slot_cash: "free_slot k oid st = Some st' \<Longrightarrow> m_trading_cash st' = m_trading_cash st"
  by (subst free_slot_keeps, assumption) simp

lemma cash_simps [simp]:
  "m_trading_cash (accept_order st) = m_trading_cash st"
  "m_trading_cash (set_order k ord st) = m_trading_cash st"
  "m_trading_cash (count_fill s q b st) = m_trading_cash st"
  "m_trading_cash (apply_trading_fill s q p st) = book_cash (m_trading_cash st) (s, q, p)"
  by (cases s; simp add: accept_order_def set_order_def count_fill_def apply_trading_fill_def
      book_cash_def Let_def)+

lemma on_execution_cash:
  assumes inv: "oms_inv st" and run: "on_execution r st = Some st'"
  shows "m_trading_cash st' = foldl book_cash (m_trading_cash st) (booked (Report r) st)"
    and "m_position st' = m_position st + sum_list (map (\<lambda>(s, q, p). signed_qty s q) (booked (Report r) st))"
proof -
  have "m_trading_cash st' = foldl book_cash (m_trading_cash st) (booked (Report r) st) \<and>
    m_position st' = m_position st + sum_list (map (\<lambda>(s, q, p). signed_qty s q) (booked (Report r) st))"
  proof (cases "order_of st (xr_order_id r)")
    case None
    with on_execution_absent [OF None] run show ?thesis by (simp add: booked_def)
  next
    case (Some ord)
    obtain p k where p: "map_find (m_order_map st) (xr_order_id r) = Some p"
      "e_slot (m_order_map st p) = k" and k: "m_orders st (ucast k) = ord"
      using Some by (auto simp: order_of_def lookup_def split: option.splits)
    have act: "active (oo_status ord)" using oms_invD(2) [OF inv] Some by (auto simp: orders_inv_def)
    have bound: "\<not> (ucast k :: u64) \<ge> MAX_ORDERS" using run p by (auto simp: on_execution_def Let_def)
    have pos: "m_position st' = held (report_ledger r ord (ledger_of st))"
      using on_execution_ledger [OF inv run Some] by (simp add: ledger_fields)
    have "m_position st' = m_position st + sum_list (map (\<lambda>(s, q, p). signed_qty s q) (booked (Report r) st))"
      unfolding pos by (simp add: booked_def Some report_ledger_def ack_ledger_def Let_def
          ledger_of_def split: exec_type.splits)
    moreover have "m_trading_cash st' = foldl book_cash (m_trading_cash st) (booked (Report r) st)"
      using run p bound k act Some
      by (cases "xr_exec_type r")
         (auto simp: on_execution_def on_new_ack_def on_fill_def on_cancel_ack_def on_reject_def
            booked_def active_def Let_def dest!: free_slot_cash split: if_splits)
    ultimately show ?thesis by blast
  qed
  then show "m_trading_cash st' = foldl book_cash (m_trading_cash st) (booked (Report r) st)"
    "m_position st' = m_position st + sum_list (map (\<lambda>(s, q, p). signed_qty s q) (booked (Report r) st))"
    by auto
qed

lemma oms_step_cash:
  assumes "oms_inv st" "oms_step op st = Some st'"
  shows "m_trading_cash st' = foldl book_cash (m_trading_cash st) (booked op st) \<and>
    m_position st' = m_position st + sum_list (map (\<lambda>(s, q, p). signed_qty s q) (booked op st))"
proof (cases op)
  case (SendNew s p q t)
  with assms(2) show ?thesis by (auto simp: booked_def send_new_def alloc_slot_def Let_def)
next
  case (Report r)
  with on_execution_cash [OF assms(1), of r st'] assms(2) show ?thesis by simp
next
  case (SetReference p)
  with assms(2) show ?thesis by (auto simp: booked_def set_reference_price_def)
qed

lemma run_oms_cash:
  assumes "oms_inv st" "unat (m_next_id st) + length ops < 2 ^ 64 - 1" "run_oms ops st = Some st'"
  shows "m_trading_cash st' = foldl book_cash (m_trading_cash st) (all_booked ops st) \<and>
    m_position st' = m_position st + sum_list (map (\<lambda>(s, q, p). signed_qty s q) (all_booked ops st))"
  using assms
proof (induction ops arbitrary: st)
  case (Cons op ops)
  have S: "unat (m_next_id st + 1) = Suc (unat (m_next_id st))"
    using Cons.prems(2) by (simp add: unat_word_ariths)
  then have n: "m_next_id st + 1 \<noteq> 0" by (metis nat.distinct(1) unat_0)
  obtain st1 where st1: "oms_step op st = Some st1" "oms_inv st1"
    using oms_step_inv [OF Cons.prems(1) n, of op] by auto
  from oms_step_next_id [OF Cons.prems(1) st1(1)] S Cons.prems(2)
  have "unat (m_next_id st1) + length ops < 2 ^ 64 - 1" by auto
  from Cons.IH [OF st1(2) this] Cons.prems(3) st1(1) oms_step_cash [OF Cons.prems(1) st1(1)]
  show ?case by (simp add: add.assoc)
qed simp

text \<open>Integral prices: quantities, notionals and profits as integers.\<close>

definition int_price :: "double \<Rightarrow> int" where
  "int_price p = \<lfloor>val p\<rfloor>"

definition sgn_qty :: "side \<Rightarrow> u32 \<Rightarrow> int" where
  "sgn_qty s q = (case s of Buy \<Rightarrow> uint q | Sell \<Rightarrow> - uint q)"

abbreviation volume_of :: "(side \<times> u32 \<times> double) list \<Rightarrow> int" where
  "volume_of fs \<equiv> sum_list (map (\<lambda>(s, q, p). uint q) fs)"

abbreviation turnover_of :: "(side \<times> u32 \<times> double) list \<Rightarrow> int" where
  "turnover_of fs \<equiv> sum_list (map (\<lambda>(s, q, p). \<bar>int_price p\<bar> * uint q) fs)"

definition integral :: "(side \<times> u32 \<times> double) list \<Rightarrow> bool" where
  "integral fs = (\<forall>(s, q, p) \<in> set fs. is_int p (int_price p))"

lemma is_int_u32: "is_int (dbl_of_u32 q) (uint q)"
proof (rule is_int_dbl_of_int)
  have "uint q < 2 ^ 32" using uint_bounded [of q] by simp
  then show "\<bar>uint q\<bar> \<le> 2 ^ 53" by simp
qed

lemma turnover_nonneg: "0 \<le> turnover_of fs"
  by (rule sum_list_nonneg) auto

lemma cash_exact:
  assumes "is_int c n" "integral fs" "\<bar>n\<bar> + turnover_of fs \<le> 2 ^ 53"
  shows "is_int (foldl book_cash c fs) (n - sum_list (map (\<lambda>(s, q, p). sgn_qty s q * int_price p) fs))"
  using assms
proof (induction fs arbitrary: c n)
  case (Cons x fs)
  obtain s q p where x: "x = (s, q, p)" by (cases x)
  let ?v = "int_price p * uint q"
  have "is_int p (int_price p)" using Cons.prems(2) x by (auto simp: integral_def)
  moreover have v: "\<bar>?v\<bar> = \<bar>int_price p\<bar> * uint q" by (simp add: abs_mult)
  have b: "\<bar>n\<bar> + \<bar>?v\<bar> + turnover_of fs \<le> 2 ^ 53" using Cons.prems(3) v by (simp add: x)
  ultimately have m: "is_int (fmul p (dbl_of_u32 q)) ?v"
    using turnover_nonneg [of fs] by (intro is_int_fmul is_int_u32) linarith+
  have "is_int (book_cash c x) (n - sgn_qty s q * int_price p)"
  proof (cases s)
    case Buy
    have "is_int (fsub c (fmul p (dbl_of_u32 q))) (n - ?v)"
      by (rule is_int_fsub [OF Cons.prems(1) m]) (use b turnover_nonneg [of fs] in linarith)
    then show ?thesis by (simp add: x Buy book_cash_def sgn_qty_def mult.commute)
  next
    case Sell
    have "is_int (fadd c (fmul p (dbl_of_u32 q))) (n + ?v)"
      by (rule is_int_fadd [OF Cons.prems(1) m]) (use b turnover_nonneg [of fs] in linarith)
    then show ?thesis by (simp add: x Sell book_cash_def sgn_qty_def mult.commute)
  qed
  moreover have "\<bar>n - sgn_qty s q * int_price p\<bar> + turnover_of fs \<le> 2 ^ 53"
  proof -
    have "\<bar>sgn_qty s q * int_price p\<bar> = \<bar>?v\<bar>" by (cases s) (simp_all add: sgn_qty_def abs_mult mult.commute)
    with b show ?thesis by linarith
  qed
  moreover have "integral fs" using Cons.prems(2) by (auto simp: integral_def)
  ultimately have "is_int (foldl book_cash (book_cash c x) fs)
      (n - sgn_qty s q * int_price p - sum_list (map (\<lambda>(s, q, p). sgn_qty s q * int_price p) fs))"
    by (intro Cons.IH)
  then show ?case by (simp add: x algebra_simps)
qed simp

lemma sum_bounds:
  "\<bar>sum_list (map (\<lambda>(s, q, p). sgn_qty s q) fs)\<bar> \<le> volume_of fs"
  "\<bar>sum_list (map (\<lambda>(s, q, p). sgn_qty s q * int_price p) fs)\<bar> \<le> turnover_of fs"
proof -
  show "\<bar>sum_list (map (\<lambda>(s, q, p). sgn_qty s q) fs)\<bar> \<le> volume_of fs"
  proof (induction fs)
    case (Cons x fs)
    obtain s q p where x: "x = (s, q, p)" by (cases x)
    have "\<bar>sgn_qty s q\<bar> = uint q" by (cases s) (simp_all add: sgn_qty_def)
    with Cons show ?case by (simp add: x)
  qed simp
  show "\<bar>sum_list (map (\<lambda>(s, q, p). sgn_qty s q * int_price p) fs)\<bar> \<le> turnover_of fs"
  proof (induction fs)
    case (Cons x fs)
    obtain s q p where x: "x = (s, q, p)" by (cases x)
    have "\<bar>sgn_qty s q * int_price p\<bar> = \<bar>int_price p\<bar> * uint q"
      by (cases s) (simp_all add: sgn_qty_def abs_mult mult.commute)
    with Cons show ?case by (simp add: x)
  qed simp
qed

lemma position_exact:
  assumes "volume_of fs < 2 ^ 31"
  shows "sint (sum_list (map (\<lambda>(s, q, p). signed_qty s q) fs)) = sum_list (map (\<lambda>(s, q, p). sgn_qty s q) fs)"
proof -
  have "sum_list (map (\<lambda>(s, q, p). signed_qty s q) fs) =
      (of_int (sum_list (map (\<lambda>(s, q, p). sgn_qty s q) fs)) :: i32)"
  proof (induction fs)
    case (Cons x fs)
    obtain s q p where x: "x = (s, q, p)" by (cases x)
    have "signed_qty s q = of_int (sgn_qty s q)"
      by (cases s) (simp_all add: signed_qty_def sgn_qty_def)
    with Cons show ?case by (simp add: x)
  qed simp
  moreover have "sint (of_int k :: i32) = k" if "\<bar>k\<bar> < 2 ^ 31" for k
    using that by (auto simp: sint_sbintrunc' signed_take_bit_int_eq_self_iff)
  ultimately show ?thesis using sum_bounds(1) [of fs] assms by simp
qed

section \<open>Properties\<close>

definition report :: "u64 \<Rightarrow> exec_type \<Rightarrow> u32 \<Rightarrow> execution_report" where
  "report oid t q =
     \<lparr>xr_order_id = oid, xr_exec_type = t, xr_fill_price = Fin False 100, xr_fill_qty = q,
      xr_leaves_qty = 0, xr_timestamp_ns = 0\<rparr>"

definition demo_calls :: "oms_op list" where
  "demo_calls =
     [SetReference (Fin False 100), SendNew Buy (Fin False 100) 5 IOC, Report (report 1 NewAck 0),
      SendNew Sell (Fin False 101) 3 IOC, Report (report 1 PartialFill 2)]"

lemma init_next_id: "m_next_id init_oms = 1"
  by (simp add: init_oms_def)

lemmas run_init = run_oms_inv [OF oms_inv_init, unfolded init_next_id unat_1]

text \<open>
  C8. The order management system is memory safe whatever the exchange sends: no sequence of
  submissions, reports (of any type, for any identifier, with any quantities) and reference
  prices, short of exhausting the 64-bit identifiers, reads or writes outside its arrays or loops
  forever in the rehash of \<open>map_remove\<close>; every order slot ever used is either free or indexed, never
  both, and the index holds as many orders as there are slots that are not free.
\<close>
theorem oms_memory_safe:
  assumes "length ops < 2 ^ 64 - 2"
  shows "\<exists>st. run_oms ops init_oms = Some st \<and> oms_inv st \<and>
           card (dom (order_of st)) + unat (m_free_top st) = unat (m_next_fresh_slot st) \<and>
           unat (m_next_fresh_slot st) \<le> 4096"
proof -
  from run_init [of ops] assms obtain st where
    st: "run_oms ops init_oms = Some st" "oms_inv st" by auto
  with slot_accounting [OF oms_invD(1) [OF st(2)]] slots_invD(3) [OF oms_invD(1) [OF st(2)]]
  show ?thesis by (simp add: dom_order_of)
qed

theorem oms_memory_safe_witness:
  "length demo_calls < 2 ^ 64 - 2 \<and> (\<exists>st. run_oms demo_calls init_oms = Some st \<and> oms_inv st)"
proof -
  have "length demo_calls < 2 ^ 64 - 2" by (simp add: demo_calls_def)
  with oms_memory_safe [OF this] show ?thesis by blast
qed

text \<open>
  C9. Reports refine a map from identifiers to orders: in every reachable state a report acts on
  exactly the order it names, by \<open>report_effect\<close>, and on no other; a report for an unknown
  identifier changes nothing at all.
\<close>
theorem oms_report_refines:
  assumes "length ops < 2 ^ 64 - 2" and "run_oms ops init_oms = Some st"
  shows "\<exists>st'. on_execution r st = Some st' \<and>
           order_of st' = (order_of st)(xr_order_id r :=
             case order_of st (xr_order_id r) of None \<Rightarrow> None | Some ord \<Rightarrow> report_effect r ord) \<and>
           (order_of st (xr_order_id r) = None \<longrightarrow> st' = st)"
proof -
  from run_init [of ops] assms have inv: "oms_inv st" by auto
  from on_execution_inv [OF inv, of r] on_execution_absent [of st r] show ?thesis by fastforce
qed

theorem oms_report_refines_witness:
  "\<exists>st st'. run_oms [SendNew Buy (Fin False 100) 5 IOC] init_oms = Some st \<and>
     on_execution (report 1 CancelAck 0) st = Some st' \<and> order_of st' 1 = None"
proof -
  let ?ops = "[SendNew Buy (Fin False 100) 5 IOC]"
  obtain st where st: "run_oms ?ops init_oms = Some st" by simp
  have "length ?ops < 2 ^ 64 - 2" by simp
  from oms_report_refines [OF this st, of "report 1 CancelAck 0"] st show ?thesis
    by (auto simp: report_def report_effect_def split: option.splits)
qed

text \<open>
  C10. Submissions refine the same map: in every reachable state \<open>send_new\<close> either changes nothing
  and returns the null pointer, or adds one order under a fresh identifier, in state \<open>Sent\<close> with
  nothing filled, and returns its slot.
\<close>
theorem oms_send_refines:
  assumes "length ops < 2 ^ 64 - 2" and "run_oms ops init_oms = Some st"
    and "send_new s price qty ty st = (res, st')"
  shows "case res of
           None \<Rightarrow> st' = st
         | Some slot \<Rightarrow> check_risk s price qty st \<and> placed s price qty ty st slot st'"
proof -
  from run_init [of ops] assms(1,2) have inv: "oms_inv st" and le: "unat (m_next_id st) \<le> 1 + length ops"
    by auto
  have "unat (m_next_id st + 1) = Suc (unat (m_next_id st))"
    using le assms(1) by (simp add: unat_word_ariths)
  then have "m_next_id st + 1 \<noteq> 0" by (metis nat.distinct(1) unat_0)
  from send_new_inv [OF inv this assms(3)] assms(3) show ?thesis
    by (auto simp: send_new_def split: option.splits if_splits)
qed

theorem oms_send_refines_witness:
  "\<exists>st'. send_new Buy (Fin False 100) 5 IOC init_oms = (Some 0, st') \<and>
     placed Buy (Fin False 100) 5 IOC init_oms 0 st'"
proof -
  have r: "run_oms [] init_oms = Some init_oms" "length [] < (2 ^ 64 - 2 :: nat)" by simp_all
  obtain st' where s: "send_new Buy (Fin False 100) 5 IOC init_oms = (Some 0, st')"
    by (simp add: send_new_def check_risk_def init_oms_def default_limits_def alloc_slot_def
        MAX_ORDERS_def MAX_POSITION_def abs32_def signed_qty_def word_less_nat_alt word_le_nat_alt)
  from oms_send_refines [OF r(2,1) s] s show ?thesis by auto
qed

text \<open>
  C11. The books balance when the exchange keeps to its protocol: \<open>pending_new_\<close> counts the orders
  that await acknowledgement, \<open>live_orders_\<close> the acknowledged ones, \<open>pending_position_delta_\<close> is the
  signed sum of what the orders in flight may still fill, and filled plus remaining quantity is
  the ordered quantity of each; so with nothing in flight all three counters are zero.
\<close>
theorem oms_books_balance:
  assumes "length ops < 2 ^ 64 - 2" and "obeys ops init_oms" and "run_oms ops init_oms = Some st"
  shows "books_balance st \<and>
         (dom (order_of st) = {} \<longrightarrow>
            m_pending_new st = 0 \<and> m_live_orders st = 0 \<and> m_pending_position_delta st = 0)"
proof -
  have "books_balance st" using run_init [of ops] assms books_balance_init by auto
  then show ?thesis by (auto simp: books_balance_def map_total_def)
qed

lemma demo_calls_obey: "obeys demo_calls init_oms"
  by code_simp

theorem oms_books_balance_witness:
  "obeys demo_calls init_oms \<and> (\<exists>st. run_oms demo_calls init_oms = Some st \<and> books_balance st)"
proof -
  have l: "length demo_calls < 2 ^ 64 - 2" by (simp add: demo_calls_def)
  then obtain st where st: "run_oms demo_calls init_oms = Some st" using run_init [of demo_calls] by auto
  from oms_books_balance [OF l demo_calls_obey st] st demo_calls_obey show ?thesis by blast
qed

text \<open>
  C12. With the default limits and a protocol-abiding exchange, never more than fifty orders are in
  flight, so a submission that passes the risk check never fails for want of a slot.
\<close>
theorem oms_in_flight_bounded:
  assumes "length ops < 2 ^ 64 - 2" and "obeys ops init_oms" and "run_oms ops init_oms = Some st"
  shows "card (dom (order_of st)) \<le> 50 \<and>
         (check_risk s price qty st \<longrightarrow> fst (send_new s price qty ty st) \<noteq> None)"
proof -
  from run_init [of ops] assms(1,3) have inv: "oms_inv st" by auto
  have d: "dom (order_of init_oms) = {}" by (simp add: dom_order_of init_oms_def lookup_empty)
  have "card (dom (order_of st)) \<le> unat (max_live_orders (m_risk init_oms))"
    by (rule in_flight_run [OF oms_inv_init books_balance_init _ _ assms(2,3)])
       (use assms(1) d in \<open>simp_all add: init_next_id\<close>)
  then have c: "card (dom (order_of st)) \<le> 50" by (simp add: init_oms_def default_limits_def)
  have "\<not> fst (alloc_slot st) \<ge> MAX_ORDERS"
  proof
    assume full: "fst (alloc_slot st) \<ge> MAX_ORDERS"
    note I = oms_invD(1) [OF inv]
    obtain k st' where a: "alloc_slot st = (k, st')" by (cases "alloc_slot st")
    from alloc_slot_inv [OF I a] full a have "k \<ge> MAX_ORDERS" "st' = st" by (auto simp: taken_def)
    with a have "m_free_top st = 0" "m_next_fresh_slot st \<ge> MAX_ORDERS"
    proof -
      have "k < MAX_ORDERS" if "m_free_top st > 0"
        using a that \<open>st' = st\<close> by (auto simp: alloc_slot_def Let_def dest!: arg_cong [of _ _ m_free_top])
      with \<open>k \<ge> MAX_ORDERS\<close> show "m_free_top st = 0" by (metis not_le word_gt_0_iff)
      with a \<open>k \<ge> MAX_ORDERS\<close> show "m_next_fresh_slot st \<ge> MAX_ORDERS"
        by (auto simp: alloc_slot_def not_less split: if_splits)
    qed
    with slot_accounting [OF I] c show False by (simp add: dom_order_of MAX_ORDERS_def word_le_nat_alt)
  qed
  then show ?thesis using c by (auto simp: send_new_def Let_def split: prod.splits)
qed

theorem oms_in_flight_bounded_witness:
  "\<exists>st. run_oms demo_calls init_oms = Some st \<and> card (dom (order_of st)) \<le> 50"
proof -
  have l: "length demo_calls < 2 ^ 64 - 2" by (simp add: demo_calls_def)
  then obtain st where st: "run_oms demo_calls init_oms = Some st" using run_init [of demo_calls] by auto
  from oms_in_flight_bounded [OF l demo_calls_obey st] st show ?thesis by blast
qed



text \<open>
  C14. Profit and loss is exact for integral prices: as long as the traded volume fits 31 bits and
  turnover and mark fit 52 bits, the position is the signed sum of the booked fills, the cash is
  minus what they cost, and \<open>total_pnl\<close> at an integral mid is the sum over the fills of quantity
  times (mid minus price), without any rounding error.
\<close>
theorem oms_pnl_exact:
  assumes "length ops < 2 ^ 64 - 2" and "run_oms ops init_oms = Some st"
    and "fs = all_booked ops init_oms" and "integral fs" and "is_int mid m"
    and "volume_of fs < 2 ^ 31" and "turnover_of fs \<le> 2 ^ 52" and "\<bar>m\<bar> * volume_of fs \<le> 2 ^ 52"
  shows "sint (m_position st) = sum_list (map (\<lambda>(s, q, p). sgn_qty s q) fs) \<and>
         is_int (m_trading_cash st) (- sum_list (map (\<lambda>(s, q, p). sgn_qty s q * int_price p) fs)) \<and>
         is_int (total_pnl mid st) (sum_list (map (\<lambda>(s, q, p). sgn_qty s q * (m - int_price p)) fs))"
proof -
  let ?Q = "sum_list (map (\<lambda>(s, q, p). sgn_qty s q) fs)"
  let ?C = "sum_list (map (\<lambda>(s, q, p). sgn_qty s q * int_price p) fs)"
  have "unat (m_next_id init_oms) + length ops < 2 ^ 64 - 1" using assms(1) by (simp add: init_next_id)
  from run_oms_cash [OF oms_inv_init this assms(2)] assms(3)
  have cash: "m_trading_cash st = foldl book_cash (Fin False 0) fs"
    and pos: "m_position st = sum_list (map (\<lambda>(s, q, p). signed_qty s q) fs)"
    by (simp_all add: init_oms_def)
  have z: "is_int (Fin False 0) 0" by (simp add: is_int_def)
  have c: "is_int (m_trading_cash st) (0 - ?C)"
    unfolding cash by (rule cash_exact [OF z assms(4)]) (use assms(7) in simp)
  have p: "sint (m_position st) = ?Q" unfolding pos by (rule position_exact [OF assms(6)])
  note B = sum_bounds [of fs]
  have "\<bar>m\<bar> * \<bar>?Q\<bar> \<le> \<bar>m\<bar> * volume_of fs" using B(1) by (rule mult_left_mono) simp
  then have qm: "\<bar>?Q * m\<bar> \<le> 2 ^ 52" using assms(8) by (simp add: abs_mult mult.commute)
  have "is_int (dbl_of_i32 (m_position st)) ?Q"
    unfolding p by (rule is_int_dbl_of_int) (use B(1) assms(6) in simp)
  then have mk: "is_int (mark_pnl mid st) (?Q * m)"
    unfolding mark_pnl_def by (rule is_int_fmul [OF _ assms(5)]) (use qm in simp)
  have "is_int (fadd (m_trading_cash st) (liquidation_pnl st)) (0 - ?C + 0)"
    by (rule is_int_fadd [OF c]) (use z B(2) assms(7) in \<open>simp_all add: liquidation_pnl_def\<close>)
  then have "is_int (total_pnl mid st) (0 - ?C + 0 + ?Q * m)"
    unfolding total_pnl_def by (rule is_int_fadd [OF _ mk]) (use B(2) assms(7) qm in simp)
  moreover have "?Q * m - ?C = sum_list (map (\<lambda>(s, q, p). sgn_qty s q * (m - int_price p)) fs)"
    by (induction fs) (auto simp: algebra_simps)
  ultimately show ?thesis using c p by (simp add: algebra_simps)
qed

definition round_trip_calls :: "oms_op list" where
  "round_trip_calls =
     [SendNew Buy (Fin False 100) 5 IOC, Report (report 1 Fill 5),
      SendNew Sell (Fin False 100) 2 IOC, Report (report 2 Fill 2)]"

lemma round_trip_booked:
  "all_booked round_trip_calls init_oms = [(Buy, 5, Fin False 100), (Sell, 2, Fin False 100)]"
  by code_simp

theorem oms_pnl_exact_witness:
  "\<exists>st. run_oms round_trip_calls init_oms = Some st \<and> sint (m_position st) = 3 \<and>
     is_int (total_pnl (dbl_of_int 101) st) 3"
proof -
  let ?fs = "[(Buy, 5, Fin False 100), (Sell, 2, Fin False 100)] :: (side \<times> u32 \<times> double) list"
  have l: "length round_trip_calls < 2 ^ 64 - 2" by (simp add: round_trip_calls_def)
  then obtain st where st: "run_oms round_trip_calls init_oms = Some st"
    using run_init [of round_trip_calls] by auto
  have "is_int (Fin False 100) 100"
    using is_int_dbl_of_int [of 100] mk_double_int [of 100 False]
    by (simp add: dbl_of_int_def of_rat_double_def)
  then have i: "integral ?fs" by (simp add: integral_def int_price_def)
  have "is_int (dbl_of_int 101) 101" by (rule is_int_dbl_of_int) simp
  from oms_pnl_exact [OF l st _ i this] round_trip_booked st show ?thesis
    by (simp add: int_price_def sgn_qty_def)
qed

text \<open>
  An order that is cancelled before it was acknowledged is never taken out of \<open>pending_new_\<close>:
  afterwards nothing is in flight and yet one order counts as pending (the pipeline then waits for
  it forever), although the handler of fills does provide for reports that overtake the
  acknowledgement.
\<close>
theorem cancel_before_ack_leaks_pending:
  "map_option (\<lambda>st. (m_pending_new st, m_live_orders st, map_find (m_order_map st) 1, m_free_top st))
     (run_oms [SendNew Buy (Fin False 100) 1 IOC, Report (report 1 CancelAck 0)] init_oms) =
   Some (1, 0, None, 1)"
  by code_simp


text \<open>
  C16. Removal from the open-addressing index always terminates and is exact: on every table that
  satisfies the probe-path invariant, \<open>map_remove\<close> returns, keeps the invariant, forgets the
  identifier, and leaves every other lookup as it was, although it moves entries about.
\<close>
theorem order_map_remove_exact:
  assumes "map_inv m"
  shows "\<exists>m'. map_remove oid m = Some m' \<and> map_inv m' \<and> lookup m' = (lookup m)(oid := None)"
  by (rule om.rem_ok [OF assms])

theorem order_map_remove_exact_witness:
  "\<exists>m'. map_remove 1 (map_insert 1 7 empty_map) = Some m' \<and> lookup m' = Map.empty"
proof -
  have "map_inv (map_insert 1 7 empty_map) \<and> lookup (map_insert 1 7 empty_map) = Map.empty(1 \<mapsto> 7)"
    using om.ins_ok [OF om.inv_empty, of 1 7] by (simp add: om.look_empty)
  with order_map_remove_exact [of "map_insert 1 7 empty_map" 1] show ?thesis by auto
qed

text \<open>
  Insertion is exact up to the capacity: on a table that satisfies the invariant, does not
  hold the identifier and has at least two free positions, the identifier is found afterwards with
  its slot and every other lookup is unchanged.
\<close>
theorem order_map_insert_exact:
  assumes "map_inv m" and "lookup m oid = None" and "card (dom (lookup m)) < 8191"
  shows "map_inv (map_insert oid slot m) \<and> lookup (map_insert oid slot m) = (lookup m)(oid \<mapsto> slot)"
  by (rule om.ins_ok [OF assms])

theorem order_map_insert_exact_witness:
  "lookup (map_insert 1 7 empty_map) = Map.empty(1 \<mapsto> 7)"
  using order_map_insert_exact [OF om.inv_empty, of 1 7] by (simp add: om.look_empty)

end
