(* ===== verification/Bytes.thy ===== *)
theory Bytes
  imports Doubles
begin

text \<open>
  Objects as the bytes they occupy: little-endian integers and doubles, and the fields of a packed
  struct at their offsets. The structs that cross the network are asserted in the source to have
  no hidden padding, so their object representation is the concatenation of their fields.
\<close>

fun put_le :: "nat \<Rightarrow> int \<Rightarrow> u8 list" where
  "put_le 0 k = []"
| "put_le (Suc n) k = of_int k # put_le n (k div 256)"

fun get_le :: "u8 list \<Rightarrow> int" where
  "get_le [] = 0"
| "get_le (b # bs) = uint b + 256 * get_le bs"

definition field :: "nat \<Rightarrow> nat \<Rightarrow> u8 list \<Rightarrow> u8 list" where
  "field off n bs = take n (drop off bs)"

lemma length_put_le [simp]: "length (put_le n k) = n"
  by (induction n arbitrary: k) auto

lemma get_put_le: "0 \<le> k \<Longrightarrow> k < 256 ^ n \<Longrightarrow> get_le (put_le n k) = k"
proof (induction n arbitrary: k)
  case (Suc n)
  have "get_le (put_le n (k div 256)) = k div 256"
    by (rule Suc.IH) (use Suc.prems in \<open>simp_all add: div_less_iff_less_mult pos_imp_zdiv_nonneg_iff\<close>)
  moreover have "uint (of_int k :: u8) = k mod 256" by (simp add: uint_word_of_int)
  ultimately show ?case by simp
qed simp

lemma get_le_bounds: "0 \<le> get_le bs \<and> get_le bs < 256 ^ length bs"
proof (induction bs)
  case (Cons b bs)
  have "uint b < 256" using uint_bounded [of b] by simp
  with Cons show ?case by simp
qed simp

lemma put_get_le: "length bs = n \<Longrightarrow> put_le n (get_le bs) = bs"
proof (induction bs arbitrary: n)
  case (Cons b bs)
  have "uint b < 256" using uint_bounded [of b] by simp
  moreover have "of_int (uint b + 256 * get_le bs) = b"
  proof -
    have "(of_int (uint b + 256 * get_le bs) :: u8) = of_int (uint b) + of_int 256 * of_int (get_le bs)"
      by (simp only: of_int_add of_int_mult)
    also have "(of_int 256 :: u8) = 0" by simp
    finally show ?thesis by simp
  qed
  ultimately show ?case using Cons by auto
qed simp

section \<open>Fields of fixed width\<close>

text \<open>
  A field codec writes values as a fixed number of bytes and reads them back. \<open>at\<close> reads a field at
  an offset; the lemmas let a struct be read field by field from its concatenation.
\<close>

locale field_codec =
  fixes ok :: "'a \<Rightarrow> bool" and enc :: "'a \<Rightarrow> u8 list" and dec_field :: "u8 list \<Rightarrow> 'a" and width :: nat
  assumes width: "length (enc x) = width" and dec_enc: "ok x \<Longrightarrow> dec_field (enc x) = x"
begin

lemma read_at: "length pre = off \<Longrightarrow> ok x \<Longrightarrow> dec_field (field off width (pre @ enc x @ post)) = x"
  by (simp add: field_def width dec_enc)

lemma field_end: "length pre = off \<Longrightarrow> ok x \<Longrightarrow> dec_field (field off width (pre @ enc x)) = x"
  using read_at [of pre off x "[]"] by simp

end

definition enc_u8 :: "u8 \<Rightarrow> u8 list" where
  "enc_u8 w = [w]"

definition dec_u8 :: "u8 list \<Rightarrow> u8" where
  "dec_u8 bs = of_int (get_le bs)"

definition enc_u32 :: "u32 \<Rightarrow> u8 list" where
  "enc_u32 w = put_le 4 (uint w)"

definition dec_u32 :: "u8 list \<Rightarrow> u32" where
  "dec_u32 bs = of_int (get_le bs)"

definition enc_u64 :: "u64 \<Rightarrow> u8 list" where
  "enc_u64 w = put_le 8 (uint w)"

definition dec_u64 :: "u8 list \<Rightarrow> u64" where
  "dec_u64 bs = of_int (get_le bs)"

definition enc_double :: "double \<Rightarrow> u8 list" where
  "enc_double x = enc_u64 (bits_of_double x)"

definition dec_double :: "u8 list \<Rightarrow> double" where
  "dec_double bs = double_of_bits (dec_u64 bs)"

interpretation u8f: field_codec "\<lambda>_. True" enc_u8 dec_u8 1
  by unfold_locales (simp_all add: enc_u8_def dec_u8_def)

interpretation u32f: field_codec "\<lambda>_. True" enc_u32 dec_u32 4
proof unfold_locales
  fix x :: u32
  have "uint x < 256 ^ 4" using uint_bounded [of x] by simp
  then show "dec_u32 (enc_u32 x) = x" by (simp add: enc_u32_def dec_u32_def get_put_le)
qed (simp add: enc_u32_def)

interpretation u64f: field_codec "\<lambda>_. True" enc_u64 dec_u64 8
proof unfold_locales
  fix x :: u64
  have "uint x < 256 ^ 8" using uint_bounded [of x] by simp
  then show "dec_u64 (enc_u64 x) = x" by (simp add: enc_u64_def dec_u64_def get_put_le)
qed (simp add: enc_u64_def)

interpretation f64f: field_codec wf_double enc_double dec_double 8
  by unfold_locales (simp_all add: enc_double_def dec_double_def u64f.width u64f.dec_enc bits_roundtrip)

lemmas codec_widths [simp] = u8f.width u32f.width u64f.width f64f.width

lemma wf_dec_double [simp]: "wf_double (dec_double bs)"
  by (simp add: dec_double_def wf_double_of_bits)

end
