(* ===== verification/Wire.thy ===== *)
theory Wire
  imports Bytes OMS
begin

text \<open>
  The binary order-entry protocol of \<open>include/nts/wire_protocol.h\<close>: the two structs as records, and
  their object representation as the bytes on the TCP stream (48 and 40 bytes, as asserted there).
\<close>

definition ORDER_MSG_NEW :: u8 where
  "ORDER_MSG_NEW = 1"

definition ORDER_TYPE_MARKET :: u8 where
  "ORDER_TYPE_MARKET = 1"

definition ORDER_TYPE_IOC_LIMIT :: u8 where
  "ORDER_TYPE_IOC_LIMIT = 2"

record wire_order_msg =
  wo_msg_type :: u8
  wo_side :: u8
  wo_order_type :: u8
  wo_client_order_id :: u64
  wo_price :: double
  wo_qty :: u32
  wo_source_exchange_tick :: u64
  wo_client_reaction_ns :: u64

definition order_msg_bytes :: "wire_order_msg \<Rightarrow> u8 list" where
  "order_msg_bytes w =
     enc_u8 (wo_msg_type w) @ enc_u8 (wo_side w) @ enc_u8 (wo_order_type w) @ replicate 5 0 @
     enc_u64 (wo_client_order_id w) @ enc_double (wo_price w) @ enc_u32 (wo_qty w) @ replicate 4 0 @
     enc_u64 (wo_source_exchange_tick w) @ enc_u64 (wo_client_reaction_ns w)"

definition order_msg_of_bytes :: "u8 list \<Rightarrow> wire_order_msg" where
  "order_msg_of_bytes bs =
     \<lparr>wo_msg_type = dec_u8 (field 0 1 bs), wo_side = dec_u8 (field 1 1 bs),
      wo_order_type = dec_u8 (field 2 1 bs), wo_client_order_id = dec_u64 (field 8 8 bs),
      wo_price = dec_double (field 16 8 bs), wo_qty = dec_u32 (field 24 4 bs),
      wo_source_exchange_tick = dec_u64 (field 32 8 bs),
      wo_client_reaction_ns = dec_u64 (field 40 8 bs)\<rparr>"

record wire_exec_report =
  we_exec_type :: u8
  we_side :: u8
  we_pad1 :: "u8 list"
  we_fill_qty :: u32
  we_order_id :: u64
  we_fill_price :: double
  we_leaves_qty :: u32
  we_pad2 :: u32
  we_timestamp_ns :: u64

definition exec_report_bytes :: "wire_exec_report \<Rightarrow> u8 list" where
  "exec_report_bytes w =
     enc_u8 (we_exec_type w) @ enc_u8 (we_side w) @ we_pad1 w @ enc_u32 (we_fill_qty w) @
     enc_u64 (we_order_id w) @ enc_double (we_fill_price w) @ enc_u32 (we_leaves_qty w) @
     enc_u32 (we_pad2 w) @ enc_u64 (we_timestamp_ns w)"

definition exec_report_of_bytes :: "u8 list \<Rightarrow> wire_exec_report" where
  "exec_report_of_bytes bs =
     \<lparr>we_exec_type = dec_u8 (field 0 1 bs), we_side = dec_u8 (field 1 1 bs),
      we_pad1 = field 2 2 bs, we_fill_qty = dec_u32 (field 4 4 bs),
      we_order_id = dec_u64 (field 8 8 bs), we_fill_price = dec_double (field 16 8 bs),
      we_leaves_qty = dec_u32 (field 24 4 bs), we_pad2 = dec_u32 (field 28 4 bs),
      we_timestamp_ns = dec_u64 (field 32 8 bs)\<rparr>"

definition wf_exec :: "wire_exec_report \<Rightarrow> bool" where
  "wf_exec w = (length (we_pad1 w) = 2 \<and> wf_double (we_fill_price w))"

lemma length_order_msg [simp]: "length (order_msg_bytes w) = 48"
  by (simp add: order_msg_bytes_def)

lemma length_exec_report [simp]: "wf_exec w \<Longrightarrow> length (exec_report_bytes w) = 40"
  by (simp add: exec_report_bytes_def wf_exec_def)

lemma field_append:
  "length xs = k \<Longrightarrow> field (k + off) n (xs @ ys) = field off n ys"
  "length xs = n \<Longrightarrow> field 0 n (xs @ ys) = xs"
  "length xs = n \<Longrightarrow> field 0 n xs = xs"
  by (simp_all add: field_def)

text \<open>Skipping the fields before an offset, one width at a time.\<close>

lemma skip_fields:
  "field (Suc off) n (enc_u8 a @ ys) = field off n ys"
  "length xs = k \<Longrightarrow> k \<le> off \<Longrightarrow> field off n (xs @ ys) = field (off - k) n ys"
  by (simp_all add: field_def enc_u8_def)

lemma order_msg_roundtrip:
  assumes "wf_double (wo_price w)"
  shows "order_msg_of_bytes (order_msg_bytes w) = w"
proof -
  have "dec_u8 (field 0 1 (order_msg_bytes w)) = wo_msg_type w"
    "dec_u8 (field 1 1 (order_msg_bytes w)) = wo_side w"
    "dec_u8 (field 2 1 (order_msg_bytes w)) = wo_order_type w"
    "dec_u64 (field 8 8 (order_msg_bytes w)) = wo_client_order_id w"
    "dec_double (field 16 8 (order_msg_bytes w)) = wo_price w"
    "dec_u32 (field 24 4 (order_msg_bytes w)) = wo_qty w"
    "dec_u64 (field 32 8 (order_msg_bytes w)) = wo_source_exchange_tick w"
    "dec_u64 (field 40 8 (order_msg_bytes w)) = wo_client_reaction_ns w"
    using assms unfolding order_msg_bytes_def
    by (simp_all add: skip_fields(2) [where k = 1] skip_fields(2) [where k = 8] skip_fields(2) [where k = 5]
        skip_fields(2) [where k = 4] field_append(2,3) u8f.dec_enc u64f.dec_enc u32f.dec_enc f64f.dec_enc)
  then show ?thesis by (simp add: order_msg_of_bytes_def)
qed

lemma exec_report_roundtrip:
  assumes "wf_exec w"
  shows "exec_report_of_bytes (exec_report_bytes w) = w"
proof -
  have "dec_u8 (field 0 1 (exec_report_bytes w)) = we_exec_type w"
    "dec_u8 (field 1 1 (exec_report_bytes w)) = we_side w"
    "field 2 2 (exec_report_bytes w) = we_pad1 w"
    "dec_u32 (field 4 4 (exec_report_bytes w)) = we_fill_qty w"
    "dec_u64 (field 8 8 (exec_report_bytes w)) = we_order_id w"
    "dec_double (field 16 8 (exec_report_bytes w)) = we_fill_price w"
    "dec_u32 (field 24 4 (exec_report_bytes w)) = we_leaves_qty w"
    "dec_u32 (field 28 4 (exec_report_bytes w)) = we_pad2 w"
    "dec_u64 (field 32 8 (exec_report_bytes w)) = we_timestamp_ns w"
    using assms unfolding exec_report_bytes_def wf_exec_def
    by (simp_all add: skip_fields(2) [where k = 1] skip_fields(2) [where k = 8] skip_fields(2) [where k = 2]
        skip_fields(2) [where k = 4] field_append(2,3) u8f.dec_enc u64f.dec_enc u32f.dec_enc f64f.dec_enc)
  then show ?thesis by (simp add: exec_report_of_bytes_def)
qed

text \<open>Reading a struct looks at its own bytes only.\<close>

lemma exec_report_of_prefix:
  assumes "length bs = 40"
  shows "exec_report_of_bytes (bs @ rest) = exec_report_of_bytes bs"
  using assms by (simp add: exec_report_of_bytes_def field_def)

end
