(* ===== verification/Gateway.thy ===== *)
theory Gateway
  imports Wire
begin

text \<open>
  The TCP order gateway, \<open>include/nts/order_gateway.h\<close> and \<open>src/order_gateway.cpp\<close>.

  The kernel is not part of the program: what successive calls of \<open>send\<close> and \<open>recv\<close> return is an
  argument, a list of results that each call consumes one of. \<open>None\<close> means that the list ended while
  the loop still called, or that a result is one the system call never returns (more bytes than
  asked for, or an empty read). The model keeps the part of \<open>read_buf_\<close> below \<open>read_len_\<close>; the
  bytes above it are never read.
\<close>

datatype recv_result = RecvData "u8 list" | RecvEof | RecvIntr | RecvAgain | RecvError

datatype send_result = SendCount nat | SendIntr | SendAgain | SendFailed

record gateway =
  gw_sockfd :: int
  gw_buf :: "u8 list"

definition BUF_SIZE :: nat where
  "BUF_SIZE = 4096"

definition init_gateway :: gateway where
  "init_gateway = \<lparr>gw_sockfd = - 1, gw_buf = []\<rparr>"

section \<open>Connecting and closing\<close>

definition gw_connect :: "int \<Rightarrow> int \<Rightarrow> gateway \<Rightarrow> bool \<times> gateway" where
  "gw_connect socket_res connect_res g =
     (let g1 = g\<lparr>gw_sockfd := socket_res\<rparr>
      in if gw_sockfd g1 < 0 then (False, g1)
         else if connect_res < 0 then (False, g1\<lparr>gw_sockfd := - 1\<rparr>)
         else (True, g1))"

definition gw_close :: "gateway \<Rightarrow> gateway" where
  "gw_close g = \<lparr>gw_sockfd = (if gw_sockfd g \<ge> 0 then - 1 else gw_sockfd g), gw_buf = []\<rparr>"

section \<open>Sending an order\<close>

definition side_byte :: "side \<Rightarrow> u8" where
  "side_byte s = (case s of Buy \<Rightarrow> 0 | Sell \<Rightarrow> 1)"

definition order_msg :: "oms_order \<Rightarrow> wire_order_msg option" where
  "order_msg ord =
     (let msg = (\<lambda>ty. \<lparr>wo_msg_type = ORDER_MSG_NEW, wo_side = side_byte (oo_side ord),
                   wo_order_type = ty, wo_client_order_id = oo_id ord, wo_price = oo_price ord,
                   wo_qty = oo_qty ord, wo_source_exchange_tick = oo_source_exchange_tick ord,
                   wo_client_reaction_ns = oo_client_reaction_ns ord\<rparr>)
      in case oo_type ord of
           MarketOrder \<Rightarrow> Some (msg ORDER_TYPE_MARKET)
         | IOC \<Rightarrow> Some (msg ORDER_TYPE_IOC_LIMIT)
         | LimitOrder \<Rightarrow> None)"

text \<open>The loop returns the bytes the kernel took, whether it failed, and the results left over.\<close>

fun send_loop :: "send_result list \<Rightarrow> u8 list \<Rightarrow> (u8 list \<times> bool \<times> send_result list) option" where
  "send_loop rs [] = Some ([], True, rs)"
| "send_loop [] (b # data) = None"
| "send_loop (r # rs) (b # data) =
     (case r of
        SendCount n \<Rightarrow>
          if n = 0 then Some ([], False, rs)
          else if n \<le> length (b # data) then
            (case send_loop rs (drop n (b # data)) of
               None \<Rightarrow> None
             | Some (sent, ok, rs') \<Rightarrow> Some (take n (b # data) @ sent, ok, rs'))
          else None
      | SendIntr \<Rightarrow> send_loop rs (b # data)
      | SendAgain \<Rightarrow> send_loop rs (b # data)
      | SendFailed \<Rightarrow> Some ([], False, rs))"

definition submit_order ::
  "oms_order \<Rightarrow> send_result list \<Rightarrow> gateway \<Rightarrow> (u8 list \<times> gateway \<times> send_result list) option"
where
  "submit_order ord rs g =
     (if gw_sockfd g < 0 then Some ([], g, rs)
      else
        (case order_msg ord of
           None \<Rightarrow> Some ([], g, rs)
         | Some msg \<Rightarrow>
             (case send_loop rs (order_msg_bytes msg) of
                None \<Rightarrow> None
              | Some (sent, ok, rs') \<Rightarrow> Some (sent, if ok then g else gw_close g, rs'))))"

section \<open>Receiving reports\<close>

fun recv_loop :: "recv_result list \<Rightarrow> u8 list \<Rightarrow> (bool \<times> u8 list \<times> recv_result list) option" where
  "recv_loop [] buf = (if length buf < BUF_SIZE then None else Some (True, buf, []))"
| "recv_loop (r # rs) buf =
     (if length buf < BUF_SIZE then
        (case r of
           RecvData bs \<Rightarrow>
             if bs \<noteq> [] \<and> length bs \<le> BUF_SIZE - length buf then recv_loop rs (buf @ bs) else None
         | RecvEof \<Rightarrow> Some (False, buf, rs)
         | RecvIntr \<Rightarrow> recv_loop rs buf
         | RecvAgain \<Rightarrow> Some (True, buf, rs)
         | RecvError \<Rightarrow> Some (False, buf, rs))
      else Some (True, buf, r # rs))"

definition exec_type_of_byte :: "u8 \<Rightarrow> exec_type" where
  "exec_type_of_byte b =
     (if b = 0 then NewAck else if b = 1 then Fill else if b = 2 then PartialFill
      else if b = 3 then CancelAck else if b = 4 then Reject else if b = 5 then CancelReject
      else OtherExec b)"

definition report_of_wire :: "wire_exec_report \<Rightarrow> execution_report" where
  "report_of_wire w =
     \<lparr>xr_order_id = we_order_id w, xr_exec_type = exec_type_of_byte (we_exec_type w),
      xr_fill_price = we_fill_price w, xr_fill_qty = we_fill_qty w,
      xr_leaves_qty = we_leaves_qty w, xr_timestamp_ns = we_timestamp_ns w\<rparr>"

definition poll_execution ::
  "recv_result list \<Rightarrow> gateway \<Rightarrow> (execution_report option \<times> gateway \<times> recv_result list) option"
where
  "poll_execution rs g =
     (if gw_sockfd g < 0 then Some (None, g, rs)
      else
        (case recv_loop rs (gw_buf g) of
           None \<Rightarrow> None
         | Some (ok, buf, rs') \<Rightarrow>
             if \<not> ok then Some (None, gw_close (g\<lparr>gw_buf := buf\<rparr>), rs')
             else if length buf < 40 then Some (None, g\<lparr>gw_buf := buf\<rparr>, rs')
             else Some (Some (report_of_wire (exec_report_of_bytes (take 40 buf))),
                        g\<lparr>gw_buf := drop 40 buf\<rparr>, rs')))"

section \<open>What is sent\<close>

lemma send_loop_prefix:
  "send_loop rs data = Some (sent, ok, rs') \<Longrightarrow>
     \<exists>rest. data = sent @ rest \<and> (ok \<longleftrightarrow> rest = [])"
proof (induction rs data arbitrary: sent ok rs' rule: send_loop.induct)
  case (3 r rs b data)
  show ?case
  proof (cases r)
    case (SendCount n)
    show ?thesis
    proof (cases "n = 0 \<or> length (b # data) < n")
      case True
      with "3.prems" SendCount show ?thesis by (auto split: if_splits)
    next
      case False
      with "3.prems" SendCount obtain sent' where
        "send_loop rs (drop n (b # data)) = Some (sent', ok, rs')" "sent = take n (b # data) @ sent'"
        by (auto split: option.splits if_splits)
      with "3.IH"(1) [OF SendCount, of sent' ok rs'] False show ?thesis
        by (metis append.assoc append_take_drop_id not_less)
    qed
  qed (use 3 in auto)
qed auto

text \<open>Enough results to take the data, however they are interleaved with retries.\<close>

fun send_capacity :: "send_result list \<Rightarrow> nat" where
  "send_capacity [] = 0"
| "send_capacity (SendCount n # rs) = n + send_capacity rs"
| "send_capacity (_ # rs) = send_capacity rs"

lemma send_loop_returns:
  assumes "\<forall>r \<in> set rs. r \<noteq> SendFailed \<and> r \<noteq> SendCount 0" "send_capacity rs = length data"
  shows "\<exists>rs'. send_loop rs data = Some (data, True, rs')"
  using assms
proof (induction rs data rule: send_loop.induct)
  case (3 r rs b data)
  show ?case
  proof (cases r)
    case (SendCount n)
    with "3.prems" have n: "n \<noteq> 0" "n \<le> length (b # data)" by auto
    have "send_capacity rs = length (drop n (b # data))" using "3.prems"(2) SendCount by simp
    with "3.IH"(1) [OF SendCount n] "3.prems"(1) obtain rs' where
      "send_loop rs (drop n (b # data)) = Some (drop n (b # data), True, rs')" by auto
    with n SendCount show ?thesis by simp
  qed (use 3 in auto)
qed auto

end
