(* ===== verification/Gateway_Properties.thy ===== *)
theory Gateway_Properties
  imports Gateway
begin

text \<open>
  What the order gateway promises: reports are framed exactly out of the byte stream whatever way
  the stream is cut into reads, the read buffer never overflows, and an order that was sent is the
  order the exchange decodes.
\<close>

section \<open>The received stream\<close>

primrec recv_bytes :: "recv_result list \<Rightarrow> u8 list" where
  "recv_bytes [] = []"
| "recv_bytes (r # rs) = (case r of RecvData bs \<Rightarrow> bs | _ \<Rightarrow> []) @ recv_bytes rs"

text \<open>Successive calls of \<open>poll_execution\<close>, as the trading loop makes them.\<close>

fun polls ::
  "nat \<Rightarrow> recv_result list \<Rightarrow> gateway \<Rightarrow> (execution_report list \<times> gateway \<times> recv_result list) option"
where
  "polls 0 rs g = Some ([], g, rs)"
| "polls (Suc n) rs g =
     (case poll_execution rs g of
        None \<Rightarrow> None
      | Some (rep, g1, rs1) \<Rightarrow>
          (case polls n rs1 g1 of
             None \<Rightarrow> None
           | Some (reps, g2, rs2) \<Rightarrow>
               Some ((case rep of None \<Rightarrow> reps | Some x \<Rightarrow> x # reps), g2, rs2)))"

definition decode_report :: "u8 list \<Rightarrow> execution_report" where
  "decode_report bs = report_of_wire (exec_report_of_bytes bs)"

definition open_stream :: "recv_result list \<Rightarrow> bool" where
  "open_stream rs = (\<forall>r \<in> set rs. r \<noteq> RecvEof \<and> r \<noteq> RecvError)"

lemma open_stream_simps [simp]:
  "open_stream []"
  "open_stream (r # rs) \<longleftrightarrow> r \<noteq> RecvEof \<and> r \<noteq> RecvError \<and> open_stream rs"
  by (auto simp: open_stream_def)

lemma recv_loop_stream:
  assumes "recv_loop rs buf = Some (ok, buf', rs')"
  shows "buf @ recv_bytes rs = buf' @ recv_bytes rs' \<and>
         (open_stream rs \<longrightarrow> ok \<and> open_stream rs') \<and>
         (length buf \<le> BUF_SIZE \<longrightarrow> length buf' \<le> BUF_SIZE)"
  using assms
proof (induction rs buf rule: recv_loop.induct)
  case (2 r rs buf)
  then show ?case by (cases r) (auto split: if_splits)
qed (auto split: if_splits)

lemma recv_loop_returns:
  assumes "RecvAgain \<in> set rs \<or> RecvEof \<in> set rs \<or> RecvError \<in> set rs" "RecvData [] \<notin> set rs"
    "length buf + length (recv_bytes rs) \<le> BUF_SIZE"
  shows "\<exists>ok buf' rs'. recv_loop rs buf = Some (ok, buf', rs')"
  using assms
proof (induction rs buf rule: recv_loop.induct)
  case (2 r rs buf)
  then show ?case by (cases r) auto
qed auto

lemma poll_execution_stream:
  assumes "poll_execution rs g = Some (rep, g', rs')" "open_stream rs" "0 \<le> gw_sockfd g"
  obtains chunks where
    "gw_buf g @ recv_bytes rs = concat chunks @ gw_buf g' @ recv_bytes rs'"
    "(case rep of None \<Rightarrow> [] | Some x \<Rightarrow> [x]) = map decode_report chunks"
    "\<forall>c \<in> set chunks. length c = 40" "open_stream rs'" "0 \<le> gw_sockfd g'"
    "rep = None \<longrightarrow> length (gw_buf g') < 40"
proof -
  from assms(1,3) obtain ok buf where
    loop: "recv_loop rs (gw_buf g) = Some (ok, buf, rs')"
    and rest: "(if \<not> ok then (None, gw_close (g\<lparr>gw_buf := buf\<rparr>))
                else if length buf < 40 then (None, g\<lparr>gw_buf := buf\<rparr>)
                else (Some (decode_report (take 40 buf)), g\<lparr>gw_buf := drop 40 buf\<rparr>)) = (rep, g')"
    by (auto simp: poll_execution_def decode_report_def split: option.splits if_splits)
  note stream = recv_loop_stream [OF loop]
  with assms(2) rest have
    eq: "(if length buf < 40 then (None, g\<lparr>gw_buf := buf\<rparr>)
          else (Some (decode_report (take 40 buf)), g\<lparr>gw_buf := drop 40 buf\<rparr>)) = (rep, g')"
    by simp
  show ?thesis
  proof (cases "length buf < 40")
    case True
    with eq have "rep = None" "g' = g\<lparr>gw_buf := buf\<rparr>" by auto
    with stream assms(2,3) True show ?thesis by (intro that [of "[]"]) auto
  next
    case False
    with eq have "rep = Some (decode_report (take 40 buf))" "g' = g\<lparr>gw_buf := drop 40 buf\<rparr>" by auto
    with stream assms(2,3) False show ?thesis
      by (intro that [of "[take 40 buf]"])
        (auto simp del: append.assoc simp add: append.assoc [symmetric])
  qed
qed

lemma polls_stream:
  assumes "polls n rs g = Some (reps, g', rs')" "open_stream rs" "0 \<le> gw_sockfd g"
  shows "\<exists>chunks. gw_buf g @ recv_bytes rs = concat chunks @ gw_buf g' @ recv_bytes rs' \<and>
           reps = map decode_report chunks \<and> (\<forall>c \<in> set chunks. length c = 40)"
  using assms
proof (induction n arbitrary: rs g reps)
  case (Suc n)
  from Suc.prems(1) obtain rep g1 rs1 reps1 where
    p: "poll_execution rs g = Some (rep, g1, rs1)" "polls n rs1 g1 = Some (reps1, g', rs')"
    "reps = (case rep of None \<Rightarrow> [] | Some x \<Rightarrow> [x]) @ reps1"
    by (auto split: option.splits)
  obtain cs where cs: "gw_buf g @ recv_bytes rs = concat cs @ gw_buf g1 @ recv_bytes rs1"
    "(case rep of None \<Rightarrow> [] | Some x \<Rightarrow> [x]) = map decode_report cs"
    "\<forall>c \<in> set cs. length c = 40" "open_stream rs1" "0 \<le> gw_sockfd g1"
    by (rule poll_execution_stream [OF p(1) Suc.prems(2,3)])
  from Suc.IH [OF p(2) cs(4,5)] obtain cs1 where
    "gw_buf g1 @ recv_bytes rs1 = concat cs1 @ gw_buf g' @ recv_bytes rs'"
    "reps1 = map decode_report cs1" "\<forall>c \<in> set cs1. length c = 40" by blast
  with cs p(3) show ?case by (intro exI [of _ "cs @ cs1"]) auto
qed auto

lemma concat_chunks_prefix:
  assumes "concat cs @ rest = concat ds" "\<forall>c \<in> set cs. length c = k" "\<forall>d \<in> set ds. length d = k" "0 < k"
  shows "\<exists>es. ds = cs @ es \<and> rest = concat es"
  using assms
proof (induction cs arbitrary: ds)
  case (Cons c cs)
  show ?case
  proof (cases ds)
    case Nil
    with Cons.prems show ?thesis by auto
  next
    case (Cons d ds')
    with Cons.prems have "c = d" "concat cs @ rest = concat ds'" by auto
    with Cons.IH [of ds'] Cons.prems Cons show ?thesis by auto
  qed
qed auto

lemma decode_exec_report: "wf_exec w \<Longrightarrow> decode_report (exec_report_bytes w) = report_of_wire w"
  by (simp add: decode_report_def exec_report_roundtrip)

text \<open>
  C17. Framing of the execution stream. Suppose the exchange wrote the reports \<open>ws\<close> to a connection
  that stays open, and the kernel hands the bytes over in reads of any sizes, interleaved with
  interruptions and empty polls. Then after any number of calls of \<open>poll_execution\<close> the reports
  delivered are exactly the first reports written, decoded field by field and in order; what was
  written and not delivered is still in the buffer or the socket.
\<close>

theorem gateway_delivers_reports:
  assumes "polls n rs g = Some (reps, g', rs')" "open_stream rs" "0 \<le> gw_sockfd g" "gw_buf g = []"
    "recv_bytes rs = concat (map exec_report_bytes ws)" "list_all wf_exec ws"
  shows "\<exists>later. map report_of_wire ws = reps @ map report_of_wire later \<and>
           gw_buf g' @ recv_bytes rs' = concat (map exec_report_bytes later)"
proof -
  from polls_stream [OF assms(1-3)] assms(4,5) obtain chunks where
    chunks: "concat (map exec_report_bytes ws) = concat chunks @ gw_buf g' @ recv_bytes rs'"
    "reps = map decode_report chunks" "\<forall>c \<in> set chunks. length c = 40" by auto
  from assms(6) have "\<forall>d \<in> set (map exec_report_bytes ws). length d = 40" by (auto simp: list_all_iff)
  with concat_chunks_prefix [OF chunks(1) [symmetric] chunks(3)] obtain es where
    es: "map exec_report_bytes ws = chunks @ es" "gw_buf g' @ recv_bytes rs' = concat es" by auto
  from es(1) obtain ws1 ws2 where
    ws: "ws = ws1 @ ws2" "chunks = map exec_report_bytes ws1" "es = map exec_report_bytes ws2"
    by (auto simp: map_eq_append_conv)
  have "reps = map report_of_wire ws1"
    using chunks(2) ws assms(6) by (auto simp: decode_exec_report list_all_iff)
  with ws es(2) show ?thesis by (intro exI [of _ ws2]) simp
qed

definition sample_exec :: wire_exec_report where
  "sample_exec = \<lparr>we_exec_type = 1, we_side = 0, we_pad1 = [0, 0], we_fill_qty = 5, we_order_id = 7,
     we_fill_price = dbl_of_int 101, we_leaves_qty = 0, we_pad2 = 0, we_timestamp_ns = 9\<rparr>"

lemma wf_sample_exec [simp]: "wf_exec sample_exec"
  by (simp add: sample_exec_def wf_exec_def)

lemma exec_report_nonempty [simp]: "wf_exec w \<Longrightarrow> exec_report_bytes w \<noteq> []"
  using length_exec_report [of w] by (auto simp del: length_exec_report)

text \<open>The report arrives in two reads, the first poll sees only a part of it.\<close>

definition sample_reads :: "recv_result list" where
  "sample_reads = [RecvData (take 15 (exec_report_bytes sample_exec)), RecvAgain, RecvIntr,
     RecvData (drop 15 (exec_report_bytes sample_exec)), RecvAgain]"

lemma sample_polls:
  "polls 2 sample_reads \<lparr>gw_sockfd = 3, gw_buf = []\<rparr> =
     Some ([report_of_wire sample_exec], \<lparr>gw_sockfd = 3, gw_buf = []\<rparr>, [])"
  by (simp add: sample_reads_def numeral_2_eq_2 poll_execution_def BUF_SIZE_def
      exec_report_roundtrip)

theorem gateway_delivers_reports_witness:
  "\<exists>reps g' rs' later. polls 2 sample_reads \<lparr>gw_sockfd = 3, gw_buf = []\<rparr> = Some (reps, g', rs') \<and>
     reps \<noteq> [] \<and> map report_of_wire [sample_exec] = reps @ map report_of_wire later"
  using gateway_delivers_reports [OF sample_polls, of "[sample_exec]"] sample_polls
  by (auto simp: sample_reads_def)

section \<open>Every report arrives\<close>

definition delivers :: "recv_result \<Rightarrow> bool" where
  "delivers r = (case r of RecvData bs \<Rightarrow> bs \<noteq> [] | RecvIntr \<Rightarrow> True | _ \<Rightarrow> False)"

lemma recv_loop_delivers:
  assumes "list_all delivers ds" "length buf + length (recv_bytes ds) < BUF_SIZE"
  shows "recv_loop (ds @ RecvAgain # rs) buf = Some (True, buf @ recv_bytes ds, rs)"
  using assms
proof (induction ds arbitrary: buf)
  case (Cons d ds)
  then show ?case by (cases d) (auto simp: delivers_def)
qed simp

lemma polls_drain:
  assumes "0 \<le> gw_sockfd g" "gw_buf g = concat (map exec_report_bytes ws)" "list_all wf_exec ws"
    "length (gw_buf g) < BUF_SIZE"
  shows "polls (length ws) (replicate (length ws) RecvAgain) g =
           Some (map report_of_wire ws, g\<lparr>gw_buf := []\<rparr>, [])"
  using assms
proof (induction ws arbitrary: g)
  case (Cons w ws)
  then have "polls (length ws) (replicate (length ws) RecvAgain)
      (g\<lparr>gw_buf := concat (map exec_report_bytes ws)\<rparr>) = Some (map report_of_wire ws, g\<lparr>gw_buf := []\<rparr>, [])"
    using Cons.IH [of "g\<lparr>gw_buf := concat (map exec_report_bytes ws)\<rparr>"] by simp
  moreover have "poll_execution (RecvAgain # replicate (length ws) RecvAgain) g =
      Some (Some (report_of_wire w), g\<lparr>gw_buf := concat (map exec_report_bytes ws)\<rparr>,
            replicate (length ws) RecvAgain)"
    using Cons.prems by (simp add: poll_execution_def exec_report_roundtrip)
  ultimately show ?case by simp
qed simp

lemma length_concat_reports:
  "list_all wf_exec ws \<Longrightarrow> length (concat (map exec_report_bytes ws)) = 40 * length ws"
  by (induction ws) auto

text \<open>
  C18. Liveness of the execution stream. When the exchange has written between one and 102 reports
  and the kernel delivers their bytes in any non-empty pieces, with interruptions anywhere, and then
  reports that nothing is left, as many calls of \<open>poll_execution\<close> as there are reports return all
  of them, in order, and leave the buffer empty and the connection open.
\<close>

theorem gateway_drains_reports:
  assumes "0 \<le> gw_sockfd g" "gw_buf g = []" "list_all delivers ds"
    "recv_bytes ds = concat (map exec_report_bytes ws)" "list_all wf_exec ws"
    "ws \<noteq> []" "length ws \<le> 102"
  shows "polls (length ws) (ds @ replicate (length ws) RecvAgain) g = Some (map report_of_wire ws, g, [])"
proof -
  obtain w us where ws: "ws = w # us" using assms(6) by (cases ws) auto
  let ?g = "g\<lparr>gw_buf := recv_bytes ds\<rparr>"
  have len: "length (recv_bytes ds) < BUF_SIZE"
    using assms(4,5,7) by (simp add: length_concat_reports BUF_SIZE_def)
  have "recv_loop (ds @ replicate (length ws) RecvAgain) (gw_buf g) =
        recv_loop (replicate (length ws) RecvAgain) (gw_buf ?g)"
    using recv_loop_delivers [OF assms(3), of "gw_buf g"] len assms(2) ws by simp
  then have "polls (length ws) (ds @ replicate (length ws) RecvAgain) g =
             polls (length ws) (replicate (length ws) RecvAgain) ?g"
    using ws assms(1) by (simp add: poll_execution_def gw_close_def)
  also have "\<dots> = Some (map report_of_wire ws, g\<lparr>gw_buf := []\<rparr>, [])"
    using polls_drain [of ?g ws] assms(1,4,5) len by simp
  finally show ?thesis using assms(2) by simp
qed

theorem gateway_drains_reports_witness:
  "polls 1 ([RecvIntr, RecvData (take 3 (exec_report_bytes sample_exec)),
       RecvData (drop 3 (exec_report_bytes sample_exec))] @ [RecvAgain]) \<lparr>gw_sockfd = 3, gw_buf = []\<rparr> =
     Some ([report_of_wire sample_exec], \<lparr>gw_sockfd = 3, gw_buf = []\<rparr>, [])"
  using gateway_drains_reports [of "\<lparr>gw_sockfd = 3, gw_buf = []\<rparr>"
      "[RecvIntr, RecvData (take 3 (exec_report_bytes sample_exec)),
        RecvData (drop 3 (exec_report_bytes sample_exec))]" "[sample_exec]"]
  by (simp add: delivers_def)

section \<open>The read buffer\<close>

inductive gw_step :: "gateway \<Rightarrow> gateway \<Rightarrow> bool" where
  connect: "gw_connect sock conn g = (res, g') \<Longrightarrow> gw_step g g'"
| submit: "submit_order ord rs g = Some (sent, g', rs') \<Longrightarrow> gw_step g g'"
| poll: "poll_execution rs g = Some (rep, g', rs') \<Longrightarrow> gw_step g g'"
| close: "gw_step g (gw_close g)"

text \<open>
  The read buffer of the gateway never holds more than its 4096 bytes, whatever sequence of
  connects, submissions, polls and closes is made and whatever the kernel returns; and a closed
  gateway keeps no bytes of the old connection.
\<close>

theorem gateway_buffer_bounded:
  assumes "gw_step\<^sup>*\<^sup>* init_gateway g"
  shows "length (gw_buf g) \<le> BUF_SIZE \<and> gw_buf (gw_close g) = [] \<and> gw_sockfd (gw_close g) < 0"
  using assms
proof (induction rule: rtranclp_induct)
  case (step g g')
  from step.hyps(2) have "length (gw_buf g') \<le> BUF_SIZE"
  proof cases
    case (connect sock conn res)
    with step.IH show ?thesis by (auto simp: gw_connect_def Let_def split: if_splits)
  next
    case (submit ord rs sent rs')
    with step.IH show ?thesis
      by (auto simp: submit_order_def gw_close_def split: option.splits if_splits)
  next
    case (poll rs rep rs')
    with step.IH show ?thesis
      by (auto simp: poll_execution_def gw_close_def split: option.splits if_splits
          dest!: recv_loop_stream)
  qed (simp add: gw_close_def)
  then show ?case by (simp add: gw_close_def)
qed (simp add: init_gateway_def gw_close_def)

theorem gateway_buffer_bounded_witness:
  "length (gw_buf \<lparr>gw_sockfd = 3, gw_buf = []\<rparr>) \<le> BUF_SIZE"
proof -
  have "gw_step init_gateway \<lparr>gw_sockfd = 3, gw_buf = []\<rparr>"
    by (rule gw_step.connect [of 3 0 _ True]) (simp add: gw_connect_def init_gateway_def)
  from gateway_buffer_bounded [OF r_into_rtranclp [of gw_step, OF this]] show ?thesis by simp
qed

section \<open>Orders on the wire\<close>

lemma submit_order_wire:
  assumes "submit_order ord rs g = Some (sent, g', rs')" "0 \<le> gw_sockfd g" "wf_double (oo_price ord)"
  shows "if oo_type ord = LimitOrder then sent = [] \<and> g' = g \<and> rs' = rs
         else g' = g \<and> length sent = 48 \<and> order_msg ord = Some (order_msg_of_bytes sent) \<or>
              g' = gw_close g \<and> length sent < 48"
proof (cases "order_msg ord")
  case None
  then have "oo_type ord = LimitOrder" by (auto simp: order_msg_def Let_def split: order_type.splits)
  with None assms(1,2) show ?thesis by (simp add: submit_order_def)
next
  case (Some msg)
  then have msg: "oo_type ord \<noteq> LimitOrder" "wo_price msg = oo_price ord"
    by (auto simp: order_msg_def Let_def split: order_type.splits)
  from assms(1,2) Some obtain ok where
    loop: "send_loop rs (order_msg_bytes msg) = Some (sent, ok, rs')" and
    g': "g' = (if ok then g else gw_close g)"
    by (auto simp: submit_order_def split: option.splits)
  from send_loop_prefix [OF loop] obtain rest where
    rest: "order_msg_bytes msg = sent @ rest" "ok \<longleftrightarrow> rest = []" by blast
  then have len: "length sent + length rest = 48" using length_order_msg [of msg] by simp
  show ?thesis
  proof (cases ok)
    case True
    with rest g' len Some msg assms(3) order_msg_roundtrip [of msg] show ?thesis by simp
  next
    case False
    with rest(2) len have "length sent < 48" by (cases rest) auto
    with False g' msg show ?thesis by simp
  qed
qed


definition sample_order :: oms_order where
  "sample_order = empty_order\<lparr>oo_id := 7, oo_type := IOC, oo_price := dbl_of_int 101, oo_qty := 5\<rparr>"


text \<open>
  A disconnect loses reports. When a complete report and the end of the stream are both
  waiting, one poll reads both, \<open>close\<close> empties the buffer, and the report is never delivered: the
  poll returns nothing and so does every later one.
\<close>

theorem disconnect_discards_report:
  "wf_exec w \<Longrightarrow> 0 \<le> fd \<Longrightarrow>
   polls (Suc n) [RecvData (exec_report_bytes w), RecvEof] \<lparr>gw_sockfd = fd, gw_buf = []\<rparr> =
     Some ([], \<lparr>gw_sockfd = - 1, gw_buf = []\<rparr>, [])"
proof -
  assume w: "wf_exec w" "0 \<le> fd"
  have closed: "polls n [] \<lparr>gw_sockfd = - 1, gw_buf = []\<rparr> = Some ([], \<lparr>gw_sockfd = - 1, gw_buf = []\<rparr>, [])"
    by (induction n) (simp_all add: poll_execution_def)
  from w show ?thesis
    by (simp add: poll_execution_def BUF_SIZE_def gw_close_def closed)
qed

theorem disconnect_discards_report_witness:
  "polls 2 [RecvData (exec_report_bytes sample_exec), RecvEof] \<lparr>gw_sockfd = 3, gw_buf = []\<rparr> =
     Some ([], \<lparr>gw_sockfd = - 1, gw_buf = []\<rparr>, [])"
  using disconnect_discards_report [OF wf_sample_exec, of 3 1] by (simp add: numeral_2_eq_2)

end
