(* ===== verification/Market_Data.thy ===== *)
theory Market_Data
  imports Bytes Common
begin

text \<open>
  The market-data receiver, \<open>include/nts/market_data.h\<close> and \<open>src/market_data.cpp\<close>: the message structs
  with their object representation, and the UDP receiver that drains its socket and keeps the latest
  valid message. The union \<open>MdMsg\<close> is its 56 bytes; reading it as a header, a quote or a reference
  decodes them at the offsets of that struct. What successive calls of \<open>recvfrom\<close> return is an
  argument; \<open>None\<close> means that the list of results ended while the loop still called.
\<close>

section \<open>Messages\<close>

datatype md_msg_type = MdQuoteType | MdReferenceType | MdOtherType u8

definition md_type_of_byte :: "u8 \<Rightarrow> md_msg_type" where
  "md_type_of_byte b = (if b = 1 then MdQuoteType else if b = 4 then MdReferenceType else MdOtherType b)"

definition md_type_byte :: "md_msg_type \<Rightarrow> u8" where
  "md_type_byte t = (case t of MdQuoteType \<Rightarrow> 1 | MdReferenceType \<Rightarrow> 4 | MdOtherType b \<Rightarrow> b)"

record md_header =
  mh_timestamp_ns :: u64
  mh_exchange_tick :: u64
  mh_instrument_id :: u32
  mh_sequence_num :: u32
  mh_type :: md_msg_type

record md_quote =
  mq_header :: md_header
  mq_bid_price :: double
  mq_ask_price :: double
  mq_bid_size :: u32
  mq_ask_size :: u32

record md_reference =
  mf_header :: md_header
  mf_reference_mid :: double

type_synonym md_msg = "u8 list"

definition md_header_bytes :: "md_header \<Rightarrow> u8 list" where
  "md_header_bytes h =
     enc_u64 (mh_timestamp_ns h) @ enc_u64 (mh_exchange_tick h) @ enc_u32 (mh_instrument_id h) @
     enc_u32 (mh_sequence_num h) @ enc_u8 (md_type_byte (mh_type h)) @ replicate 7 0"

definition md_quote_bytes :: "md_quote \<Rightarrow> u8 list" where
  "md_quote_bytes q =
     md_header_bytes (mq_header q) @ enc_double (mq_bid_price q) @ enc_double (mq_ask_price q) @
     enc_u32 (mq_bid_size q) @ enc_u32 (mq_ask_size q)"

definition md_reference_bytes :: "md_reference \<Rightarrow> u8 list" where
  "md_reference_bytes f =
     md_header_bytes (mf_header f) @ enc_double (mf_reference_mid f) @ replicate 8 0"

definition msg_header :: "md_msg \<Rightarrow> md_header" where
  "msg_header bs =
     \<lparr>mh_timestamp_ns = dec_u64 (field 0 8 bs), mh_exchange_tick = dec_u64 (field 8 8 bs),
      mh_instrument_id = dec_u32 (field 16 4 bs), mh_sequence_num = dec_u32 (field 20 4 bs),
      mh_type = md_type_of_byte (dec_u8 (field 24 1 bs))\<rparr>"

definition msg_quote :: "md_msg \<Rightarrow> md_quote" where
  "msg_quote bs =
     \<lparr>mq_header = msg_header bs, mq_bid_price = dec_double (field 32 8 bs),
      mq_ask_price = dec_double (field 40 8 bs), mq_bid_size = dec_u32 (field 48 4 bs),
      mq_ask_size = dec_u32 (field 52 4 bs)\<rparr>"

definition msg_reference :: "md_msg \<Rightarrow> md_reference" where
  "msg_reference bs =
     \<lparr>mf_header = msg_header bs, mf_reference_mid = dec_double (field 32 8 bs)\<rparr>"

section \<open>The receiver\<close>

datatype md_recv = Datagram "u8 list" | MdAgain | MdError

record md_receiver =
  mr_sockfd :: int
  mr_packets :: u64
  mr_drops :: u64
  mr_quotes :: u64
  mr_references :: u64
  mr_last_seq :: u32

definition init_receiver :: md_receiver where
  "init_receiver =
     \<lparr>mr_sockfd = - 1, mr_packets = 0, mr_drops = 0, mr_quotes = 0, mr_references = 0, mr_last_seq = 0\<rparr>"

definition md_init :: "int \<Rightarrow> int \<Rightarrow> int \<Rightarrow> bool \<Rightarrow> int \<Rightarrow> md_receiver \<Rightarrow> bool \<times> md_receiver" where
  "md_init socket_res fcntl_res bind_res group_valid membership_res r =
     (let r1 = r\<lparr>mr_sockfd := socket_res\<rparr>; closed = r1\<lparr>mr_sockfd := - 1\<rparr>
      in if mr_sockfd r1 < 0 then (False, r1)
         else if fcntl_res < 0 then (False, closed)
         else if bind_res < 0 then (False, closed)
         else if \<not> group_valid \<or> membership_res < 0 then (False, closed)
         else (True, r1))"

definition md_close :: "md_receiver \<Rightarrow> md_receiver" where
  "md_close r = (if mr_sockfd r \<ge> 0 then r\<lparr>mr_sockfd := - 1\<rparr> else r)"

text \<open>
  \<open>recvfrom\<close> writes at most 56 bytes of a datagram over the zeroed candidate, discards the rest, and
  returns how many it wrote.
\<close>

definition candidate :: "u8 list \<Rightarrow> md_msg" where
  "candidate d = take 56 d @ replicate (56 - length d) 0"

definition received :: "u8 list \<Rightarrow> nat" where
  "received d = min 56 (length d)"

definition valid_md :: "u8 list \<Rightarrow> bool" where
  "valid_md d =
     (\<not> received d < 32 \<and>
      (case mh_type (msg_header (candidate d)) of
         MdQuoteType \<Rightarrow> received d = 56
       | MdReferenceType \<Rightarrow> received d = 48
       | MdOtherType _ \<Rightarrow> False))"

definition count_type :: "md_msg_type \<Rightarrow> md_receiver \<Rightarrow> md_receiver" where
  "count_type t r =
     (case t of
        MdQuoteType \<Rightarrow> r\<lparr>mr_quotes := mr_quotes r + 1\<rparr>
      | MdReferenceType \<Rightarrow> r\<lparr>mr_references := mr_references r + 1\<rparr>
      | MdOtherType _ \<Rightarrow> r)"

definition count_packet :: "u32 \<Rightarrow> md_receiver \<Rightarrow> md_receiver" where
  "count_packet sq r =
     (let r1 = (if mr_packets r > 0 \<and> sq \<noteq> mr_last_seq r + 1
                then r\<lparr>mr_drops := mr_drops r + ucast (sq - mr_last_seq r - 1)\<rparr> else r)
      in r1\<lparr>mr_last_seq := sq, mr_packets := mr_packets r1 + 1\<rparr>)"

definition take_datagram :: "u8 list \<Rightarrow> md_receiver \<Rightarrow> md_receiver" where
  "take_datagram d r =
     (let h = msg_header (candidate d) in count_packet (mh_sequence_num h) (count_type (mh_type h) r))"

text \<open>The loop carries \<open>latest\<close>, which is set exactly when \<open>got_latest\<close> is.\<close>

fun md_poll_loop ::
  "md_recv list \<Rightarrow> md_msg option \<Rightarrow> md_receiver \<Rightarrow> (bool \<times> md_msg option \<times> md_receiver \<times> md_recv list) option"
where
  "md_poll_loop [] latest r = None"
| "md_poll_loop (MdAgain # rs) latest r = Some (True, latest, r, rs)"
| "md_poll_loop (MdError # rs) latest r = Some (False, latest, r, rs)"
| "md_poll_loop (Datagram d # rs) latest r =
     (if valid_md d then md_poll_loop rs (Some (candidate d)) (take_datagram d r)
      else md_poll_loop rs latest r)"

text \<open>The result is the returned flag and the caller's message after the call.\<close>

definition md_poll ::
  "md_recv list \<Rightarrow> md_msg \<Rightarrow> md_receiver \<Rightarrow> (bool \<times> md_msg \<times> md_receiver \<times> md_recv list) option"
where
  "md_poll rs msg r =
     (if mr_sockfd r < 0 then Some (False, msg, r, rs)
      else
        (case md_poll_loop rs None r of
           None \<Rightarrow> None
         | Some (drained, latest, r', rs') \<Rightarrow>
             Some (latest \<noteq> None,
                   (if drained then (case latest of None \<Rightarrow> msg | Some m \<Rightarrow> m) else msg), r', rs')))"

section \<open>Reading the structs back\<close>

lemma md_type_roundtrip: "b \<noteq> 1 \<Longrightarrow> b \<noteq> 4 \<Longrightarrow> md_type_of_byte (md_type_byte (MdOtherType b)) = MdOtherType b"
  "md_type_of_byte (md_type_byte MdQuoteType) = MdQuoteType"
  "md_type_of_byte (md_type_byte MdReferenceType) = MdReferenceType"
  by (simp_all add: md_type_of_byte_def md_type_byte_def)

lemma length_md_header [simp]: "length (md_header_bytes h) = 32"
  by (simp add: md_header_bytes_def)

lemma length_md_quote [simp]: "length (md_quote_bytes q) = 56"
  by (simp add: md_quote_bytes_def)

lemma length_md_reference [simp]: "length (md_reference_bytes f) = 48"
  by (simp add: md_reference_bytes_def)

lemma candidate_full [simp]: "length d = 56 \<Longrightarrow> candidate d = d"
  by (simp add: candidate_def)

lemma length_candidate [simp]: "length (candidate d) = 56"
  by (simp add: candidate_def)

end
