(* ===== verification/Market_Data_Properties.thy ===== *)
theory Market_Data_Properties
  imports Market_Data
begin

text \<open>
  What the market-data receiver promises: a poll drains the socket and returns the latest valid
  message, the counters count what was valid, gaps in the sequence are counted exactly, and the
  messages the exchange encodes are decoded to the same fields.
\<close>

definition msg_seq :: "u8 list \<Rightarrow> u32" where
  "msg_seq d = mh_sequence_num (msg_header (candidate d))"

definition msg_type :: "u8 list \<Rightarrow> md_msg_type" where
  "msg_type d = mh_type (msg_header (candidate d))"

section \<open>Draining the socket\<close>

lemma md_poll_loop_drains:
  "md_poll_loop (map Datagram ds @ MdAgain # rs) latest r =
     (let vs = filter valid_md ds
      in Some (True, (if vs = [] then latest else Some (candidate (last vs))), fold take_datagram vs r, rs))"
  by (induction ds arbitrary: latest r) (auto simp: Let_def)

lemma md_poll_returns:
  "\<exists>got msg' r' rs'. md_poll (map Datagram ds @ MdAgain # rs) msg r = Some (got, msg', r', rs')"
  by (cases "md_poll (map Datagram ds @ MdAgain # rs) msg r")
    (auto simp: md_poll_def md_poll_loop_drains Let_def split: if_splits)

lemma valid_md_type: "valid_md d \<Longrightarrow> msg_type d = MdQuoteType \<or> msg_type d = MdReferenceType"
  by (auto simp: valid_md_def msg_type_def split: md_msg_type.splits)

lemma take_datagram_fields:
  assumes "valid_md d"
  shows "mr_sockfd (take_datagram d r) = mr_sockfd r"
    "mr_packets (take_datagram d r) = mr_packets r + 1"
    "mr_quotes (take_datagram d r) = mr_quotes r + of_bool (msg_type d = MdQuoteType)"
    "mr_references (take_datagram d r) = mr_references r + of_bool (msg_type d = MdReferenceType)"
    "mr_last_seq (take_datagram d r) = msg_seq d"
    "mr_packets r \<noteq> 0 \<Longrightarrow>
       mr_drops (take_datagram d r) = mr_drops r + ucast (msg_seq d - mr_last_seq r - 1)"
    "mr_packets r = 0 \<Longrightarrow> mr_drops (take_datagram d r) = mr_drops r"
  using valid_md_type [OF assms]
  by (auto simp: take_datagram_def count_packet_def count_type_def msg_type_def msg_seq_def Let_def
      word_neq_0_conv)

definition count_type_of :: "md_msg_type \<Rightarrow> u8 list list \<Rightarrow> u64" where
  "count_type_of t ds = of_nat (length (filter (\<lambda>d. msg_type d = t) ds))"

lemma fold_take_fields:
  assumes "list_all valid_md vs"
  shows "mr_sockfd (fold take_datagram vs r) = mr_sockfd r"
    "mr_packets (fold take_datagram vs r) = mr_packets r + of_nat (length vs)"
    "mr_quotes (fold take_datagram vs r) = mr_quotes r + count_type_of MdQuoteType vs"
    "mr_references (fold take_datagram vs r) = mr_references r + count_type_of MdReferenceType vs"
    "mr_last_seq (fold take_datagram vs r) = (if vs = [] then mr_last_seq r else msg_seq (last vs))"
  using assms
  by (induction vs arbitrary: r) (simp_all add: take_datagram_fields count_type_of_def)

lemma list_all_filter [simp]: "list_all P (filter P xs)"
  by (auto simp: list_all_iff)

section \<open>Messages of the exchange\<close>

definition wf_quote :: "md_quote \<Rightarrow> bool" where
  "wf_quote q =
     (mh_type (mq_header q) = MdQuoteType \<and> wf_double (mq_bid_price q) \<and> wf_double (mq_ask_price q))"

definition wf_reference :: "md_reference \<Rightarrow> bool" where
  "wf_reference f = (mh_type (mf_header f) = MdReferenceType \<and> wf_double (mf_reference_mid f))"

lemma field_beyond: "length xs \<le> off \<Longrightarrow> field off n (xs @ ys) = field (off - length xs) n ys"
  and field_within: "off + n \<le> length xs \<Longrightarrow> field off n (xs @ ys) = field off n xs"
  and field_whole: "length xs = n \<Longrightarrow> field 0 n xs = xs"
  by (simp_all add: field_def)

lemmas read_fields = field_beyond field_within field_whole u8f.dec_enc u32f.dec_enc u64f.dec_enc f64f.dec_enc

lemma msg_header_bytes:
  assumes "md_type_of_byte (md_type_byte (mh_type h)) = mh_type h"
  shows "msg_header (md_header_bytes h @ ys) = h"
  using assms by (simp add: msg_header_def md_header_bytes_def read_fields)

lemma candidate_short: "length d \<le> 56 \<Longrightarrow> candidate d = d @ replicate (56 - length d) 0"
  by (simp add: candidate_def)

lemma quote_received:
  assumes "wf_quote q"
  shows "valid_md (md_quote_bytes q)" "msg_quote (candidate (md_quote_bytes q)) = q"
proof -
  have h: "msg_header (md_quote_bytes q) = mq_header q"
    using assms unfolding md_quote_bytes_def
    by (intro msg_header_bytes) (simp add: wf_quote_def md_type_roundtrip)
  with assms show "valid_md (md_quote_bytes q)" by (simp add: valid_md_def received_def wf_quote_def)
  have "dec_double (field 32 8 (md_quote_bytes q)) = mq_bid_price q"
    "dec_double (field 40 8 (md_quote_bytes q)) = mq_ask_price q"
    "dec_u32 (field 48 4 (md_quote_bytes q)) = mq_bid_size q"
    "dec_u32 (field 52 4 (md_quote_bytes q)) = mq_ask_size q"
    using assms by (simp_all add: md_quote_bytes_def read_fields wf_quote_def)
  with h show "msg_quote (candidate (md_quote_bytes q)) = q" by (simp add: msg_quote_def)
qed

lemma reference_received:
  assumes "wf_reference f"
  shows "valid_md (md_reference_bytes f)" "msg_reference (candidate (md_reference_bytes f)) = f"
proof -
  have cand: "candidate (md_reference_bytes f) = md_reference_bytes f @ replicate 8 0"
    by (simp add: candidate_short)
  have h: "msg_header (candidate (md_reference_bytes f)) = mf_header f"
    using assms unfolding cand unfolding md_reference_bytes_def append.assoc
    by (intro msg_header_bytes) (simp add: wf_reference_def md_type_roundtrip)
  with assms show "valid_md (md_reference_bytes f)"
    by (simp add: valid_md_def received_def wf_reference_def)
  have "dec_double (field 32 8 (candidate (md_reference_bytes f))) = mf_reference_mid f"
    using assms unfolding cand by (simp add: md_reference_bytes_def read_fields wf_reference_def)
  with h show "msg_reference (candidate (md_reference_bytes f)) = f" by (simp add: msg_reference_def)
qed

definition sample_header :: "u32 \<Rightarrow> md_msg_type \<Rightarrow> md_header" where
  "sample_header sq t =
     \<lparr>mh_timestamp_ns = 0, mh_exchange_tick = 5, mh_instrument_id = 1, mh_sequence_num = sq, mh_type = t\<rparr>"

definition sample_quote :: "u32 \<Rightarrow> md_quote" where
  "sample_quote sq = \<lparr>mq_header = sample_header sq MdQuoteType, mq_bid_price = dbl_of_int 100,
     mq_ask_price = dbl_of_int 101, mq_bid_size = 5, mq_ask_size = 6\<rparr>"

lemma wf_sample_quote [simp]: "wf_quote (sample_quote sq)"
  by (simp add: wf_quote_def sample_quote_def sample_header_def)

lemma sample_quote_seq [simp]: "msg_seq (md_quote_bytes (sample_quote sq)) = sq"
proof -
  have "mq_header (msg_quote (candidate (md_quote_bytes (sample_quote sq)))) = sample_header sq MdQuoteType"
    using quote_received(2) [OF wf_sample_quote] by (simp add: sample_quote_def)
  then show ?thesis by (simp add: msg_seq_def msg_quote_def sample_header_def)
qed

definition listening :: "u64 \<Rightarrow> u32 \<Rightarrow> md_receiver" where
  "listening n sq = init_receiver\<lparr>mr_sockfd := 3, mr_packets := n, mr_last_seq := sq\<rparr>"

text \<open>
  C20. A poll drains the socket. When the datagrams \<open>ds\<close> are waiting, \<open>poll\<close> reads all of them,
  ignores the ones that are no valid message (too short, unknown type, or a length that is not
  that of the type), returns true exactly when one was valid, and then the message is the last
  valid one. The counters grow by the numbers of valid messages, of quotes and of references, and
  the last sequence number is that of the message returned.
\<close>

theorem md_poll_latest:
  assumes "0 \<le> mr_sockfd r" "md_poll (map Datagram ds @ MdAgain # rs) msg r = Some (got, msg', r', rs')"
    "vs = filter valid_md ds"
  shows "rs' = rs \<and> got = (vs \<noteq> []) \<and> msg' = (if got then candidate (last vs) else msg) \<and>
         mr_sockfd r' = mr_sockfd r \<and> mr_packets r' = mr_packets r + of_nat (length vs) \<and>
         mr_quotes r' = mr_quotes r + count_type_of MdQuoteType vs \<and>
         mr_references r' = mr_references r + count_type_of MdReferenceType vs \<and>
         mr_last_seq r' = (if got then msg_seq (last vs) else mr_last_seq r)"
proof -
  have "list_all valid_md vs" using assms(3) by simp
  from fold_take_fields [OF this, of r] assms show ?thesis
    by (auto simp: md_poll_def md_poll_loop_drains Let_def)
qed

theorem md_poll_latest_witness:
  "\<exists>got msg' r' rs'. md_poll [Datagram [1, 2], Datagram (md_quote_bytes (sample_quote 9)), MdAgain] [] (listening 0 0) =
       Some (got, msg', r', rs') \<and> got \<and> msg' = md_quote_bytes (sample_quote 9) \<and> mr_packets r' = 1"
proof -
  let ?ds = "[[1, 2], md_quote_bytes (sample_quote 9)]"
  have f: "filter valid_md ?ds = [md_quote_bytes (sample_quote 9)]"
    using quote_received(1) [OF wf_sample_quote] by (simp add: valid_md_def received_def)
  have fd: "0 \<le> mr_sockfd (listening 0 0)" by (simp add: listening_def)
  obtain got msg' r' rs' where
    "md_poll (map Datagram ?ds @ MdAgain # []) [] (listening 0 0) = Some (got, msg', r', rs')"
    using md_poll_returns by blast
  with md_poll_latest [OF fd this f [symmetric]] show ?thesis
    by (auto simp: listening_def init_receiver_def)
qed

section \<open>Gaps in the sequence\<close>

lemma gap_exact:
  fixes a b :: u32
  assumes "a < b"
  shows "unat (b - a - 1) + 1 = unat b - unat a"
proof -
  have "unat a < unat b" using assms by (simp add: word_less_nat_alt)
  moreover have "unat (b - a) = unat b - unat a" using assms by (simp add: unat_sub_if_size word_size less_imp_le word_le_nat_alt [symmetric])
  moreover from calculation have "b - a \<noteq> 0" by auto
  then have "unat (b - a - 1) = unat (b - a) - 1" by (simp add: unat_minus_one)
  ultimately show ?thesis by linarith
qed

lemma drops_step:
  assumes "valid_md d" "mr_packets r \<noteq> 0" "mr_last_seq r < msg_seq d"
    "unat (mr_drops r) + 2 ^ 32 < 2 ^ 64"
  shows "unat (mr_drops (take_datagram d r)) + 1 = unat (mr_drops r) + (unat (msg_seq d) - unat (mr_last_seq r))"
proof -
  let ?gap = "msg_seq d - mr_last_seq r - 1"
  have "unat ?gap < 2 ^ 32" using unat_u32 [of ?gap] by simp
  then have "unat (mr_drops r + ucast ?gap) = unat (mr_drops r) + unat ?gap"
    using assms(4) by (subst unat_add_lem [THEN iffD1]) simp_all
  then show ?thesis using gap_exact [OF assms(3)] assms(1,2) by (simp add: take_datagram_fields)
qed

lemma drops_fold:
  assumes "list_all valid_md vs" "sorted_wrt (<) (mr_last_seq r # map msg_seq vs)"
    "mr_packets r \<noteq> 0" "unat (mr_packets r) + length vs < 2 ^ 64"
    "unat (mr_drops r) + unat (mr_last_seq (fold take_datagram vs r)) - unat (mr_last_seq r) + 2 ^ 32 < 2 ^ 64"
  shows "unat (mr_drops (fold take_datagram vs r)) + length vs =
         unat (mr_drops r) + (unat (mr_last_seq (fold take_datagram vs r)) - unat (mr_last_seq r))"
  using assms
proof (induction vs arbitrary: r)
  case (Cons d vs)
  let ?r = "take_datagram d r"
  have v: "valid_md d" and lt: "mr_last_seq r < msg_seq d" using Cons.prems(1,2) by auto
  have last_le: "mr_last_seq r < mr_last_seq (fold take_datagram vs ?r)"
    "msg_seq d \<le> mr_last_seq (fold take_datagram vs ?r)"
    using Cons.prems(1,2) fold_take_fields(5) [of vs ?r] v
    by (auto simp: take_datagram_fields less_imp_le)
  have le: "unat (mr_last_seq r) < unat (msg_seq d)"
    "unat (msg_seq d) \<le> unat (mr_last_seq (fold take_datagram vs ?r))"
    using lt last_le by (auto simp: word_less_nat_alt word_le_nat_alt)
  have step: "unat (mr_drops ?r) + 1 = unat (mr_drops r) + (unat (msg_seq d) - unat (mr_last_seq r))"
    by (rule drops_step [OF v Cons.prems(3) lt]) (use Cons.prems(5) le in simp)
  have packets: "unat (mr_packets ?r) = unat (mr_packets r) + 1"
    using v Cons.prems(4) by (simp add: take_datagram_fields) (subst unat_add_lem [THEN iffD1], simp_all)
  have "unat (mr_drops (fold take_datagram vs ?r)) + length vs =
        unat (mr_drops ?r) + (unat (mr_last_seq (fold take_datagram vs ?r)) - unat (mr_last_seq ?r))"
  proof (rule Cons.IH)
    show "unat (mr_drops ?r) + unat (mr_last_seq (fold take_datagram vs ?r)) - unat (mr_last_seq ?r) + 2 ^ 32 < 2 ^ 64"
      using Cons.prems(5) step le v by (simp add: take_datagram_fields)
  qed (use Cons.prems v packets in \<open>auto simp: take_datagram_fields\<close>)
  with step le v show ?case by (simp add: take_datagram_fields)
qed simp

text \<open>
  C21. Gaps are counted exactly. While the sequence numbers of the valid messages increase, the
  drop counter grows in a poll by exactly the number of sequence numbers between the last message
  of the previous poll and the last message of this one that were not received.
\<close>

theorem md_drops_exact:
  assumes "0 \<le> mr_sockfd r" "md_poll (map Datagram ds @ MdAgain # rs) msg r = Some (got, msg', r', rs')"
    "sorted_wrt (<) (mr_last_seq r # map msg_seq (filter valid_md ds))"
    "mr_packets r \<noteq> 0" "unat (mr_packets r) + length ds < 2 ^ 64" "unat (mr_drops r) + 2 ^ 33 < 2 ^ 64"
  shows "unat (mr_drops r') + length (filter valid_md ds) =
         unat (mr_drops r) + (unat (mr_last_seq r') - unat (mr_last_seq r))"
proof -
  from assms(1,2) have r': "r' = fold take_datagram (filter valid_md ds) r"
    by (auto simp: md_poll_def md_poll_loop_drains Let_def)
  have "unat (mr_last_seq r') < 2 ^ 32" using unat_u32 by simp
  moreover have "unat (mr_packets r) + length (filter valid_md ds) < 2 ^ 64"
    using length_filter_le [of valid_md ds] assms(5) by linarith
  ultimately show ?thesis using drops_fold [OF _ assms(3,4)] assms(6) unfolding r' by simp
qed

theorem md_drops_exact_witness:
  "\<exists>got msg' r' rs'. md_poll [Datagram (md_quote_bytes (sample_quote 7)), Datagram (md_quote_bytes (sample_quote 12)), MdAgain]
       [] (listening 1 4) = Some (got, msg', r', rs') \<and> mr_drops r' = 6"
proof -
  let ?ds = "[md_quote_bytes (sample_quote 7), md_quote_bytes (sample_quote 12)]"
  have f: "filter valid_md ?ds = ?ds" using quote_received(1) [OF wf_sample_quote] by simp
  have fd: "0 \<le> mr_sockfd (listening 1 4)" by (simp add: listening_def)
  obtain got msg' r' rs' where
    p: "md_poll (map Datagram ?ds @ MdAgain # []) [] (listening 1 4) = Some (got, msg', r', rs')"
    using md_poll_returns by blast
  have "mr_last_seq r' = 12"
    using p fd f by (auto simp: md_poll_def md_poll_loop_drains Let_def take_datagram_fields(5) quote_received(1)
        simp del: list.map append.simps)
  moreover have "unat (mr_drops r') + 2 = unat (mr_last_seq r') - 4"
    using md_drops_exact [OF fd p] f by (simp add: listening_def init_receiver_def)
  ultimately have "unat (mr_drops r') = unat (6 :: u64)" by simp
  then have "mr_drops r' = 6" by (simp only: word_unat_eq_iff)
  with p show ?thesis by simp
qed

text \<open>A message whose sequence number is that of the previous one adds almost \<open>2 ^ 32\<close> to the counter.\<close>

lemma duplicate_counts_as_gap:
  assumes "valid_md d" "mr_packets r \<noteq> 0" "msg_seq d = mr_last_seq r"
  shows "mr_drops (take_datagram d r) = mr_drops r + (2 ^ 32 - 1)"
proof -
  have "(ucast (- 1 :: u32) :: u64) = 2 ^ 32 - 1" by code_simp
  with assms show ?thesis by (simp add: take_datagram_fields)
qed

section \<open>Round trip and failure\<close>

text \<open>
  C22. The feed's structs round-trip. A quote or a reference the exchange writes in the layout of
  the header is valid for the receiver, and reading the received message as that struct gives back
  every field, although a reference is shorter than the buffer it is received in.
\<close>

theorem md_messages_roundtrip:
  assumes "wf_quote q" "wf_reference f"
  shows "valid_md (md_quote_bytes q) \<and> msg_quote (candidate (md_quote_bytes q)) = q \<and>
         valid_md (md_reference_bytes f) \<and> msg_reference (candidate (md_reference_bytes f)) = f"
  using quote_received [OF assms(1)] reference_received [OF assms(2)] by simp

definition sample_reference :: md_reference where
  "sample_reference = \<lparr>mf_header = sample_header 3 MdReferenceType, mf_reference_mid = dbl_of_int 104\<rparr>"

theorem md_messages_roundtrip_witness:
  "msg_quote (candidate (md_quote_bytes (sample_quote 1))) = sample_quote 1 \<and>
   msg_reference (candidate (md_reference_bytes sample_reference)) = sample_reference"
  using md_messages_roundtrip [of "sample_quote 1" sample_reference]
  by (simp add: wf_reference_def sample_reference_def sample_header_def)

text \<open>
  A socket error after a valid message. \<open>poll\<close> then returns true, counts the message, and does
  not store it: the caller's message is left as it was, and the trading loop, which never
  initialises it, goes on to read it.
\<close>

theorem md_error_leaves_message:
  assumes "0 \<le> mr_sockfd r" "valid_md d"
  shows "md_poll [Datagram d, MdError] msg r = Some (True, msg, take_datagram d r, [])"
  using assms by (simp add: md_poll_def)

theorem md_error_leaves_message_witness:
  "md_poll [Datagram (md_quote_bytes (sample_quote 1)), MdError] [] (listening 0 0) =
     Some (True, [], take_datagram (md_quote_bytes (sample_quote 1)) (listening 0 0), [])"
  using md_error_leaves_message [of "listening 0 0", OF _ quote_received(1) [OF wf_sample_quote]]
  by (simp add: listening_def)

end
