(* ===== verification/Clock.thy ===== *)
theory Clock
  imports Doubles
begin

text \<open>
  The clock of \<open>include/nts/instrument/clock.h\<close>, in its three builds: the invariant TSC of Linux on
  x86-64, the Mach clock, and \<open>CLOCK_MONOTONIC\<close> elsewhere. What the instruction or the system call
  reads is an argument. \<open>time_t\<close> and \<open>long\<close> are 64-bit words read with \<open>sint\<close>.
\<close>

record timespec =
  tv_sec :: "64 word"
  tv_nsec :: "64 word"

section \<open>Linux on x86-64\<close>

definition raw_ticks :: "u32 \<Rightarrow> u32 \<Rightarrow> u64" where
  "raw_ticks lo hi = push_bit 32 (ucast hi) OR ucast lo"

definition raw_ticks_rdtscp :: "u32 \<Rightarrow> u32 \<Rightarrow> u64" where
  "raw_ticks_rdtscp lo hi = push_bit 32 (ucast hi) OR ucast lo"

definition elapsed_ns :: "timespec \<Rightarrow> timespec \<Rightarrow> u64" where
  "elapsed_ns ts0 ts1 = (tv_sec ts1 - tv_sec ts0) * 1000000000 + (tv_nsec ts1 - tv_nsec ts0)"

definition calibrate_ns_per_tick :: "timespec \<Rightarrow> u64 \<Rightarrow> u64 \<Rightarrow> timespec \<Rightarrow> double" where
  "calibrate_ns_per_tick ts0 t0 t1 ts1 =
     (let ns = elapsed_ns ts0 ts1; ticks = t1 - t0
      in if ticks = 0 then Fin False 1 else fdiv (dbl_of_u64 ns) (dbl_of_u64 ticks))"

text \<open>
  The factor is a function-local static: the first call calibrates, later calls return what it found.
  The state is the static, \<open>None\<close> before the first call; the readings are those of a calibration now.
\<close>

definition ns_per_tick :: "timespec \<times> u64 \<times> u64 \<times> timespec \<Rightarrow> double option \<Rightarrow> double \<times> double option" where
  "ns_per_tick readings cached =
     (case cached of
        Some v \<Rightarrow> (v, cached)
      | None \<Rightarrow>
          let (ts0, t0, t1, ts1) = readings; v = calibrate_ns_per_tick ts0 t0 t1 ts1
          in (v, Some v))"

text \<open>The conversion of a tick count, given the calibrated factor; undefined when it does not fit.\<close>

definition ticks_to_ns :: "double \<Rightarrow> u64 \<Rightarrow> u64 option" where
  "ticks_to_ns v ticks = dbl_to_u64 (fmul (dbl_of_u64 ticks) v)"

definition now_ns :: "double \<Rightarrow> u64 \<Rightarrow> u64 option" where
  "now_ns v ticks = ticks_to_ns v ticks"

section \<open>The other builds\<close>

definition raw_ticks_mach :: "u64 \<Rightarrow> u64" where
  "raw_ticks_mach absolute_time = absolute_time"

definition ticks_to_ns_mach :: "u32 \<Rightarrow> u32 \<Rightarrow> u64 \<Rightarrow> u64 option" where
  "ticks_to_ns_mach numer denom ticks =
     (if denom = 0 then None else Some (ticks * ucast numer div ucast denom))"

definition raw_ticks_monotonic :: "timespec \<Rightarrow> u64" where
  "raw_ticks_monotonic ts = tv_sec ts * 1000000000 + tv_nsec ts"

definition ticks_to_ns_monotonic :: "u64 \<Rightarrow> u64" where
  "ticks_to_ns_monotonic ticks = ticks"

section \<open>Raw counters of the architectures\<close>

definition rdtsc :: "u32 \<Rightarrow> u32 \<Rightarrow> u64" where
  "rdtsc lo hi = push_bit 32 (ucast hi) OR ucast lo"

definition read_cntvct :: "u64 \<Rightarrow> u64" where
  "read_cntvct counter = counter"

text \<open>Whatever later readings would give, the process uses the factor of the first call.\<close>

lemma ns_per_tick_stable:
  "ns_per_tick r cached = (v, cached') \<Longrightarrow> ns_per_tick r' cached' = (v, cached')"
  by (auto simp: ns_per_tick_def Let_def split: option.splits prod.splits)

section \<open>Arithmetic of the readings\<close>

lemma uint_widen32: "uint (ucast (x :: u32) :: u64) = uint x"
proof -
  have "uint x < 2 ^ 64" using uint_bounded [of x] by simp
  then show ?thesis by (simp add: unsigned_ucast_eq take_bit_int_eq_self)
qed

lemma raw_ticks_value: "uint (raw_ticks lo hi) = uint hi * 2 ^ 32 + uint lo"
proof -
  have disj: "(push_bit 32 (ucast hi) :: u64) AND ucast lo = 0"
    by (rule bit_eqI) (auto simp: bit_and_iff bit_push_bit_iff bit_ucast_iff dest: bit_imp_le_length)
  then have "raw_ticks lo hi = push_bit 32 (ucast hi) + ucast lo"
    by (simp add: raw_ticks_def disjunctive_add_eq_or)
  moreover have "uint (push_bit 32 (ucast hi) :: u64) = uint hi * 2 ^ 32"
    using uint_bounded [of hi]
    by (simp add: push_bit_eq_mult uint_word_ariths uint_widen32)
  moreover have "uint hi * 2 ^ 32 + uint lo < 2 ^ 64" "0 \<le> uint hi * 2 ^ 32 + uint lo"
    using uint_bounded [of hi] uint_bounded [of lo] by simp_all
  ultimately show ?thesis by (simp add: uint_word_ariths uint_widen32)
qed

text \<open>The unsigned differences wrap when the nanosecond part decreased; the sum is right again.\<close>

lemma elapsed_ns_exact:
  assumes "e = (sint (tv_sec ts1) - sint (tv_sec ts0)) * 1000000000 + (sint (tv_nsec ts1) - sint (tv_nsec ts0))"
    "0 \<le> e" "e < 2 ^ 64"
  shows "uint (elapsed_ns ts0 ts1) = e"
proof -
  have "elapsed_ns ts0 ts1 = of_int e"
    unfolding elapsed_ns_def assms(1) by (simp only: of_int_add of_int_diff of_int_mult of_int_sint scast_id of_int_numeral)
  then show ?thesis using assms(2,3) by (simp add: uint_word_of_int)
qed

section \<open>Conversion keeps the order\<close>

fun nonneg_double :: "double \<Rightarrow> bool" where
  "nonneg_double (Fin s x) = (\<not> s \<and> 0 \<le> x)"
| "nonneg_double (Inf s) = (\<not> s)"
| "nonneg_double NaN = True"

lemma dbl_of_nonneg: "0 \<le> n \<Longrightarrow> dbl_of_int n = mk_double False (of_int n)"
  by (auto simp: dbl_of_int_def of_rat_double_def mk_double_def)

lemma nonneg_mk_double [simp]: "0 \<le> x \<Longrightarrow> nonneg_double (mk_double False x)"
  by (simp add: mk_double_def Let_def rnd_nonneg)

lemma nonneg_fdiv: "nonneg_double a \<Longrightarrow> nonneg_double b \<Longrightarrow> nonneg_double (fdiv a b)"
  by (cases "(a, b)" rule: fdiv.cases) auto

lemma nonneg_calibrate [simp]: "nonneg_double (calibrate_ns_per_tick ts0 t0 t1 ts1)"
  by (simp add: calibrate_ns_per_tick_def Let_def nonneg_fdiv dbl_of_nonneg del: of_int_uint)

lemma ticks_to_ns_cases:
  assumes "ticks_to_ns v t = Some n" "nonneg_double v"
  obtains y where "v = Fin False y" "0 \<le> y" "n = of_int \<lfloor>rnd (rnd (of_int (uint t)) * y)\<rfloor>"
    "\<lfloor>rnd (rnd (of_int (uint t)) * y)\<rfloor> < 2 ^ 64"
proof -
  have t: "dbl_of_u64 t = mk_double False (of_int (uint t))" by (simp add: dbl_of_nonneg)
  obtain y where y: "v = Fin False y" "0 \<le> y" and fin: "is_finite (mk_double False (of_int (uint t)))"
    using assms unfolding ticks_to_ns_def t
    by (cases v; cases "mk_double False (of_int (uint t))") (auto split: if_splits)
  with assms(1) have "dbl_to_u64 (mk_double False (rnd (of_int (uint t)) * y)) = Some n"
    by (simp add: ticks_to_ns_def t mk_double_finite)
  moreover from this have "is_finite (mk_double False (rnd (of_int (uint t)) * y))"
    by (cases "mk_double False (rnd (of_int (uint t)) * y)") auto
  ultimately have "dbl_to_u64 (Fin False (rnd (rnd (of_int (uint t)) * y))) = Some n"
    by (simp add: mk_double_finite)
  with y show ?thesis by (intro that) (auto simp: Let_def split: if_splits)
qed

lemma u64_of_int_mono: "0 \<le> a \<Longrightarrow> a \<le> b \<Longrightarrow> b < 2 ^ 64 \<Longrightarrow> (of_int a :: u64) \<le> of_int b"
  by (simp add: word_le_def uint_word_of_int)

text \<open>
  C24. Time does not run backwards. With the factor the calibration computes, whatever the clocks
  returned to it, the conversion from ticks to nanoseconds keeps the order of any two tick counts
  it is defined for, although it rounds twice and truncates; and the tick count itself is the
  64-bit number made of the two halves the instruction returns.
\<close>

theorem tick_conversion_monotone:
  assumes "v = calibrate_ns_per_tick ts0 t0 t1 ts1"
    "uint h * 2 ^ 32 + uint l \<le> uint h' * 2 ^ 32 + uint l'"
    "ticks_to_ns v (raw_ticks l h) = Some n" "ticks_to_ns v (raw_ticks l' h') = Some n'"
  shows "n \<le> n'"
proof -
  have v: "nonneg_double v" using assms(1) by simp
  obtain y where y: "v = Fin False y" "0 \<le> y"
    and n: "n = of_int \<lfloor>rnd (rnd (of_int (uint (raw_ticks l h))) * y)\<rfloor>"
    by (rule ticks_to_ns_cases [OF assms(3) v])
  obtain n': "n' = of_int \<lfloor>rnd (rnd (of_int (uint (raw_ticks l' h'))) * y)\<rfloor>"
    "\<lfloor>rnd (rnd (of_int (uint (raw_ticks l' h'))) * y)\<rfloor> < 2 ^ 64"
    using ticks_to_ns_cases [OF assms(4) v] y(1) by auto
  have "uint (raw_ticks l h) \<le> uint (raw_ticks l' h')" using assms(2) by (simp add: raw_ticks_value)
  then have "rnd (of_int (uint (raw_ticks l h))) \<le> rnd (of_int (uint (raw_ticks l' h')))"
    by (intro rnd_mono) (simp_all del: of_int_uint)
  then have "rnd (of_int (uint (raw_ticks l h))) * y \<le> rnd (of_int (uint (raw_ticks l' h'))) * y"
    using y(2) by (rule mult_right_mono)
  moreover have "0 \<le> rnd (of_int (uint (raw_ticks l h))) * y"
    using y(2) by (simp add: rnd_nonneg del: of_int_uint)
  ultimately have "rnd (rnd (of_int (uint (raw_ticks l h))) * y) \<le> rnd (rnd (of_int (uint (raw_ticks l' h'))) * y)"
    by (intro rnd_mono [of "rnd (of_int (uint (raw_ticks l h))) * y"])
  then have le: "\<lfloor>rnd (rnd (of_int (uint (raw_ticks l h))) * y)\<rfloor> \<le> \<lfloor>rnd (rnd (of_int (uint (raw_ticks l' h'))) * y)\<rfloor>"
    by (rule floor_mono)
  have "0 \<le> \<lfloor>rnd (rnd (of_int (uint (raw_ticks l h))) * y)\<rfloor>"
    using y(2) by (simp add: rnd_nonneg del: of_int_uint)
  from u64_of_int_mono [OF this le n'(2)] show ?thesis unfolding n n'(1) .
qed

theorem tick_conversion_monotone_witness:
  "ticks_to_ns (calibrate_ns_per_tick \<lparr>tv_sec = 1, tv_nsec = 999999990\<rparr> 100 200 \<lparr>tv_sec = 2, tv_nsec = 40\<rparr>)
     (raw_ticks 10 0) = Some 5 \<and>
   ticks_to_ns (calibrate_ns_per_tick \<lparr>tv_sec = 1, tv_nsec = 999999990\<rparr> 100 200 \<lparr>tv_sec = 2, tv_nsec = 40\<rparr>)
     (raw_ticks 0 1) = Some 2147483648 \<and> (5 :: u64) \<le> 2147483648"
proof -
  let ?v = "calibrate_ns_per_tick \<lparr>tv_sec = 1, tv_nsec = 999999990\<rparr> 100 200 \<lparr>tv_sec = 2, tv_nsec = 40\<rparr>"
  have e: "ticks_to_ns ?v (raw_ticks 10 0) = Some 5" "ticks_to_ns ?v (raw_ticks 0 1) = Some 2147483648"
    by code_simp+
  from tick_conversion_monotone [OF refl _ e] e show ?thesis by simp
qed

end
