(* ===== verification/Tracer.thy ===== *)
theory Tracer
  imports Clock
begin

text \<open>
  The hop tracer, \<open>include/nts/instrument/tracer.h\<close> and \<open>src/instrument/tracer.cpp\<close>: a ring of trace
  records, each with one tick count per hop and a mask of the hops recorded. The array of records is
  a function of the index, which every access masks; \<open>Hop::COUNT\<close> is not a hop and appears as
  \<open>NUM_HOPS\<close> only. The tick count \<open>record\<close> reads from the clock is an argument.
\<close>

datatype hop =
  RecvStart | RecvDone | BookUpdated | StrategyDone | OrderSent
| AckReceived | AckProcessed | FillReceived | FillProcessed

definition NUM_HOPS :: nat where
  "NUM_HOPS = 9"

definition hop_index :: "hop \<Rightarrow> nat" where
  "hop_index h =
     (case h of RecvStart \<Rightarrow> 0 | RecvDone \<Rightarrow> 1 | BookUpdated \<Rightarrow> 2 | StrategyDone \<Rightarrow> 3 | OrderSent \<Rightarrow> 4
      | AckReceived \<Rightarrow> 5 | AckProcessed \<Rightarrow> 6 | FillReceived \<Rightarrow> 7 | FillProcessed \<Rightarrow> 8)"

definition hop_name :: "hop \<Rightarrow> string" where
  "hop_name h =
     (case h of RecvStart \<Rightarrow> ''RecvStart'' | RecvDone \<Rightarrow> ''RecvDone'' | BookUpdated \<Rightarrow> ''BookUpdated''
      | StrategyDone \<Rightarrow> ''StrategyDone'' | OrderSent \<Rightarrow> ''OrderSent'' | AckReceived \<Rightarrow> ''AckReceived''
      | AckProcessed \<Rightarrow> ''AckProcessed'' | FillReceived \<Rightarrow> ''FillReceived''
      | FillProcessed \<Rightarrow> ''FillProcessed'')"

record trace_record =
  tr_ticks :: "u64 list"
  tr_recorded_mask :: u16

definition hop_bit :: "hop \<Rightarrow> u16" where
  "hop_bit h = push_bit (hop_index h) 1"

definition has_hop :: "trace_record \<Rightarrow> hop \<Rightarrow> bool" where
  "has_hop t h = (tr_recorded_mask t AND hop_bit h \<noteq> 0)"

definition latency_ticks :: "trace_record \<Rightarrow> hop \<Rightarrow> hop \<Rightarrow> u64" where
  "latency_ticks t from to = tr_ticks t ! hop_index to - tr_ticks t ! hop_index from"

definition latency :: "double \<Rightarrow> trace_record \<Rightarrow> hop \<Rightarrow> hop \<Rightarrow> u64 option" where
  "latency v t from to = ticks_to_ns v (latency_ticks t from to)"

section \<open>The ring\<close>

record hop_tracer =
  ht_traces :: "u64 \<Rightarrow> trace_record"
  ht_capacity :: u64
  ht_capacity_mask :: u64
  ht_total_count :: u64
  ht_enabled :: bool
  ht_in_trace :: bool

definition DEFAULT_CAPACITY :: u64 where
  "DEFAULT_CAPACITY = push_bit 16 1"

definition smear :: "nat \<Rightarrow> u64 \<Rightarrow> u64" where
  "smear k v = v OR drop_bit k v"

definition round_up_pow2 :: "u64 \<Rightarrow> u64" where
  "round_up_pow2 v =
     (if v = 0 then 1
      else smear 32 (smear 16 (smear 8 (smear 4 (smear 2 (smear 1 (v - 1)))))) + 1)"

definition empty_trace :: trace_record where
  "empty_trace = \<lparr>tr_ticks = replicate NUM_HOPS 0, tr_recorded_mask = 0\<rparr>"

definition new_tracer :: "u64 \<Rightarrow> hop_tracer" where
  "new_tracer capacity =
     \<lparr>ht_traces = (\<lambda>_. empty_trace), ht_capacity = round_up_pow2 capacity,
      ht_capacity_mask = round_up_pow2 capacity - 1, ht_total_count = 0, ht_enabled = True,
      ht_in_trace = False\<rparr>"

definition write_pos :: "hop_tracer \<Rightarrow> u64" where
  "write_pos t = ht_total_count t AND ht_capacity_mask t"

definition set_trace :: "u64 \<Rightarrow> trace_record \<Rightarrow> hop_tracer \<Rightarrow> hop_tracer" where
  "set_trace p r t = t\<lparr>ht_traces := (ht_traces t)(p := r)\<rparr>"

definition start_trace :: "hop_tracer \<Rightarrow> hop_tracer" where
  "start_trace t =
     (if \<not> ht_enabled t then t
      else
        let t1 = t\<lparr>ht_in_trace := True\<rparr>
        in set_trace (write_pos t1) ((ht_traces t1 (write_pos t1))\<lparr>tr_recorded_mask := 0\<rparr>) t1)"

definition record_at :: "hop \<Rightarrow> u64 \<Rightarrow> hop_tracer \<Rightarrow> hop_tracer" where
  "record_at h ticks t =
     (if \<not> ht_in_trace t then t
      else
        let pos = write_pos t; r = ht_traces t pos
        in set_trace pos (r\<lparr>tr_ticks := (tr_ticks r)[hop_index h := ticks],
                           tr_recorded_mask := tr_recorded_mask r OR hop_bit h\<rparr>) t)"

definition record_hop :: "hop \<Rightarrow> u64 \<Rightarrow> hop_tracer \<Rightarrow> hop_tracer" where
  "record_hop h clock t = (if \<not> ht_in_trace t then t else record_at h clock t)"

definition append_pos :: "hop_tracer \<Rightarrow> u64" where
  "append_pos t = (ht_total_count t + (if ht_in_trace t then 1 else 0)) AND ht_capacity_mask t"

definition record_order_ack :: "u64 \<Rightarrow> u64 \<Rightarrow> u64 \<Rightarrow> hop_tracer \<Rightarrow> hop_tracer" where
  "record_order_ack sent received processed t =
     (if \<not> ht_enabled t then t
      else
        let p = append_pos t; r = ht_traces t p;
            t1 = set_trace p
              (r\<lparr>tr_ticks := (tr_ticks r)[hop_index OrderSent := sent, hop_index AckReceived := received,
                   hop_index AckProcessed := processed],
                 tr_recorded_mask := hop_bit OrderSent OR hop_bit AckReceived OR hop_bit AckProcessed\<rparr>) t
        in t1\<lparr>ht_total_count := ht_total_count t1 + 1\<rparr>)"

definition record_ack_fill :: "u64 \<Rightarrow> u64 \<Rightarrow> u64 \<Rightarrow> hop_tracer \<Rightarrow> hop_tracer" where
  "record_ack_fill ack received processed t =
     (if \<not> ht_enabled t then t
      else
        let p = append_pos t; r = ht_traces t p;
            t1 = set_trace p
              (r\<lparr>tr_ticks := (tr_ticks r)[hop_index AckReceived := ack, hop_index FillReceived := received,
                   hop_index FillProcessed := processed],
                 tr_recorded_mask := hop_bit AckReceived OR hop_bit FillReceived OR hop_bit FillProcessed\<rparr>) t
        in t1\<lparr>ht_total_count := ht_total_count t1 + 1\<rparr>)"

definition end_trace :: "hop_tracer \<Rightarrow> hop_tracer" where
  "end_trace t =
     (if \<not> ht_in_trace t then t
      else t\<lparr>ht_in_trace := False, ht_total_count := ht_total_count t + 1\<rparr>)"

definition discard_trace :: "hop_tracer \<Rightarrow> hop_tracer" where
  "discard_trace t = t\<lparr>ht_in_trace := False\<rparr>"

definition enable_tracer :: "hop_tracer \<Rightarrow> hop_tracer" where
  "enable_tracer t = t\<lparr>ht_enabled := True\<rparr>"

definition disable_tracer :: "hop_tracer \<Rightarrow> hop_tracer" where
  "disable_tracer t = t\<lparr>ht_enabled := False\<rparr>"

definition reset_tracer :: "hop_tracer \<Rightarrow> hop_tracer" where
  "reset_tracer t = t\<lparr>ht_total_count := 0, ht_in_trace := False\<rparr>"

definition trace_count :: "hop_tracer \<Rightarrow> u64" where
  "trace_count t = (if ht_total_count t < ht_capacity t then ht_total_count t else ht_capacity t)"

definition wrapped :: "hop_tracer \<Rightarrow> bool" where
  "wrapped t = (ht_total_count t > ht_capacity t)"

definition get_trace :: "hop_tracer \<Rightarrow> u64 \<Rightarrow> trace_record" where
  "get_trace t idx =
     (if ht_total_count t \<le> ht_capacity t then ht_traces t idx
      else
        let oldest = ht_total_count t AND ht_capacity_mask t
        in ht_traces t ((oldest + idx) AND ht_capacity_mask t))"

section \<open>Rounding the capacity up\<close>

lemma bit_smear: "bit (smear k v) n = (bit v n \<or> bit v (n + k))"
  by (simp add: smear_def bit_or_iff bit_drop_bit_eq add.commute)

text \<open>After smearing by one, two, four and so on up to 32, a bit is set iff one at or above it was.\<close>

lemma bit_smear_range:
  assumes "\<And>n. bit w n = (\<exists>j<m. bit v (n + j))"
  shows "bit (smear m w) n = (\<exists>j<2 * m. bit v (n + j))"
proof
  assume "bit (smear m w) n"
  then consider j where "j < m" "bit v (n + j)" | j where "j < m" "bit v (n + m + j)"
    by (auto simp: bit_smear assms)
  then show "\<exists>j<2 * m. bit v (n + j)"
  proof cases
    case (1 j)
    then show ?thesis by (intro exI [of _ j]) simp
  next
    case (2 j)
    then show ?thesis by (intro exI [of _ "m + j"]) (simp add: add.assoc)
  qed
next
  assume "\<exists>j<2 * m. bit v (n + j)"
  then obtain j where j: "j < 2 * m" "bit v (n + j)" by blast
  show "bit (smear m w) n"
  proof (cases "j < m")
    case True
    with j show ?thesis by (auto simp: bit_smear assms)
  next
    case False
    then have "bit v (n + m + (j - m))" "j - m < m" using j by simp_all
    then show ?thesis by (auto simp: bit_smear assms)
  qed
qed

lemma smear_all:
  "bit (smear 32 (smear 16 (smear 8 (smear 4 (smear 2 (smear 1 (v :: u64))))))) n =
     (\<exists>j<64. bit v (n + j))"
proof -
  have 0: "bit v n = (\<exists>j<1. bit v (n + j))" for n by simp
  note 1 = bit_smear_range [OF 0, simplified]
  note 2 = bit_smear_range [OF 1, simplified]
  note 3 = bit_smear_range [OF 2, simplified]
  note 4 = bit_smear_range [OF 3, simplified]
  note 5 = bit_smear_range [OF 4, simplified]
  from bit_smear_range [OF 5] show ?thesis by simp
qed

lemma top_bit:
  assumes "(w :: u64) \<noteq> 0"
  obtains m where "bit w m" "m < 64" "\<And>n. bit w n \<Longrightarrow> n \<le> m"
proof -
  let ?B = "{n. n < 64 \<and> bit w n}"
  have fin: "finite ?B" by simp
  obtain n where "bit w n" using assms by (auto simp: bit_eq_iff)
  then have "n \<in> ?B" using bit_imp_le_length [of w n] by simp
  then have "?B \<noteq> {}" by blast
  from Max_in [OF fin this] Max_ge [OF fin] bit_imp_le_length [of w] show ?thesis
    by (intro that [of "Max ?B"]) auto
qed

lemma top_bit_bounds:
  assumes "bit (w :: u64) m" "\<And>n. bit w n \<Longrightarrow> n \<le> m"
  shows "2 ^ m \<le> uint w" "uint w < 2 ^ Suc m"
proof -
  have bits: "bit (uint w) n = bit w n" for n using bit_imp_le_length [of w n] by (auto simp: bit_uint_iff)
  have "odd (uint w div 2 ^ m)" using assms(1) bits by (simp add: bit_iff_odd)
  then have "uint w div 2 ^ m \<noteq> 0" by auto
  then show "2 ^ m \<le> uint w" by (metis div_pos_pos_trivial linorder_not_less uint_nonnegative)
  have "take_bit (Suc m) (uint w) = uint w"
    by (rule bit_eqI) (use assms(2) bits in \<open>auto simp: bit_take_bit_iff less_Suc_eq_le\<close>)
  then show "uint w < 2 ^ Suc m" by (simp add: take_bit_int_eq_self_iff)
qed

lemma round_up_pow2_top:
  assumes "v \<noteq> 0" "bit (v - 1) m" "m < 64" "\<And>n. bit (v - 1) n \<Longrightarrow> n \<le> m"
  shows "round_up_pow2 v = 2 ^ Suc m"
proof -
  have "smear 32 (smear 16 (smear 8 (smear 4 (smear 2 (smear 1 (v - 1)))))) = mask (Suc m)"
  proof (rule bit_eqI)
    fix n
    assume n: "possible_bit TYPE(u64) n"
    show "bit (smear 32 (smear 16 (smear 8 (smear 4 (smear 2 (smear 1 (v - 1))))))) n = bit (mask (Suc m) :: u64) n"
    proof
      assume "bit (smear 32 (smear 16 (smear 8 (smear 4 (smear 2 (smear 1 (v - 1))))))) n"
      then obtain j where "bit (v - 1) (n + j)" unfolding smear_all by blast
      from assms(4) [OF this] n show "bit (mask (Suc m) :: u64) n" by (simp add: bit_mask_iff)
    next
      assume "bit (mask (Suc m) :: u64) n"
      then have "n \<le> m" by (simp add: bit_mask_iff less_Suc_eq_le)
      then show "bit (smear 32 (smear 16 (smear 8 (smear 4 (smear 2 (smear 1 (v - 1))))))) n"
        unfolding smear_all using assms(2,3) by (intro exI [of _ "m - n"]) simp
    qed
  qed
  then show ?thesis using assms(1) by (simp add: round_up_pow2_def mask_eq_exp_minus_1)
qed

lemma uint_pow2:
  assumes "k < 64"
  shows "uint (2 ^ k :: u64) = 2 ^ k"
proof -
  have "(2 ^ k :: u64) = of_int (2 ^ k)" by simp
  moreover have "(2 :: int) ^ k < 2 ^ 64" using assms by (intro power_strict_increasing) simp_all
  ultimately show ?thesis by (simp only: uint_word_of_int) (simp add: mod_pos_pos_trivial)
qed

lemma round_up_pow2_spec:
  assumes "uint v \<le> 2 ^ 63"
  shows "\<exists>k \<le> 63. uint (round_up_pow2 v) = 2 ^ k \<and> uint v \<le> 2 ^ k \<and> (\<forall>j. uint v \<le> 2 ^ j \<longrightarrow> k \<le> j)"
proof (cases "v = 0 \<or> v = 1")
  case True
  then have "round_up_pow2 v = 1" "uint v \<le> 1" by (auto simp: round_up_pow2_def smear_def)
  then show ?thesis by (intro exI [of _ 0]) simp
next
  case False
  then have v: "v \<noteq> 0" "v - 1 \<noteq> 0" by auto
  have "uint v \<noteq> 0" using v(1) by (simp add: uint_0_iff)
  then have "0 \<le> uint v - 1" "uint v - 1 < 2 ^ 64"
    using uint_nonnegative [of v] uint_bounded [of v] by (linarith, simp)
  then have u: "uint (v - 1) = uint v - 1" by (simp add: uint_word_ariths)
  obtain m where m: "bit (v - 1) m" "m < 64" "\<And>n. bit (v - 1) n \<Longrightarrow> n \<le> m" using top_bit [OF v(2)] by blast
  note bounds = top_bit_bounds [OF m(1,3)]
  have "(2 :: int) ^ m < 2 ^ 63" using bounds(1) u assms by linarith
  then have "m < 63" by (rule power_less_imp_less_exp [rotated]) simp
  then have m63: "Suc m \<le> 63" by simp
  then have "uint (2 ^ Suc m :: u64) = 2 ^ Suc m" by (intro uint_pow2) simp
  moreover have "Suc m \<le> j" if "uint v \<le> 2 ^ j" for j
  proof -
    have "(2 :: int) ^ m < 2 ^ j" using that bounds(1) u by linarith
    then show ?thesis by (simp add: Suc_le_eq)
  qed
  ultimately show ?thesis
    using m63 bounds(2) u round_up_pow2_top [OF v(1) m] by (intro exI [of _ "Suc m"]) auto
qed

end
