(* ===== verification/Tracer_Properties.thy ===== *)
theory Tracer_Properties
  imports Tracer
begin

text \<open>
  The tracer against an abstract log. A finished trace is a partial map from hops to tick counts; the
  log is the list of finished traces. The ring shows the latest of them, in order.
\<close>

type_synonym view = "hop \<rightharpoonup> u64"

definition trace_view :: "trace_record \<Rightarrow> view" where
  "trace_view r = (\<lambda>h. if has_hop r h then Some (tr_ticks r ! hop_index h) else None)"

section \<open>Hops and masks\<close>

lemma hop_index_less: "hop_index h < 9"
  by (cases h) (simp_all add: hop_index_def)

lemma hop_index_inj [simp]: "hop_index h = hop_index h' \<longleftrightarrow> h = h'"
  by (cases h; cases h') (simp_all add: hop_index_def)

lemma has_hop_bit: "has_hop r h = bit (tr_recorded_mask r) (hop_index h)"
  by (simp add: has_hop_def hop_bit_def push_bit_of_1 and_exp_eq_0_iff_not_bit)

lemma bit_hop_bit [simp]: "bit (hop_bit h) (hop_index h') \<longleftrightarrow> h = h'"
  using hop_index_less [of h] hop_index_less [of h']
  by (auto simp: hop_bit_def push_bit_of_1 bit_exp_iff)

lemma has_hop_simps [simp]:
  "has_hop (r\<lparr>tr_recorded_mask := 0\<rparr>) h = False"
  "has_hop (r\<lparr>tr_ticks := ts, tr_recorded_mask := tr_recorded_mask r OR hop_bit h'\<rparr>) h = (has_hop r h \<or> h = h')"
  "has_hop (r\<lparr>tr_ticks := ts, tr_recorded_mask := hop_bit a OR hop_bit b OR hop_bit c\<rparr>) h = (h = a \<or> h = b \<or> h = c)"
  by (auto simp: has_hop_bit bit_or_iff)

lemma view_cleared [simp]: "trace_view (r\<lparr>tr_recorded_mask := 0\<rparr>) = Map.empty"
  by (simp add: trace_view_def)

lemma view_recorded [simp]:
  "length (tr_ticks r) = 9 \<Longrightarrow>
   trace_view (r\<lparr>tr_ticks := (tr_ticks r)[hop_index h := x], tr_recorded_mask := tr_recorded_mask r OR hop_bit h\<rparr>) =
     (trace_view r)(h \<mapsto> x)"
  using hop_index_less [of h] by (auto simp: trace_view_def fun_eq_iff nth_list_update)

lemma view_three [simp]:
  "length (tr_ticks r) = 9 \<Longrightarrow> a \<noteq> b \<Longrightarrow> b \<noteq> c \<Longrightarrow> a \<noteq> c \<Longrightarrow>
   trace_view (r\<lparr>tr_ticks := (tr_ticks r)[hop_index a := x, hop_index b := y, hop_index c := z],
                tr_recorded_mask := hop_bit a OR hop_bit b OR hop_bit c\<rparr>) = [a \<mapsto> x, b \<mapsto> y, c \<mapsto> z]"
  using hop_index_less [of a] hop_index_less [of b] hop_index_less [of c]
  by (auto simp: trace_view_def fun_eq_iff nth_list_update)

section \<open>Positions\<close>

definition wf_tracer :: "nat \<Rightarrow> hop_tracer \<Rightarrow> bool" where
  "wf_tracer k t = (k \<le> 63 \<and> ht_capacity t = 2 ^ k \<and> ht_capacity_mask t = mask k \<and>
     (\<forall>p. length (tr_ticks (ht_traces t p)) = 9))"

definition slot :: "nat \<Rightarrow> hop_tracer \<Rightarrow> nat \<Rightarrow> trace_record" where
  "slot k t i = ht_traces t (of_nat (i mod 2 ^ k))"

lemma pow2_less: "k \<le> 63 \<Longrightarrow> i mod 2 ^ k < (2 :: nat) ^ 64"
  by (rule less_le_trans [OF mod_less_divisor power_increasing]) simp_all

lemma masked_pos: "k \<le> 63 \<Longrightarrow> (x :: u64) AND mask k = of_nat (unat x mod 2 ^ k)"
proof (rule word_unat_eq_iff [THEN iffD2])
  assume "k \<le> 63"
  then have "unat (of_nat (unat x mod 2 ^ k) :: u64) = unat x mod 2 ^ k"
    using pow2_less [of k "unat x"] by (simp add: unat_of_nat)
  then show "unat (x AND mask k) = unat (of_nat (unat x mod 2 ^ k) :: u64)"
    by (simp flip: take_bit_eq_mask add: unsigned_take_bit_eq) (simp add: take_bit_eq_mod)
qed

lemma slot_pos_inj:
  assumes "k \<le> 63"
  shows "(of_nat (i mod 2 ^ k) :: u64) = of_nat (j mod 2 ^ k) \<longleftrightarrow> i mod 2 ^ k = j mod 2 ^ k"
proof -
  have "unat (of_nat (i mod 2 ^ k) :: u64) = i mod 2 ^ k" "unat (of_nat (j mod 2 ^ k) :: u64) = j mod 2 ^ k"
    using pow2_less [OF assms] by (simp_all add: unat_of_nat)
  then show ?thesis by metis
qed

lemma near_mod:
  fixes i n c :: nat
  assumes "i < n" "n - i < c"
  shows "i mod c \<noteq> n mod c"
proof
  assume "i mod c = n mod c"
  then have "c dvd n - i" using assms(1) by (metis less_imp_le mod_eq_dvd_iff_nat)
  with assms show False by (auto dest: dvd_imp_le)
qed

text \<open>The ring shows the last \<open>c\<close> entries of a log.\<close>

definition retained :: "nat \<Rightarrow> nat \<Rightarrow> hop_tracer \<Rightarrow> view list \<Rightarrow> bool" where
  "retained k c t xs = (\<forall>i < length xs. length xs - i \<le> c \<longrightarrow> trace_view (slot k t i) = xs ! i)"

lemma retained_append:
  assumes "k \<le> 63" "retained k (2 ^ k - 1) t xs"
    "ht_traces t' = (ht_traces t)(of_nat (length xs mod 2 ^ k) := r)" "trace_view r = v"
  shows "retained k (2 ^ k) t' (xs @ [v])"
  unfolding retained_def
proof (intro allI impI)
  fix i
  assume i: "i < length (xs @ [v])" "length (xs @ [v]) - i \<le> 2 ^ k"
  show "trace_view (slot k t' i) = (xs @ [v]) ! i"
  proof (cases "i < length xs")
    case True
    with i have "i mod 2 ^ k \<noteq> length xs mod 2 ^ k" by (intro near_mod) auto
    then have "slot k t' i = slot k t i" using slot_pos_inj [OF assms(1)] assms(3) by (simp add: slot_def)
    moreover have "length xs - i \<le> 2 ^ k - 1" using i True by simp
    ultimately show ?thesis using assms(2) True by (simp add: retained_def nth_append)
  next
    case False
    with i have "i = length xs" by simp
    with assms(3,4) show ?thesis by (simp add: slot_def)
  qed
qed

lemma retained_update:
  assumes "k \<le> 63" "retained k (2 ^ k) t (xs @ [v])"
    "ht_traces t' = (ht_traces t)(of_nat (length xs mod 2 ^ k) := r)" "trace_view r = w"
  shows "retained k (2 ^ k) t' (xs @ [w])"
proof (rule retained_append [OF assms(1) _ assms(3,4)])
  show "retained k (2 ^ k - 1) t xs"
    using assms(2) unfolding retained_def by (auto simp: nth_append split: if_splits)
qed

lemma retained_butlast: "retained k (2 ^ k) t (xs @ [v]) \<Longrightarrow> retained k (2 ^ k - 1) t xs"
  unfolding retained_def by (auto simp: nth_append split: if_splits)

lemma retained_mono: "retained k c t xs \<Longrightarrow> c' \<le> c \<Longrightarrow> retained k c' t xs"
  by (auto simp: retained_def)

lemma retained_traces: "ht_traces t' = ht_traces t \<Longrightarrow> retained k c t' xs = retained k c t xs"
  by (simp add: retained_def slot_def)

section \<open>The abstract log\<close>

text \<open>Finished traces, the open trace if any, and the acknowledgements recorded since it was opened.\<close>

type_synonym log = "view list \<times> view option \<times> view list"

datatype trace_op =
  StartTrace | RecordHop hop u64 | OrderAck u64 u64 u64 | AckFill u64 u64 u64 | EndTrace | DiscardTrace

primrec trace_step :: "trace_op \<Rightarrow> hop_tracer \<Rightarrow> hop_tracer" where
  "trace_step StartTrace t = start_trace t"
| "trace_step (RecordHop h c) t = record_hop h c t"
| "trace_step (OrderAck a b c) t = record_order_ack a b c t"
| "trace_step (AckFill a b c) t = record_ack_fill a b c t"
| "trace_step EndTrace t = end_trace t"
| "trace_step DiscardTrace t = discard_trace t"

definition log_append :: "view \<Rightarrow> log \<Rightarrow> log" where
  "log_append a l =
     (case l of (fs, None, acks) \<Rightarrow> (fs @ [a], None, acks) | (fs, Some v, acks) \<Rightarrow> (fs, Some v, acks @ [a]))"

fun log_step :: "trace_op \<Rightarrow> log \<Rightarrow> log" where
  "log_step StartTrace (fs, op, acks) = (fs, Some Map.empty, [])"
| "log_step (RecordHop h c) (fs, op, acks) = (fs, map_option (\<lambda>v. v(h \<mapsto> c)) op, acks)"
| "log_step (OrderAck a b c) l = log_append [OrderSent \<mapsto> a, AckReceived \<mapsto> b, AckProcessed \<mapsto> c] l"
| "log_step (AckFill a b c) l = log_append [AckReceived \<mapsto> a, FillReceived \<mapsto> b, FillProcessed \<mapsto> c] l"
| "log_step EndTrace (fs, op, acks) = (case op of None \<Rightarrow> (fs, None, acks) | Some v \<Rightarrow> (fs @ v # acks, None, []))"
| "log_step DiscardTrace (fs, op, acks) = (fs, None, [])"

text \<open>
  The order the trading loop keeps: a trace is opened when none is open, and no hop is recorded and
  nothing discarded after an acknowledgement inside an open trace.
\<close>

fun proper :: "trace_op \<Rightarrow> log \<Rightarrow> bool" where
  "proper StartTrace (fs, op, acks) = (op = None)"
| "proper (RecordHop h c) (fs, op, acks) = (acks = [])"
| "proper DiscardTrace (fs, op, acks) = (acks = [])"
| "proper _ l = True"

fun proper_run :: "trace_op list \<Rightarrow> log \<Rightarrow> bool" where
  "proper_run [] l = True"
| "proper_run (x # xs) l = (proper x l \<and> proper_run xs (log_step x l))"

fun log_size :: "log \<Rightarrow> nat" where
  "log_size (fs, op, acks) = length fs + length acks + (case op of None \<Rightarrow> 0 | Some v \<Rightarrow> 1)"

fun shows_log :: "nat \<Rightarrow> hop_tracer \<Rightarrow> log \<Rightarrow> bool" where
  "shows_log k t (fs, op, acks) =
     (wf_tracer k t \<and> ht_enabled t \<and> unat (ht_total_count t) = length fs + length acks \<and>
      (case op of
         None \<Rightarrow> acks = [] \<and> \<not> ht_in_trace t \<and> retained k (2 ^ k - 1) t fs
       | Some v \<Rightarrow> ht_in_trace t \<and> retained k (2 ^ k) t (fs @ v # acks)))"

lemma wf_set_trace [simp]:
  "wf_tracer k t \<Longrightarrow> length (tr_ticks r) = 9 \<Longrightarrow> wf_tracer k (set_trace p r t)"
  by (simp add: wf_tracer_def set_trace_def)

lemma wf_tracer_updates [simp]:
  "wf_tracer k (t\<lparr>ht_in_trace := b\<rparr>) = wf_tracer k t"
  "wf_tracer k (t\<lparr>ht_total_count := n\<rparr>) = wf_tracer k t"
  by (simp_all add: wf_tracer_def)

lemma set_trace_fields [simp]:
  "ht_traces (set_trace p r t) = (ht_traces t)(p := r)" "ht_enabled (set_trace p r t) = ht_enabled t"
  "ht_in_trace (set_trace p r t) = ht_in_trace t" "ht_total_count (set_trace p r t) = ht_total_count t"
  by (simp_all add: set_trace_def)

lemma ticks_length: "wf_tracer k t \<Longrightarrow> length (tr_ticks (ht_traces t p)) = 9"
  by (simp add: wf_tracer_def)

lemma write_pos_eq: "wf_tracer k t \<Longrightarrow> write_pos t = of_nat (unat (ht_total_count t) mod 2 ^ k)"
  by (simp add: write_pos_def wf_tracer_def masked_pos)

lemma append_pos_eq:
  assumes "wf_tracer k t" "unat (ht_total_count t) + 1 < 2 ^ 64"
  shows "append_pos t = of_nat ((unat (ht_total_count t) + (if ht_in_trace t then 1 else 0)) mod 2 ^ k)"
proof -
  have "unat (ht_total_count t + 1) = unat (ht_total_count t) + 1"
    using assms(2) by (subst unat_add_lem [THEN iffD1]) simp_all
  with assms(1) show ?thesis by (simp add: append_pos_def wf_tracer_def masked_pos)
qed

lemma unat_succ: "unat (x :: u64) + 1 < 2 ^ 64 \<Longrightarrow> unat (x + 1) = unat x + 1"
  by (subst unat_add_lem [THEN iffD1]) simp_all

text \<open>Appending a record at \<open>append_pos\<close> and counting it, for both kinds of acknowledgement.\<close>

lemma append_shows:
  assumes "shows_log k t l" "log_size l + 1 < 2 ^ 64" "trace_view r = a" "length (tr_ticks r) = 9"
    "t' = (set_trace (append_pos t) r t)\<lparr>ht_total_count := ht_total_count t + 1\<rparr>"
  shows "shows_log k t' (log_append a l)"
proof -
  obtain fs op acks where l: "l = (fs, op, acks)" by (cases l)
  from assms(1) l have w: "wf_tracer k t" and n: "unat (ht_total_count t) = length fs + length acks" by auto
  then have k: "k \<le> 63" by (simp add: wf_tracer_def)
  have small: "unat (ht_total_count t) + 1 < 2 ^ 64" using assms(2) l n by simp
  note pos = append_pos_eq [OF w small]
  have w': "wf_tracer k t'" using w assms(4,5) by simp
  have n': "unat (ht_total_count t') = length fs + length acks + 1" using unat_succ [OF small] n assms(5) by simp
  show ?thesis
  proof (cases op)
    case None
    with assms(1) l have "acks = []" "\<not> ht_in_trace t" "retained k (2 ^ k - 1) t fs" by auto
    moreover from this have "retained k (2 ^ k) t' (fs @ [a])"
      by (intro retained_append [OF k _ _ assms(3)]) (simp_all add: assms(5) pos n)
    ultimately show ?thesis using None l w' n' assms(1,5)
      by (auto simp: log_append_def intro: retained_mono)
  next
    case (Some v)
    with assms(1) l have i: "ht_in_trace t" "retained k (2 ^ k) t (fs @ v # acks)" by auto
    then have "retained k (2 ^ k) t' ((fs @ v # acks) @ [a])"
      by (intro retained_append [OF k _ _ assms(3)])
        (auto simp: assms(5) pos n intro: retained_mono)
    with Some l w' n' i assms(1,5) show ?thesis by (simp add: log_append_def)
  qed
qed

lemma trace_step_shows:
  assumes "shows_log k t l" "proper x l" "log_size l + 1 < 2 ^ 64"
  shows "shows_log k (trace_step x t) (log_step x l)"
proof -
  obtain fs op acks where l: "l = (fs, op, acks)" by (cases l)
  from assms(1) l have w: "wf_tracer k t" and en: "ht_enabled t"
    and n: "unat (ht_total_count t) = length fs + length acks" by auto
  then have k: "k \<le> 63" by (simp add: wf_tracer_def)
  note len = ticks_length [OF w]
  show ?thesis
  proof (cases x)
    case StartTrace
    with assms(1,2) l have o: "op = None" "acks = []" "retained k (2 ^ k - 1) t fs" by auto
    let ?r = "ht_traces t (write_pos t)\<lparr>tr_recorded_mask := 0\<rparr>"
    have "retained k (2 ^ k) (start_trace t) (fs @ [Map.empty])"
      by (rule retained_append [OF k o(3), of _ ?r])
        (simp_all add: start_trace_def en write_pos_eq [OF w] n o Let_def write_pos_def [of "t\<lparr>ht_in_trace := True\<rparr>"]
          flip: write_pos_def [of t])
    then show ?thesis using StartTrace l o n w en len
      by (simp add: start_trace_def Let_def)
  next
    case (RecordHop h c)
    with assms(2) l have acks: "acks = []" by simp
    show ?thesis
    proof (cases op)
      case None
      with assms(1) l RecordHop show ?thesis by (simp add: record_hop_def)
    next
      case (Some v)
      with assms(1) l acks have i: "ht_in_trace t" "retained k (2 ^ k) t (fs @ [v])" by auto
      then have v: "trace_view (ht_traces t (of_nat (length fs mod 2 ^ k))) = v"
        by (auto simp: retained_def slot_def dest: spec [of _ "length fs"])
      have "retained k (2 ^ k) (record_at h c t) (fs @ [v(h \<mapsto> c)])"
        by (rule retained_update [OF k i(2) _ view_recorded [OF len, of "of_nat (length fs mod 2 ^ k)" h c, unfolded v]])
          (simp add: record_at_def i Let_def write_pos_eq [OF w] n acks)
      then show ?thesis using RecordHop Some l acks i w en n len
        by (simp add: record_hop_def record_at_def Let_def)
    qed
  next
    case (OrderAck a b c)
    show ?thesis unfolding OrderAck trace_step.simps log_step.simps
      by (rule append_shows [OF assms(1,3)]) (rule view_three, simp_all add: len record_order_ack_def en Let_def)
  next
    case (AckFill a b c)
    show ?thesis unfolding AckFill trace_step.simps log_step.simps
      by (rule append_shows [OF assms(1,3)]) (rule view_three, simp_all add: len record_ack_fill_def en Let_def)
  next
    case EndTrace
    then show ?thesis using assms(1,3) l n w
      by (cases op) (auto simp: end_trace_def unat_succ retained_traces [of "t\<lparr>ht_in_trace := False, ht_total_count := ht_total_count t + 1\<rparr>" t] intro: retained_mono)
  next
    case DiscardTrace
    with assms(1,2) l show ?thesis
      by (cases op) (auto simp: discard_trace_def retained_traces [of "t\<lparr>ht_in_trace := False\<rparr>" t] dest: retained_butlast)
  qed
qed

lemma log_size_step: "proper x l \<Longrightarrow> log_size (log_step x l) \<le> log_size l + 1"
  by (cases x; cases l) (auto simp: log_append_def split: option.splits)

lemma log_size_run: "proper_run xs l \<Longrightarrow> log_size (fold log_step xs l) \<le> log_size l + length xs"
proof (induction xs arbitrary: l)
  case (Cons x xs)
  then have "log_size (fold log_step xs (log_step x l)) \<le> log_size (log_step x l) + length xs" by simp
  with log_size_step [of x l] Cons.prems show ?case by simp
qed simp

lemma fold_trace_shows:
  assumes "shows_log k t l" "proper_run xs l" "log_size l + length xs < 2 ^ 64"
  shows "shows_log k (fold trace_step xs t) (fold log_step xs l)"
  using assms
proof (induction xs arbitrary: t l)
  case (Cons x xs)
  then have p: "proper x l" by simp
  have "shows_log k (trace_step x t) (log_step x l)"
    by (rule trace_step_shows [OF Cons.prems(1) p]) (use Cons.prems(3) in simp)
  from Cons.IH [OF this] Cons.prems(2,3) log_size_step [OF p] show ?case by simp
qed simp

lemma new_tracer_shows:
  assumes "uint cap \<le> 2 ^ 63"
  obtains k where "shows_log k (new_tracer cap) ([], None, [])" "uint cap \<le> 2 ^ k"
    "\<And>j. uint cap \<le> 2 ^ j \<Longrightarrow> k \<le> j"
proof -
  from round_up_pow2_spec [OF assms] obtain k where
    k: "k \<le> 63" "uint (round_up_pow2 cap) = 2 ^ k" "uint cap \<le> 2 ^ k" "\<forall>j. uint cap \<le> 2 ^ j \<longrightarrow> k \<le> j" by blast
  then have "round_up_pow2 cap = 2 ^ k"
    by (simp add: word_uint_eq_iff uint_pow2)
  with k show ?thesis
    by (intro that [of k])
      (simp_all add: wf_tracer_def new_tracer_def mask_eq_exp_minus_1 empty_trace_def NUM_HOPS_def retained_def)
qed

section \<open>What the reader sees\<close>

lemma unat_pow2: "k \<le> 63 \<Longrightarrow> unat (2 ^ k :: u64) = 2 ^ k"
  using uint_pow2 [of k] by (simp add: unat_eq_nat_uint nat_power_eq)

lemma count_less:
  assumes "wf_tracer k t"
  shows "unat (ht_capacity t) = 2 ^ k"
    "ht_total_count t \<le> ht_capacity t \<longleftrightarrow> unat (ht_total_count t) \<le> 2 ^ k"
    "unat (trace_count t) = min (unat (ht_total_count t)) (2 ^ k)"
proof -
  have k: "k \<le> 63" "ht_capacity t = 2 ^ k" using assms by (auto simp: wf_tracer_def)
  then show cap: "unat (ht_capacity t) = 2 ^ k" using unat_pow2 by simp
  then show "ht_total_count t \<le> ht_capacity t \<longleftrightarrow> unat (ht_total_count t) \<le> 2 ^ k"
    by (simp add: word_le_nat_alt)
  show "unat (trace_count t) = min (unat (ht_total_count t)) (2 ^ k)"
    using cap by (auto simp: trace_count_def word_less_nat_alt)
qed

lemma get_trace_slot:
  assumes "wf_tracer k t" "idx < unat (trace_count t)" "n = unat (ht_total_count t)" "n + 2 ^ k < 2 ^ 64"
  shows "get_trace t (of_nat idx) = slot k t (n - unat (trace_count t) + idx)"
proof -
  have k: "k \<le> 63" "ht_capacity_mask t = mask k" using assms(1) by (auto simp: wf_tracer_def)
  note count = count_less [OF assms(1), folded assms(3)]
  then have idx: "idx < n" "idx < 2 ^ k" using assms(2) by auto
  have u: "unat (of_nat idx :: u64) = idx" using idx(2) assms(4) by (simp add: unat_of_nat)
  show ?thesis
  proof (cases "n \<le> 2 ^ k")
    case True
    then show ?thesis using idx count by (simp add: get_trace_def slot_def)
  next
    case False
    let ?p = "ht_total_count t AND mask k"
    have "unat ?p = n mod 2 ^ k"
      using masked_pos [OF k(1), of "ht_total_count t"] pow2_less [OF k(1), of n] assms(3) by (simp add: unat_of_nat)
    moreover have "n mod 2 ^ k + idx < 2 ^ 64"
      using idx(2) assms(4) mod_less_eq_dividend [of n "2 ^ k"] by linarith
    ultimately have "unat (?p + of_nat idx) = n mod 2 ^ k + idx"
      using u by (subst unat_add_lem [THEN iffD1]) simp_all
    then have "(?p + of_nat idx) AND mask k = of_nat ((n + idx) mod 2 ^ k)"
      using masked_pos [OF k(1), of "?p + of_nat idx"] by (simp add: mod_simps)
    moreover have "(n + idx) mod 2 ^ k = (n - 2 ^ k + idx) mod 2 ^ k"
    proof -
      have "n + idx = (n - 2 ^ k + idx) + 2 ^ k" using False by linarith
      then show ?thesis by (metis mod_add_self2)
    qed
    ultimately show ?thesis using False count k by (simp add: get_trace_def slot_def)
  qed
qed

text \<open>
  C25. The tracer refines a log of finished traces. Record traces and acknowledgements in the order
  of the trading loop, any number of them: the total counts the finished traces, the capacity is a
  power of two not below the one asked for, and the reader sees the latest finished traces in order,
  with exactly the hops recorded for each and their ticks. All of them are seen while there are
  fewer than the capacity; after that, all but possibly the oldest in the ring.
\<close>

theorem tracer_refines_log:
  assumes "uint cap \<le> 2 ^ 62" "proper_run ops ([], None, [])" "length ops < 2 ^ 63"
    "fold log_step ops ([], None, []) = (fs, None, [])" "t = fold trace_step ops (new_tracer cap)"
    "c = unat (ht_capacity t)"
  shows "unat (ht_total_count t) = length fs \<and> unat cap \<le> c \<and> (\<exists>k. c = 2 ^ k) \<and>
         unat (trace_count t) = min (length fs) c \<and>
         (\<forall>idx < unat (trace_count t). 0 < idx \<or> length fs < c \<longrightarrow>
            trace_view (get_trace t (of_nat idx)) = fs ! (length fs - unat (trace_count t) + idx))"
proof -
  have small: "uint cap \<le> 2 ^ 63" using assms(1) by simp
  obtain k where k: "shows_log k (new_tracer cap) ([], None, [])" "uint cap \<le> 2 ^ k" "k \<le> 62"
    using new_tracer_shows [OF small] assms(1) by metis
  have "shows_log k t (fs, None, [])"
    using fold_trace_shows [OF k(1) assms(2)] assms(3-5) by simp
  then have t: "wf_tracer k t" "unat (ht_total_count t) = length fs" "retained k (2 ^ k - 1) t fs" by simp_all
  note count = count_less [OF t(1), unfolded t(2), folded assms(6)]
  have "(2 :: nat) ^ k \<le> 2 ^ 62" using k(3) by (rule power_increasing) simp
  moreover have "length fs \<le> length ops" using log_size_run [OF assms(2)] assms(4) by simp
  ultimately have small: "length fs + 2 ^ k < 2 ^ 64" using assms(3) by simp
  have "unat cap \<le> c" unfolding count(1) using nat_mono [OF k(2)] by (simp add: nat_power_eq)
  moreover have "trace_view (get_trace t (of_nat idx)) = fs ! (length fs - unat (trace_count t) + idx)"
    if "idx < unat (trace_count t)" "0 < idx \<or> length fs < c" for idx
  proof -
    let ?i = "length fs - unat (trace_count t) + idx"
    have "?i < length fs" "length fs - ?i \<le> 2 ^ k - 1" using that count by auto
    then have "trace_view (slot k t ?i) = fs ! ?i" using t(3) by (simp add: retained_def)
    then show ?thesis using get_trace_slot [OF t(1) that(1) t(2) [symmetric] small] by simp
  qed
  ultimately show ?thesis using count t(2) by auto
qed

definition loop_ops :: "trace_op list" where
  "loop_ops = [StartTrace, RecordHop RecvStart 1, RecordHop RecvDone 2, OrderAck 3 4 5, EndTrace,
     StartTrace, RecordHop RecvStart 9, DiscardTrace, AckFill 4 6 7]"

lemma loop_ops_log:
  "fold log_step loop_ops ([], None, []) =
     ([[RecvStart \<mapsto> 1, RecvDone \<mapsto> 2], [OrderSent \<mapsto> 3, AckReceived \<mapsto> 4, AckProcessed \<mapsto> 5],
       [AckReceived \<mapsto> 4, FillReceived \<mapsto> 6, FillProcessed \<mapsto> 7]], None, [])"
  by (simp add: loop_ops_def log_append_def)

theorem tracer_refines_log_witness:
  "trace_view (get_trace (fold trace_step loop_ops (new_tracer 2)) 1) = [AckReceived \<mapsto> 4, FillReceived \<mapsto> 6, FillProcessed \<mapsto> 7]"
proof -
  let ?t = "fold trace_step loop_ops (new_tracer 2)"
  have p: "proper_run loop_ops ([], None, [])" "length loop_ops < 2 ^ 63"
    by (simp_all add: loop_ops_def log_append_def)
  have cap: "ht_capacity ?t = 2" by code_simp
  have spec: "unat (trace_count ?t) = 2 \<and>
      (\<forall>idx < unat (trace_count ?t). 0 < idx \<longrightarrow> trace_view (get_trace ?t (of_nat idx)) =
        [[RecvStart \<mapsto> 1, RecvDone \<mapsto> 2], [OrderSent \<mapsto> 3, AckReceived \<mapsto> 4, AckProcessed \<mapsto> 5],
         [AckReceived \<mapsto> 4, FillReceived \<mapsto> 6, FillProcessed \<mapsto> 7]] ! (3 - unat (trace_count ?t) + idx))"
    using tracer_refines_log [OF _ p loop_ops_log refl refl, of 2] by (simp add: cap)
  from spec [THEN conjunct2, rule_format, of 1] spec show ?thesis by (simp add: numeral_3_eq_3)
qed

text \<open>
  C26. An idle iteration destroys the oldest trace. Once the ring is full, the trading loop's
  \<open>start_trace\<close> followed by \<open>discard_trace\<close>, which it does whenever no market data arrived, clears
  the oldest trace of the ring, which the reader still counts and now sees without any hop.
\<close>

theorem idle_iteration_clears_oldest:
  assumes "wf_tracer k t" "ht_enabled t" "2 ^ k \<le> unat (ht_total_count t)"
    "unat (ht_total_count t) + 2 ^ k < 2 ^ 64"
  shows "trace_count (discard_trace (start_trace t)) = trace_count t \<and>
         trace_view (get_trace (discard_trace (start_trace t)) 0) = Map.empty"
proof -
  let ?t = "discard_trace (start_trace t)" and ?n = "unat (ht_total_count t)"
  have wp: "write_pos (t\<lparr>ht_in_trace := True\<rparr>) = write_pos t" by (simp add: write_pos_def)
  have w: "wf_tracer k ?t" and n: "ht_total_count ?t = ht_total_count t"
    using assms(1,2) ticks_length [OF assms(1)] by (simp_all add: discard_trace_def start_trace_def Let_def)
  have cap: "trace_count ?t = trace_count t"
    using assms(2) by (simp add: trace_count_def discard_trace_def start_trace_def set_trace_def Let_def)
  have c: "unat (trace_count ?t) = 2 ^ k" using count_less(3) [OF w] n assms(3) by simp
  have "get_trace ?t 0 = slot k ?t (?n - 2 ^ k)"
    using get_trace_slot [OF w, of 0 ?n] c n assms(4) by simp
  also have "\<dots> = ht_traces ?t (write_pos t)"
    using assms(3) by (simp add: slot_def write_pos_eq [OF assms(1)] le_mod_geq [symmetric])
  also have "trace_view \<dots> = Map.empty"
    using assms(2) by (simp add: discard_trace_def start_trace_def Let_def wp)
  finally show ?thesis using cap by simp
qed

theorem idle_iteration_clears_oldest_witness:
  "trace_count (discard_trace (start_trace (fold trace_step loop_ops (new_tracer 2)))) = 2 \<and>
   trace_view (get_trace (discard_trace (start_trace (fold trace_step loop_ops (new_tracer 2)))) 0) = Map.empty"
proof -
  let ?t = "fold trace_step loop_ops (new_tracer 2)"
  have "wf_tracer 1 ?t"
    using fold_trace_shows [of 1 "new_tracer 2" "([], None, [])" loop_ops]
    by (simp add: loop_ops_def log_append_def wf_tracer_def new_tracer_def round_up_pow2_def smear_def
        empty_trace_def NUM_HOPS_def retained_def)
  moreover have "ht_enabled ?t" "ht_total_count ?t = 3" "trace_count ?t = 2" by code_simp+
  ultimately show ?thesis using idle_iteration_clears_oldest [of 1 ?t] by simp
qed

end
