(* ===== verification/Stats.thy ===== *)
theory Stats
  imports Tracer
begin

text \<open>
  The latency statistics over the traces, \<open>include/nts/instrument/stats.h\<close> and
  \<open>src/instrument/stats.cpp\<close>, and the tick sampler, \<open>tick_sampler.h\<close> and \<open>tick_sampler.cpp\<close>. \<open>None\<close> is
  the outcome of a conversion that does not fit or of an access outside a vector. \<open>std::sqrt\<close> is the
  correctly rounded square root.
\<close>

section \<open>The square root of a double\<close>

fun isqrt_bits :: "nat \<Rightarrow> int \<Rightarrow> int \<Rightarrow> int" where
  "isqrt_bits 0 x acc = acc"
| "isqrt_bits (Suc k) x acc =
     (let a = acc + 2 ^ k in isqrt_bits k x (if a * a \<le> x then a else acc))"

definition fsqrt_fin :: "rat \<Rightarrow> rat" where
  "fsqrt_fin x =
     (let e = mag_exp x div 2 - 52; q = x / pw (2 * e); m = isqrt_bits 54 \<lfloor>q\<rfloor> 0;
          h = (of_int m + 1 / 2) * (of_int m + 1 / 2)
      in of_int (if h < q \<or> (h = q \<and> odd m) then m + 1 else m) * pw e)"

fun fsqrt :: "double \<Rightarrow> double" where
  "fsqrt (Fin s x) = (if x = 0 then Fin s 0 else if s then NaN else Fin False (fsqrt_fin x))"
| "fsqrt (Inf s) = (if s then NaN else Inf False)"
| "fsqrt NaN = NaN"

lemma isqrt_bits_correct:
  assumes "0 \<le> acc" "acc * acc \<le> x" "x < (acc + 2 ^ k) * (acc + 2 ^ k)"
  shows "isqrt_bits k x acc * isqrt_bits k x acc \<le> x \<and>
         x < (isqrt_bits k x acc + 1) * (isqrt_bits k x acc + 1)"
  using assms
proof (induction k arbitrary: acc)
  case (Suc k)
  then show ?case using Suc.IH [of acc] Suc.IH [of "acc + 2 ^ k"] by (auto simp: Let_def add.assoc)
qed simp

section \<open>Latency statistics\<close>

record latency_stats =
  ls_min_ns :: u64
  ls_max_ns :: u64
  ls_mean_ns :: u64
  ls_p50_ns :: u64
  ls_p90_ns :: u64
  ls_p99_ns :: u64
  ls_p999_ns :: u64
  ls_stddev_ns :: double
  ls_samples :: u64

definition empty_stats :: latency_stats where
  "empty_stats =
     \<lparr>ls_min_ns = 0, ls_max_ns = 0, ls_mean_ns = 0, ls_p50_ns = 0, ls_p90_ns = 0, ls_p99_ns = 0,
      ls_p999_ns = 0, ls_stddev_ns = Fin False 0, ls_samples = 0\<rparr>"

record segment =
  sg_from :: hop
  sg_to :: hop
  sg_name :: string

definition per_hop_segments :: "segment list" where
  "per_hop_segments =
     [\<lparr>sg_from = RecvStart, sg_to = RecvDone, sg_name = ''RecvStart -> RecvDone''\<rparr>,
      \<lparr>sg_from = RecvDone, sg_to = BookUpdated, sg_name = ''RecvDone -> BookUpdated''\<rparr>,
      \<lparr>sg_from = BookUpdated, sg_to = StrategyDone, sg_name = ''BookUpdated -> StrategyDone''\<rparr>,
      \<lparr>sg_from = StrategyDone, sg_to = OrderSent, sg_name = ''StrategyDone -> OrderSent''\<rparr>,
      \<lparr>sg_from = OrderSent, sg_to = AckReceived, sg_name = ''OrderSent -> AckReceived''\<rparr>,
      \<lparr>sg_from = AckReceived, sg_to = AckProcessed, sg_name = ''AckReceived -> AckProcessed''\<rparr>,
      \<lparr>sg_from = AckReceived, sg_to = FillReceived, sg_name = ''AckReceived -> FillReceived''\<rparr>,
      \<lparr>sg_from = FillReceived, sg_to = FillProcessed, sg_name = ''FillReceived -> FillProcessed''\<rparr>]"

definition end_to_end_segments :: "segment list" where
  "end_to_end_segments =
     [\<lparr>sg_from = RecvDone, sg_to = StrategyDone, sg_name = ''RecvDone -> StrategyDone (core)''\<rparr>,
      \<lparr>sg_from = RecvDone, sg_to = OrderSent, sg_name = ''RecvDone -> OrderSent (tick-to-order)''\<rparr>,
      \<lparr>sg_from = RecvStart, sg_to = OrderSent, sg_name = ''RecvStart -> OrderSent (tick-to-trade)''\<rparr>,
      \<lparr>sg_from = OrderSent, sg_to = FillProcessed, sg_name = ''OrderSent -> FillProcessed (exchange RT)''\<rparr>]"

fun collect_latencies :: "double \<Rightarrow> hop \<Rightarrow> hop \<Rightarrow> trace_record list \<Rightarrow> u64 list option" where
  "collect_latencies v from to [] = Some []"
| "collect_latencies v from to (t # ts) =
     (if has_hop t from \<and> has_hop t to then
        (case latency v t from to of
           None \<Rightarrow> None
         | Some dt \<Rightarrow> map_option (\<lambda>xs. dt # xs) (collect_latencies v from to ts))
      else collect_latencies v from to ts)"

definition all_traces :: "hop_tracer \<Rightarrow> trace_record list" where
  "all_traces t = map (\<lambda>i. get_trace t (of_nat i)) [0..<unat (trace_count t)]"

definition percentile :: "double \<Rightarrow> u64 list \<Rightarrow> u64 option" where
  "percentile p xs =
     (case dbl_to_u64 (fmul p (dbl_of_u64 (of_nat (length xs) - 1))) of
        None \<Rightarrow> None
      | Some i \<Rightarrow> if unat i < length xs then Some (xs ! unat i) else None)"

definition dsum :: "u64 list \<Rightarrow> double" where
  "dsum xs = fold (\<lambda>v s. fadd s (dbl_of_u64 v)) xs (Fin False 0)"

definition dmean :: "u64 list \<Rightarrow> double" where
  "dmean xs = fdiv (dsum xs) (dbl_of_u64 (of_nat (length xs)))"

definition sq_sum :: "double \<Rightarrow> u64 list \<Rightarrow> double" where
  "sq_sum mean xs =
     fold (\<lambda>v s. let diff = fsub (dbl_of_u64 v) mean in fadd s (fmul diff diff)) xs (Fin False 0)"

text \<open>The statistics of a sorted, non-empty list of latencies.\<close>

definition stats_of_sorted :: "u64 list \<Rightarrow> latency_stats option" where
  "stats_of_sorted xs =
     (case (percentile half xs, percentile (mk_double False (9 / 10)) xs,
            percentile (mk_double False (99 / 100)) xs, percentile (mk_double False (999 / 1000)) xs,
            dbl_to_u64 (dmean xs)) of
        (Some p50, Some p90, Some p99, Some p999, Some mean) \<Rightarrow>
          Some \<lparr>ls_min_ns = hd xs, ls_max_ns = last xs, ls_mean_ns = mean, ls_p50_ns = p50, ls_p90_ns = p90,
                ls_p99_ns = p99, ls_p999_ns = p999,
                ls_stddev_ns = fsqrt (fdiv (sq_sum (dmean xs) xs) (dbl_of_u64 (of_nat (length xs)))),
                ls_samples = of_nat (length xs)\<rparr>
      | _ \<Rightarrow> None)"

definition compute :: "double \<Rightarrow> hop_tracer \<Rightarrow> hop \<Rightarrow> hop \<Rightarrow> latency_stats option" where
  "compute v t from to =
     (case collect_latencies v from to (all_traces t) of
        None \<Rightarrow> None
      | Some xs \<Rightarrow> if xs = [] then Some empty_stats else stats_of_sorted (sort xs))"

section \<open>Tick sampler\<close>

record tick_sample_stats =
  ts_min_ticks :: u64
  ts_max_ticks :: u64
  ts_mean_ticks :: u64
  ts_p50_ticks :: u64
  ts_p99_ticks :: u64
  ts_samples :: u64
  ts_dropped :: u64

record tick_sampler =
  tk_samples :: "u64 list"
  tk_dropped :: u64

definition MAX_SAMPLES :: nat where
  "MAX_SAMPLES = 1048576"

definition init_sampler :: tick_sampler where
  "init_sampler = \<lparr>tk_samples = [], tk_dropped = 0\<rparr>"

definition sampler_add :: "u64 \<Rightarrow> tick_sampler \<Rightarrow> tick_sampler" where
  "sampler_add ticks s =
     (if length (tk_samples s) < MAX_SAMPLES then s\<lparr>tk_samples := tk_samples s @ [ticks]\<rparr>
      else s\<lparr>tk_dropped := tk_dropped s + 1\<rparr>)"

definition compute_tick_stats :: "tick_sampler \<Rightarrow> tick_sample_stats" where
  "compute_tick_stats s =
     (let n = of_nat (length (tk_samples s)) :: u64;
          stats = \<lparr>ts_min_ticks = 0, ts_max_ticks = 0, ts_mean_ticks = 0, ts_p50_ticks = 0, ts_p99_ticks = 0,
                   ts_samples = n, ts_dropped = tk_dropped s\<rparr>
      in if tk_samples s = [] then stats
         else
           let xs = sort (tk_samples s); total = fold (\<lambda>v a. a + v) xs 0
           in stats\<lparr>ts_min_ticks := hd xs, ts_max_ticks := last xs, ts_mean_ticks := total div n,
                    ts_p50_ticks := xs ! unat ((n - 1) div 2), ts_p99_ticks := xs ! unat ((n - 1) * 99 div 100)\<rparr>)"

section \<open>Percentiles\<close>

lemma of_nat_pred: "xs \<noteq> [] \<Longrightarrow> (of_nat (length xs) - 1 :: u64) = of_int (int (length xs) - 1)"
  by simp

lemma dbl_to_u64_floor:
  assumes "0 \<le> r" "r \<le> of_int b" "b < 2 ^ 64"
  shows "dbl_to_u64 (Fin False r) = Some (of_int \<lfloor>r\<rfloor>)" "uint (of_int \<lfloor>r\<rfloor> :: u64) = \<lfloor>r\<rfloor>"
    "0 \<le> \<lfloor>r\<rfloor>" "\<lfloor>r\<rfloor> \<le> b"
proof -
  show "0 \<le> \<lfloor>r\<rfloor>" using assms(1) by simp
  show "\<lfloor>r\<rfloor> \<le> b" using floor_mono [OF assms(2)] by simp
  with assms(3) have "\<lfloor>r\<rfloor> < 2 ^ 64" by (rule le_less_trans [rotated])
  then show "dbl_to_u64 (Fin False r) = Some (of_int \<lfloor>r\<rfloor>)"
    unfolding dbl_to_u64.simps Let_def by (simp only: if_False simp_thms not_le [symmetric])
  show "uint (of_int \<lfloor>r\<rfloor> :: u64) = \<lfloor>r\<rfloor>"
    using \<open>0 \<le> \<lfloor>r\<rfloor>\<close> \<open>\<lfloor>r\<rfloor> < 2 ^ 64\<close> by (simp only: uint_word_of_int mod_pos_pos_trivial) simp
qed

lemma percentile_index:
  assumes "0 \<le> x" "x \<le> 1" "xs \<noteq> []" "length xs \<le> 2 ^ 53"
  shows "percentile (Fin False x) xs = Some (xs ! nat \<lfloor>rnd (x * of_int (int (length xs) - 1))\<rfloor>)"
    "nat \<lfloor>rnd (x * of_int (int (length xs) - 1))\<rfloor> < length xs"
proof -
  define n where "n = int (length xs) - 1"
  have n: "0 \<le> n" "n \<le> 2 ^ 53"
    using assms(3,4) by (cases xs; simp add: n_def)+
  have d: "dbl_of_u64 (of_nat (length xs) - 1) = Fin False (of_int n)"
  proof -
    have "uint (of_int n :: u64) = n" using n by (simp add: uint_word_of_int)
    then show ?thesis using n mk_double_int [of n False] of_nat_pred [OF assms(3)]
      by (simp add: n_def [symmetric] dbl_of_nonneg)
  qed
  define y where "y = x * of_int n"
  have y: "0 \<le> y" "y \<le> of_int n" using assms(1,2) n(1) by (simp_all add: y_def mult_left_le_one_le)
  have r: "0 \<le> rnd y" "rnd y \<le> of_int n"
    using rnd_mono [OF y] rnd_exact [OF representable_int [OF n]] rnd_nonneg [OF y(1)] by simp_all
  have fin: "mk_double False y = Fin False (rnd y)"
  proof -
    have "(of_int n :: rat) \<le> of_int (2 ^ 53)" using n(2) by (simp only: of_int_le_iff)
    then have "rnd y < max_finite_bound" using r(2) max_finite_bound_ge by simp
    then show ?thesis using y(1) by (simp add: mk_double_alt)
  qed
  have b: "n < 2 ^ 64" using n(2) by simp
  note fl = dbl_to_u64_floor [OF r b]
  have u: "unat (of_int \<lfloor>rnd y\<rfloor> :: u64) = nat \<lfloor>rnd y\<rfloor>"
    using fl(2) by (simp add: unat_eq_nat_uint)
  show less: "nat \<lfloor>rnd (x * of_int (int (length xs) - 1))\<rfloor> < length xs"
    using fl(3,4) assms(3) unfolding n_def [symmetric] y_def [symmetric] by (simp add: n_def nat_less_iff)
  show "percentile (Fin False x) xs = Some (xs ! nat \<lfloor>rnd (x * of_int (int (length xs) - 1))\<rfloor>)"
    using less unfolding percentile_def d fmul.simps n_def [symmetric] y_def [symmetric]
    by (simp add: fin fl(1) u del: dbl_to_u64.simps)
qed

end
