(* ===== verification/Stats_Properties.thy ===== *)
theory Stats_Properties
  imports Stats
begin

text \<open>
  The statistics are those of the recorded latencies: ordered percentiles taken from the samples,
  exact extremes, and a mean between them.
\<close>

section \<open>Percentiles of a sorted list\<close>

lemma percentile_mono:
  assumes "sorted xs" "xs \<noteq> []" "length xs \<le> 2 ^ 53" "0 \<le> x" "x \<le> y" "y \<le> 1"
  obtains a b where "percentile (Fin False x) xs = Some a" "percentile (Fin False y) xs = Some b"
    "a \<le> b" "hd xs \<le> a" "b \<le> last xs" "a \<in> set xs" "b \<in> set xs"
proof -
  let ?n = "int (length xs) - 1"
  let ?i = "\<lambda>x. nat \<lfloor>rnd (x * of_int ?n)\<rfloor>"
  have x: "percentile (Fin False x) xs = Some (xs ! ?i x)" "?i x < length xs"
    using percentile_index [of x xs] assms by auto
  have y: "percentile (Fin False y) xs = Some (xs ! ?i y)" "?i y < length xs"
    using percentile_index [of y xs] assms by auto
  have n: "0 \<le> ?n" using assms(2) by (cases xs) auto
  then have "x * of_int ?n \<le> y * of_int ?n" "0 \<le> x * of_int ?n"
    using assms(4,5) by (auto intro: mult_right_mono mult_nonneg_nonneg simp del: of_int_diff of_int_of_nat_eq)
  then have "?i x \<le> ?i y" by (intro nat_mono floor_mono rnd_mono)
  then have le: "xs ! ?i x \<le> xs ! ?i y" by (rule sorted_nth_mono [OF assms(1) _ y(2)])
  moreover have "hd xs \<le> xs ! ?i x"
    unfolding hd_conv_nth [OF assms(2)] using assms(1) x(2) by (intro sorted_nth_mono) simp_all
  moreover have "xs ! ?i y \<le> last xs"
    unfolding last_conv_nth [OF assms(2)] using assms(1,2) y(2) by (intro sorted_nth_mono) auto
  ultimately show ?thesis using x y nth_mem by (intro that) blast+
qed

lemma quantile_fin:
  assumes "0 \<le> q" "q \<le> 1"
  shows "mk_double False q = Fin False (rnd q)" "0 \<le> rnd q" "rnd q \<le> 1"
proof -
  have one: "rnd 1 = 1" using rnd_exact [OF representable_int [of 1]] by simp
  show r: "0 \<le> rnd q" "rnd q \<le> 1" using rnd_nonneg [OF assms(1)] rnd_mono [OF assms] one by simp_all
  have "rnd q < max_finite_bound" using r(2) max_finite_bound_ge by simp
  then show "mk_double False q = Fin False (rnd q)" using assms(1) by (simp add: mk_double_alt)
qed

lemma rnd_half: "rnd (1 / 2) = 1 / 2"
  by (rule rnd_exact, rule representableI [of _ 1 "- 1"]) simp_all

section \<open>Sums and means\<close>

lemma fadd_ints:
  assumes "0 \<le> a" "0 \<le> b" "a + b \<le> 2 ^ 53"
  shows "fadd (Fin False (of_int a)) (Fin False (of_int b)) = Fin False (of_int (a + b))"
proof (cases "a + b = 0")
  case True
  with assms(1,2) have "a = 0" "b = 0" by linarith+
  then show ?thesis by (simp add: of_rat_double_def)
next
  case False
  with assms(1,2) have "(0 :: rat) < of_int (a + b)" by (simp only: of_int_0_less_iff)
  then show ?thesis using mk_double_int [of "a + b" False] assms by (simp add: of_rat_double_def)
qed

lemma dbl_of_u64_exact: "uint w \<le> 2 ^ 53 \<Longrightarrow> dbl_of_u64 w = Fin False (of_int (uint w))"
  using mk_double_int [of "uint w" False] by (simp add: dbl_of_nonneg del: of_int_uint)

lemma uint_sum_nonneg: "0 \<le> (\<Sum>x\<leftarrow>xs. uint x)"
  by (induction xs) auto

lemma uint_le_sum: "x \<in> set xs \<Longrightarrow> uint x \<le> (\<Sum>x\<leftarrow>xs. uint x)"
proof (induction xs)
  case (Cons y ys)
  then show ?case using uint_sum_nonneg [of ys] uint_nonnegative [of y] by (auto intro: add_increasing)
qed simp

lemma sum_sort: "(\<Sum>x\<leftarrow>sort xs. uint x) = (\<Sum>x\<leftarrow>xs. uint (x :: u64))"
proof -
  have ins: "(\<Sum>x\<leftarrow>insort a ys. uint x) = uint a + (\<Sum>x\<leftarrow>ys. uint x)" for a :: u64 and ys
    by (induction ys) auto
  show ?thesis by (induction xs) (simp_all add: ins)
qed

lemma dsum_exact:
  "0 \<le> a \<Longrightarrow> a + (\<Sum>x\<leftarrow>xs. uint x) \<le> 2 ^ 53 \<Longrightarrow>
   fold (\<lambda>v s. fadd s (dbl_of_u64 v)) xs (Fin False (of_int a)) = Fin False (of_int (a + (\<Sum>x\<leftarrow>xs. uint x)))"
proof (induction xs arbitrary: a)
  case (Cons x xs)
  have x: "a + uint x \<le> 2 ^ 53" "0 \<le> a + uint x" "uint x \<le> 2 ^ 53"
    using Cons.prems(1) Cons.prems(2) [unfolded list.map sum_list.Cons] uint_sum_nonneg [of xs] uint_nonnegative [of x]
    by linarith+
  then have "fadd (Fin False (of_int a)) (dbl_of_u64 x) = Fin False (of_int (a + uint x))"
    using fadd_ints [of a "uint x"] Cons.prems(1) by (simp add: dbl_of_u64_exact del: of_int_uint)
  then show ?case using Cons.IH [of "a + uint x"] Cons.prems(2) x by (simp add: add.assoc del: of_int_uint)
qed (simp del: of_int_uint)

lemma sorted_ends:
  fixes xs :: "u64 list"
  assumes "sorted xs" "xs \<noteq> []"
  shows "x \<in> set xs \<Longrightarrow> hd xs \<le> x" "x \<in> set xs \<Longrightarrow> x \<le> last xs"
    "hd xs = Min (set xs)" "last xs = Max (set xs)"
proof -
  show lo: "hd xs \<le> x" and hi: "x \<le> last xs" if "x \<in> set xs" for x
  proof -
    from that obtain i where i: "i < length xs" "x = xs ! i" by (auto simp: in_set_conv_nth)
    show "hd xs \<le> x" using sorted_nth_mono [OF assms(1), of 0 i] i by (simp add: hd_conv_nth assms(2))
    show "x \<le> last xs"
      using sorted_nth_mono [OF assms(1), of i "length xs - 1"] i by (simp add: last_conv_nth assms(2))
  qed
  show "hd xs = Min (set xs)" by (rule Min_eqI [symmetric]) (use lo assms(2) in auto)
  show "last xs = Max (set xs)" by (rule Max_eqI [symmetric]) (use hi assms(2) in auto)
qed

lemma sum_bounds_sorted:
  fixes xs :: "u64 list"
  assumes "sorted xs" "xs \<noteq> []"
  shows "int (length xs) * uint (hd xs) \<le> (\<Sum>x\<leftarrow>xs. uint x)" "(\<Sum>x\<leftarrow>xs. uint x) \<le> int (length xs) * uint (last xs)"
proof -
  note lo = sorted_ends(1) [OF assms, unfolded word_le_def] and hi = sorted_ends(2) [OF assms, unfolded word_le_def]
  show "int (length xs) * uint (hd xs) \<le> (\<Sum>x\<leftarrow>xs. uint x)"
    using sum_list_mono [of xs "\<lambda>_. uint (hd xs)" uint] lo by (simp add: sum_list_triv)
  show "(\<Sum>x\<leftarrow>xs. uint x) \<le> int (length xs) * uint (last xs)"
    using sum_list_mono [of xs uint "\<lambda>_. uint (last xs)"] hi by (simp add: sum_list_triv)
qed

lemma mean_between:
  assumes "sorted xs" "xs \<noteq> []" "length xs \<le> 2 ^ 53" "(\<Sum>x\<leftarrow>xs. uint x) \<le> 2 ^ 53"
  obtains m where "dbl_to_u64 (dmean xs) = Some m" "hd xs \<le> m" "m \<le> last xs"
proof -
  define S n where "S = (\<Sum>x\<leftarrow>xs. uint x)" and "n = int (length xs)"
  have n: "0 < n" "n \<le> 2 ^ 53" using assms(2,3) by (auto simp: n_def)
  have S: "0 \<le> S" "S \<le> 2 ^ 53" using uint_sum_nonneg assms(4) by (simp_all add: S_def)
  have lo: "uint (hd xs) * n \<le> S" and hi: "S \<le> uint (last xs) * n"
    using sum_bounds_sorted [OF assms(1,2)] by (simp_all add: S_def n_def mult.commute)
  have le: "uint x \<le> 2 ^ 53" if "x \<in> set xs" for x
    using uint_le_sum [OF that] S(2) by (simp add: S_def)
  have ends: "uint (hd xs) \<le> 2 ^ 53" "uint (last xs) \<le> 2 ^ 53" using le assms(2) by simp_all
  have q: "of_int (uint (hd xs)) \<le> of_int S / (of_int n :: rat)" "of_int S / (of_int n :: rat) \<le> of_int (uint (last xs))"
    using lo hi n(1) by (simp_all add: pos_le_divide_eq pos_divide_le_eq flip: of_int_mult del: of_int_uint)
  have hd0: "0 \<le> (of_int (uint (hd xs)) :: rat)" by (simp del: of_int_uint)
  define r where "r = rnd (of_int S / of_int n)"
  have ex: "rnd (of_int (uint (hd xs))) = of_int (uint (hd xs))" "rnd (of_int (uint (last xs))) = of_int (uint (last xs))"
    using ends by (intro rnd_exact representable_int; simp)+
  have r: "of_int (uint (hd xs)) \<le> r" "r \<le> of_int (uint (last xs))"
    using rnd_mono [OF hd0 q(1)] rnd_mono [OF order_trans [OF hd0 q(1)] q(2)] by (simp_all only: r_def ex)
  have "dsum xs = Fin False (of_int S)" using dsum_exact [of 0 xs] S(2) by (simp add: dsum_def S_def)
  moreover have "dbl_of_u64 (of_nat (length xs)) = Fin False (of_int n)"
  proof -
    have "uint (of_nat (length xs) :: u64) = n"
      using n unfolding n_def by (simp add: uint_nat unat_of_nat)
    then show ?thesis using dbl_of_u64_exact [of "of_nat (length xs)"] n(2) by simp
  qed
  moreover have "mk_double False (of_int S / of_int n) = Fin False r"
  proof -
    have "(of_int (uint (last xs)) :: rat) \<le> of_int (2 ^ 53)" using ends(2) by (simp only: of_int_le_iff)
    then have "r < max_finite_bound" using r(2) max_finite_bound_ge by simp
    then show ?thesis using S(1) n(1) by (simp add: mk_double_alt r_def)
  qed
  ultimately have mean: "dmean xs = Fin False r" using n(1) by (simp add: dmean_def)
  have b: "uint (last xs) < 2 ^ 64" using ends(2) by simp
  note fl = dbl_to_u64_floor [OF order_trans [OF hd0 r(1)] r(2) b]
  show ?thesis
  proof (rule that)
    show "dbl_to_u64 (dmean xs) = Some (of_int \<lfloor>r\<rfloor>)" unfolding mean by (rule fl(1))
    show "hd xs \<le> of_int \<lfloor>r\<rfloor>" "of_int \<lfloor>r\<rfloor> \<le> last xs"
      using fl(2,4) floor_mono [OF r(1)] by (simp_all add: word_le_def del: of_int_uint)
  qed
qed

text \<open>
  C27. Latency statistics. When the latencies recorded between two hops are not all absent and their
  sum is at most \<open>2 ^ 53\<close> (104 days), \<open>compute\<close> returns; the number of samples, the minimum and the
  maximum are exact; the four percentiles are samples, in increasing order between minimum and
  maximum; and the mean, computed in floating point, lies between minimum and maximum.
\<close>

theorem latency_stats_sound:
  assumes "collect_latencies v from to (all_traces t) = Some xs" "xs \<noteq> []"
    "(\<Sum>x\<leftarrow>xs. uint x) \<le> 2 ^ 53" "length xs \<le> 2 ^ 53"
  shows "\<exists>st. compute v t from to = Some st \<and> ls_samples st = of_nat (length xs) \<and>
           ls_min_ns st = Min (set xs) \<and> ls_max_ns st = Max (set xs) \<and>
           {ls_p50_ns st, ls_p90_ns st, ls_p99_ns st, ls_p999_ns st} \<subseteq> set xs \<and>
           sorted [ls_min_ns st, ls_p50_ns st, ls_p90_ns st, ls_p99_ns st, ls_p999_ns st, ls_max_ns st] \<and>
           ls_min_ns st \<le> ls_mean_ns st \<and> ls_mean_ns st \<le> ls_max_ns st"
proof -
  let ?s = "sort xs"
  have s: "sorted ?s" "?s \<noteq> []" "length ?s \<le> 2 ^ 53" "(\<Sum>x\<leftarrow>?s. uint x) \<le> 2 ^ 53"
    using assms(2,3,4) sum_sort [of xs] by (auto simp flip: set_empty)
  have one: "rnd (1 / 2) \<le> rnd (9 / 10)" "rnd (9 / 10) \<le> rnd (99 / 100)" "rnd (99 / 100) \<le> rnd (999 / 1000)"
    by (intro rnd_mono; simp)+
  note q = quantile_fin [of "1 / 2", simplified] quantile_fin [of "9 / 10", simplified]
    quantile_fin [of "99 / 100", simplified] quantile_fin [of "999 / 1000", simplified]
  obtain p50 p90 where p1: "percentile (Fin False (rnd (1 / 2))) ?s = Some p50"
    "percentile (Fin False (rnd (9 / 10))) ?s = Some p90" "p50 \<le> p90" "hd ?s \<le> p50" "p50 \<in> set ?s" "p90 \<in> set ?s"
    by (rule percentile_mono [OF s(1-3), of "rnd (1 / 2)" "rnd (9 / 10)"]) (use q one in auto)
  obtain p99 p999 where p2: "percentile (Fin False (rnd (99 / 100))) ?s = Some p99"
    "percentile (Fin False (rnd (999 / 1000))) ?s = Some p999" "p99 \<le> p999" "p999 \<le> last ?s" "p99 \<in> set ?s" "p999 \<in> set ?s"
    by (rule percentile_mono [OF s(1-3), of "rnd (99 / 100)" "rnd (999 / 1000)"]) (use q one in auto)
  have p3: "p90 \<le> p99"
    by (rule percentile_mono [OF s(1-3), of "rnd (9 / 10)" "rnd (99 / 100)"]) (use q one p1 p2 in auto)
  obtain m where m: "dbl_to_u64 (dmean ?s) = Some m" "hd ?s \<le> m" "m \<le> last ?s" by (rule mean_between [OF s])
  have half: "half = Fin False (rnd (1 / 2))" by (simp add: half_def rnd_half)
  have "compute v t from to = stats_of_sorted ?s" using assms(1,2) by (simp add: compute_def)
  also have "\<dots> = Some
      \<lparr>ls_min_ns = hd ?s, ls_max_ns = last ?s, ls_mean_ns = m, ls_p50_ns = p50, ls_p90_ns = p90, ls_p99_ns = p99,
       ls_p999_ns = p999,
       ls_stddev_ns = fsqrt (fdiv (sq_sum (dmean ?s) ?s) (dbl_of_u64 (of_nat (length ?s)))),
       ls_samples = of_nat (length ?s)\<rparr>"
    by (simp add: stats_of_sorted_def half q p1(1,2) p2(1,2) m(1))
  finally show ?thesis
    using p1 p2 p3 m sorted_ends(3,4) [OF s(1,2)] by auto
qed

definition ack_tracer :: hop_tracer where
  "ack_tracer = record_order_ack 10 13 20 (record_order_ack 1 8 9 (new_tracer 4))"

theorem latency_stats_sound_witness:
  "\<exists>st. compute (Fin False 1) ack_tracer OrderSent AckReceived = Some st \<and> ls_samples st = 2 \<and>
     ls_min_ns st = 3 \<and> ls_max_ns st = 7"
proof -
  have c: "collect_latencies (Fin False 1) OrderSent AckReceived (all_traces ack_tracer) = Some [7, 3]" by code_simp
  have "Min (set [7, 3 :: u64]) = 3" "Max (set [7, 3 :: u64]) = 7" by code_simp+
  with latency_stats_sound [OF c] show ?thesis by (auto simp: numeral_2_eq_2 [symmetric])
qed

section \<open>The tick sampler\<close>

lemma sampler_fold:
  assumes "length (tk_samples s) \<le> MAX_SAMPLES"
  shows "tk_samples (fold sampler_add xs s) = tk_samples s @ take (MAX_SAMPLES - length (tk_samples s)) xs"
    "tk_dropped (fold sampler_add xs s) =
       tk_dropped s + of_nat (length xs - (MAX_SAMPLES - length (tk_samples s)))"
  using assms
proof (induction xs arbitrary: s)
  case (Cons x xs)
  {
    case 1
    then show ?case using Cons.IH(1) [of "sampler_add x s"]
      by (cases "length (tk_samples s) < MAX_SAMPLES") (simp_all add: sampler_add_def take_Cons')
  next
    case 2
    have "Suc (length xs) - (MAX_SAMPLES - length (tk_samples s)) = length xs - (MAX_SAMPLES - Suc (length (tk_samples s)))"
      if "length (tk_samples s) < MAX_SAMPLES" using that by linarith
    with 2 show ?case using Cons.IH(2) [of "sampler_add x s"]
      by (cases "length (tk_samples s) < MAX_SAMPLES") (simp_all add: sampler_add_def)
  }
qed simp_all

lemma word_sum:
  "fold (\<lambda>v a. a + v) xs (a :: u64) = a + (\<Sum>x\<leftarrow>xs. x)"
  by (induction xs arbitrary: a) (auto simp: add.assoc)

lemma uint_sum_list: "(\<Sum>x\<leftarrow>xs. uint x) < 2 ^ 64 \<Longrightarrow> uint (\<Sum>x\<leftarrow>xs. (x :: u64)) = (\<Sum>x\<leftarrow>xs. uint x)"
proof (induction xs)
  case (Cons x xs)
  then have s: "uint x + (\<Sum>x\<leftarrow>xs. uint x) < 2 ^ 64" by simp
  then have "uint (\<Sum>x\<leftarrow>xs. x) = (\<Sum>x\<leftarrow>xs. uint x)"
    using Cons.IH uint_nonnegative [of x] by linarith
  with s uint_sum_nonneg [of xs] show ?case by (simp add: uint_word_ariths)
qed simp

text \<open>
  The tick sampler keeps the first \<open>2 ^ 20\<close> samples and counts the others as dropped. Its
  statistics are taken from what it keeps: minimum, median, 99th percentile and maximum are samples
  in increasing order, and the mean is the sum divided by the number, rounded down, as long as the
  sum fits in 64 bits.
\<close>

theorem tick_sampler_sound:
  assumes "xs \<noteq> []" "kept = take MAX_SAMPLES xs" "(\<Sum>x\<leftarrow>kept. uint x) < 2 ^ 64"
    "s = fold sampler_add xs init_sampler" "st = compute_tick_stats s"
  shows "tk_samples s = kept \<and> tk_dropped s = of_nat (length xs - MAX_SAMPLES) \<and>
         uint (ts_samples st) = int (length kept) \<and>
         ts_min_ticks st = Min (set kept) \<and> ts_max_ticks st = Max (set kept) \<and>
         {ts_p50_ticks st, ts_p99_ticks st} \<subseteq> set kept \<and>
         sorted [ts_min_ticks st, ts_p50_ticks st, ts_p99_ticks st, ts_max_ticks st] \<and>
         uint (ts_mean_ticks st) = (\<Sum>x\<leftarrow>kept. uint x) div int (length kept)"
proof -
  have s: "tk_samples s = kept" "tk_dropped s = of_nat (length xs - MAX_SAMPLES)"
    using sampler_fold [of init_sampler xs] assms(2,4) by (simp_all add: init_sampler_def)
  have ne: "kept \<noteq> []" using assms(1,2) by (simp add: MAX_SAMPLES_def)
  define n where "n = length kept"
  have n: "0 < n" "n \<le> 1048576" using ne assms(2) by (auto simp: n_def MAX_SAMPLES_def)
  let ?ys = "sort kept" and ?n = "of_nat n :: u64"
  have ys: "sorted ?ys" "?ys \<noteq> []" "length ?ys = n" "set ?ys = set kept"
    using ne by (auto simp: n_def simp flip: set_empty)
  have un: "unat ?n = n" using n by (simp add: unat_of_nat)
  then have ui: "uint ?n = int n" by (simp only: uint_nat)
  have pred: "unat (?n - 1) = n - 1" using n un by (simp add: unat_minus_one unat_eq_zero [symmetric])
  have i50: "unat ((?n - 1) div 2) = (n - 1) div 2" using pred by (simp add: unat_div)
  have i99: "unat ((?n - 1) * 99 div 100) = (n - 1) * 99 div 100"
  proof -
    have "unat ((?n - 1) * 99) = (n - 1) * 99"
      using pred n by (subst unat_mult_lem [THEN iffD1]) simp_all
    then show ?thesis by (simp add: unat_div)
  qed
  have order: "(n - 1) div 2 \<le> (n - 1) * 99 div 100" "(n - 1) * 99 div 100 < n" using n by linarith+
  have st: "st = \<lparr>ts_min_ticks = hd ?ys, ts_max_ticks = last ?ys, ts_mean_ticks = (\<Sum>x\<leftarrow>?ys. x) div ?n,
      ts_p50_ticks = ?ys ! ((n - 1) div 2), ts_p99_ticks = ?ys ! ((n - 1) * 99 div 100),
      ts_samples = ?n, ts_dropped = tk_dropped s\<rparr>"
    unfolding assms(5) compute_tick_stats_def s Let_def n_def [symmetric] i50 i99 word_sum using ne by simp
  have mean: "uint ((\<Sum>x\<leftarrow>?ys. x) div ?n) = (\<Sum>x\<leftarrow>kept. uint x) div int n"
    using uint_sum_list [of ?ys] sum_sort [of kept] assms(3) by (simp add: uint_div_distrib ui)
  have mem: "?ys ! ((n - 1) div 2) \<in> set ?ys" "?ys ! ((n - 1) * 99 div 100) \<in> set ?ys"
    using order ys(3) by (auto intro!: nth_mem simp del: set_sort)
  moreover have "?ys ! ((n - 1) div 2) \<le> ?ys ! ((n - 1) * 99 div 100)"
    using sorted_nth_mono [OF ys(1) order(1)] order(2) ys(3) by simp
  moreover note sorted_ends(1) [OF ys(1,2) mem(1)] sorted_ends(2) [OF ys(1,2) mem(2)]
    sorted_ends(1) [OF ys(1,2) last_in_set [OF ys(2)]]
  ultimately show ?thesis
    using sorted_ends(3,4) [OF ys(1,2)] ys(4) mean s ui by (auto simp: st n_def)
qed

theorem tick_sampler_sound_witness:
  "uint (ts_mean_ticks (compute_tick_stats (fold sampler_add [7, 2, 9] init_sampler))) = 6 \<and>
   ts_max_ticks (compute_tick_stats (fold sampler_add [7, 2, 9] init_sampler)) = 9"
proof -
  have kept: "take MAX_SAMPLES [7, 2, 9] = [7, 2, 9 :: u64]" by (simp add: MAX_SAMPLES_def)
  have "Max (set [7, 2, 9 :: u64]) = 9" by code_simp
  then show ?thesis using tick_sampler_sound [of "[7, 2, 9]" "[7, 2, 9]", OF _ kept [symmetric] _ refl refl] by auto
qed

end
