(* ===== verification/L1_Book.thy ===== *)
theory L1_Book
  imports Market_Data
begin

text \<open>
  The top-of-book view of the target market and the reference price, \<open>include/nts/orderbook.h\<close> and
  \<open>src/orderbook.cpp\<close>, and the strategy that reads it, \<open>include/nts/strategy.h\<close> and
  \<open>src/strategy.cpp\<close>. The level arrays are lists of ten levels of which only the first is written.
\<close>

record price_level =
  pl_price :: double
  pl_qty :: u32

definition empty_level :: price_level where
  "empty_level = \<lparr>pl_price = Fin False 0, pl_qty = 0\<rparr>"

definition MAX_LEVELS :: nat where
  "MAX_LEVELS = 10"

record l1_book =
  lb_bids :: "price_level list"
  lb_asks :: "price_level list"
  lb_bid_depth :: int
  lb_ask_depth :: int
  lb_reference_mid :: double
  lb_has_reference :: bool

definition init_book :: l1_book where
  "init_book =
     \<lparr>lb_bids = replicate MAX_LEVELS empty_level, lb_asks = replicate MAX_LEVELS empty_level,
      lb_bid_depth = 0, lb_ask_depth = 0, lb_reference_mid = Fin False 0, lb_has_reference = False\<rparr>"

definition on_quote :: "md_quote \<Rightarrow> l1_book \<Rightarrow> l1_book" where
  "on_quote q b =
     b\<lparr>lb_bid_depth := 1,
       lb_bids := (lb_bids b)[0 := \<lparr>pl_price = mq_bid_price q, pl_qty = mq_bid_size q\<rparr>],
       lb_ask_depth := 1,
       lb_asks := (lb_asks b)[0 := \<lparr>pl_price = mq_ask_price q, pl_qty = mq_ask_size q\<rparr>]\<rparr>"

definition on_reference :: "md_reference \<Rightarrow> l1_book \<Rightarrow> l1_book" where
  "on_reference r b = b\<lparr>lb_reference_mid := mf_reference_mid r, lb_has_reference := True\<rparr>"

definition book_best_bid :: "l1_book \<Rightarrow> double" where
  "book_best_bid b = (if lb_bid_depth b > 0 then pl_price (lb_bids b ! 0) else Fin False 0)"

definition book_best_ask :: "l1_book \<Rightarrow> double" where
  "book_best_ask b = (if lb_ask_depth b > 0 then pl_price (lb_asks b ! 0) else Fin False 0)"

definition mid_price :: "l1_book \<Rightarrow> double" where
  "mid_price b = fmul (fadd (pl_price (lb_bids b ! 0)) (pl_price (lb_asks b ! 0))) half"

definition clear_book :: "l1_book \<Rightarrow> l1_book" where
  "clear_book b =
     b\<lparr>lb_bid_depth := 0, lb_ask_depth := 0,
       lb_bids := map (\<lambda>_. empty_level) (lb_bids b), lb_asks := map (\<lambda>_. empty_level) (lb_asks b),
       lb_reference_mid := Fin False 0, lb_has_reference := False\<rparr>"

section \<open>The strategy\<close>

datatype signal = NoSignal | BuySignal | SellSignal

record strategy_params =
  sp_edge_threshold :: double
  sp_order_size :: u32
  sp_max_position :: i32

definition default_params :: strategy_params where
  "default_params = \<lparr>sp_edge_threshold = Fin False 2, sp_order_size = 1, sp_max_position = MAX_POSITION\<rparr>"

definition on_book_update :: "strategy_params \<Rightarrow> l1_book \<Rightarrow> i32 \<Rightarrow> signal" where
  "on_book_update sp b position =
     (if \<not> lb_has_reference b then NoSignal
      else
        let reference = lb_reference_mid b
        in if fle (fadd (book_best_ask b) (sp_edge_threshold sp)) reference \<and>
              sint position < sint (sp_max_position sp) then BuySignal
           else if fle (fadd reference (sp_edge_threshold sp)) (book_best_bid b) \<and>
              sint position > sint (- sp_max_position sp) then SellSignal
           else NoSignal)"

section \<open>The book under market data\<close>

definition wf_book :: "l1_book \<Rightarrow> bool" where
  "wf_book b = (length (lb_bids b) = MAX_LEVELS \<and> length (lb_asks b) = MAX_LEVELS \<and>
     wf_double (book_best_bid b) \<and> wf_double (book_best_ask b) \<and> wf_double (lb_reference_mid b))"

datatype book_event = QuoteEvent md_quote | ReferenceEvent md_reference | ClearEvent

primrec apply_event :: "book_event \<Rightarrow> l1_book \<Rightarrow> l1_book" where
  "apply_event (QuoteEvent q) b = on_quote q b"
| "apply_event (ReferenceEvent r) b = on_reference r b"
| "apply_event ClearEvent b = clear_book b"

text \<open>What the events since the last clear leave behind: the last quote and the last reference.\<close>

primrec last_quote :: "book_event list \<Rightarrow> md_quote option" where
  "last_quote [] = None"
| "last_quote (e # es) =
     (case e of QuoteEvent q \<Rightarrow> Some q | ReferenceEvent r \<Rightarrow> last_quote es | ClearEvent \<Rightarrow> None)"

primrec last_reference :: "book_event list \<Rightarrow> md_reference option" where
  "last_reference [] = None"
| "last_reference (e # es) =
     (case e of QuoteEvent q \<Rightarrow> last_reference es | ReferenceEvent r \<Rightarrow> Some r | ClearEvent \<Rightarrow> None)"

definition shows_quote :: "md_quote option \<Rightarrow> l1_book \<Rightarrow> bool" where
  "shows_quote q b =
     (length (lb_bids b) = MAX_LEVELS \<and> length (lb_asks b) = MAX_LEVELS \<and>
      (case q of
         None \<Rightarrow> lb_bid_depth b = 0 \<and> lb_ask_depth b = 0 \<and> lb_bids b ! 0 = empty_level \<and> lb_asks b ! 0 = empty_level
       | Some v \<Rightarrow> lb_bid_depth b = 1 \<and> lb_ask_depth b = 1 \<and>
           lb_bids b ! 0 = \<lparr>pl_price = mq_bid_price v, pl_qty = mq_bid_size v\<rparr> \<and>
           lb_asks b ! 0 = \<lparr>pl_price = mq_ask_price v, pl_qty = mq_ask_size v\<rparr>))"

definition shows_reference :: "md_reference option \<Rightarrow> l1_book \<Rightarrow> bool" where
  "shows_reference r b =
     (case r of None \<Rightarrow> \<not> lb_has_reference b \<and> lb_reference_mid b = Fin False 0
      | Some v \<Rightarrow> lb_has_reference b \<and> lb_reference_mid b = mf_reference_mid v)"

lemmas book_defs = on_quote_def on_reference_def clear_book_def shows_quote_def shows_reference_def

lemma fold_shows:
  "shows_quote (last_quote (rev es)) (fold apply_event es init_book) \<and>
   shows_reference (last_reference (rev es)) (fold apply_event es init_book)"
proof (induction es rule: rev_induct)
  case Nil
  show ?case by (simp add: init_book_def shows_quote_def shows_reference_def MAX_LEVELS_def)
next
  case (snoc e es)
  then show ?case
    by (cases e) (auto simp: book_defs MAX_LEVELS_def split: option.splits)
qed

lemma shows_best:
  "shows_quote q b \<Longrightarrow> book_best_bid b = (case q of None \<Rightarrow> Fin False 0 | Some v \<Rightarrow> mq_bid_price v)"
  "shows_quote q b \<Longrightarrow> book_best_ask b = (case q of None \<Rightarrow> Fin False 0 | Some v \<Rightarrow> mq_ask_price v)"
  "shows_quote (Some v) b \<Longrightarrow> mid_price b = fmul (fadd (mq_bid_price v) (mq_ask_price v)) half"
  by (auto simp: shows_quote_def book_best_bid_def book_best_ask_def mid_price_def split: option.splits)

text \<open>
  The book shows the market. After any sequence of quotes, references and clears the best
  prices are those of the last quote since the last clear (zero when there is none), the reference
  is the last one since the last clear, and with a quote whose prices are finite and not crossed the
  computed mid price lies between bid and ask, rounding included.
\<close>

theorem book_shows_market:
  assumes "b = fold apply_event es init_book" "last_quote (rev es) = Some q"
    "wf_double (mq_bid_price q)" "wf_double (mq_ask_price q)" "is_finite (mid_price b)"
    "is_finite (fadd (mq_bid_price q) (mq_ask_price q))" "fle (mq_bid_price q) (mq_ask_price q)"
  shows "book_best_bid b = mq_bid_price q \<and> book_best_ask b = mq_ask_price q \<and>
         lb_has_reference b = (last_reference (rev es) \<noteq> None) \<and>
         (case last_reference (rev es) of None \<Rightarrow> True | Some r \<Rightarrow> lb_reference_mid b = mf_reference_mid r) \<and>
         fle (book_best_bid b) (mid_price b) \<and> fle (mid_price b) (book_best_ask b)"
proof -
  have view: "shows_quote (Some q) b" "shows_reference (last_reference (rev es)) b"
    using fold_shows [of es] assms(1,2) by auto
  note best = shows_best(1,2) [OF view(1), simplified] shows_best(3) [OF view(1)]
  have fin: "is_finite (mq_bid_price q)" "is_finite (mq_ask_price q)" using is_finite_fadd [OF assms(6)] by auto
  have "val (mq_bid_price q) \<le> val (mq_ask_price q)" using assms(7) fin by (simp add: fle_val)
  from midpoint_between [OF assms(3,4,6) _ this] assms(5) have
    "val (mq_bid_price q) \<le> val (mid_price b) \<and> val (mid_price b) \<le> val (mq_ask_price q)"
    by (simp add: best)
  then have "fle (mq_bid_price q) (mid_price b)" "fle (mid_price b) (mq_ask_price q)"
    using fin assms(5) by (simp_all add: fle_val)
  with best view(2) show ?thesis by (auto simp: shows_reference_def split: option.splits)
qed

definition book_quote :: "int \<Rightarrow> int \<Rightarrow> md_quote" where
  "book_quote bid ask =
     \<lparr>mq_header = \<lparr>mh_timestamp_ns = 0, mh_exchange_tick = 5, mh_instrument_id = 1, mh_sequence_num = 1,
        mh_type = MdQuoteType\<rparr>,
      mq_bid_price = dbl_of_int bid, mq_ask_price = dbl_of_int ask, mq_bid_size = 5, mq_ask_size = 6\<rparr>"

theorem book_shows_market_witness:
  "book_best_bid (fold apply_event [ClearEvent, QuoteEvent (book_quote 100 103)] init_book) = dbl_of_int 100 \<and>
   fle (mid_price (fold apply_event [ClearEvent, QuoteEvent (book_quote 100 103)] init_book)) (dbl_of_int 103)"
proof -
  let ?b = "fold apply_event [ClearEvent, QuoteEvent (book_quote 100 103)] init_book"
  have "is_finite (mid_price ?b)" "is_finite (fadd (dbl_of_int 100) (dbl_of_int 103))"
    "fle (dbl_of_int 100) (dbl_of_int 103)" by code_simp+
  then show ?thesis
    using book_shows_market [of ?b "[ClearEvent, QuoteEvent (book_quote 100 103)]" "book_quote 100 103"]
    by (auto simp: book_quote_def)
qed

section \<open>Signals\<close>

lemma fle_fadd_iff:
  assumes "wf_double a" "wf_double c" "is_finite (fadd a e)" "is_finite c" "0 \<le> val e"
  shows "val a + val e \<le> val c \<Longrightarrow> fle (fadd a e) c" "fle (fadd a e) c \<Longrightarrow> val a \<le> val c"
proof -
  have eq: "fle (fadd a e) c = (srnd (val a + val e) \<le> val c)"
    using assms(3,4) by (simp add: fle_val val_fadd)
  show "fle (fadd a e) c" if "val a + val e \<le> val c"
    using srnd_mono [OF that] srnd_exact [OF wf_val [OF assms(2)]] by (simp add: eq)
  show "val a \<le> val c" if "fle (fadd a e) c"
  proof -
    have "srnd (val a) \<le> srnd (val a + val e)" using assms(5) by (intro srnd_mono) simp
    with that eq srnd_exact [OF wf_val [OF assms(1)]] show ?thesis by simp
  qed
qed


definition book_with :: "int \<Rightarrow> int \<Rightarrow> int \<Rightarrow> l1_book" where
  "book_with bid ask reference =
     (on_quote (book_quote bid ask) init_book)\<lparr>lb_has_reference := True, lb_reference_mid := dbl_of_int reference\<rparr>"

lemma book_with_simps [simp]:
  "book_best_bid (book_with x y z) = dbl_of_int x" "book_best_ask (book_with x y z) = dbl_of_int y"
  "lb_reference_mid (book_with x y z) = dbl_of_int z" "lb_has_reference (book_with x y z)"
  by (simp_all add: book_with_def book_best_bid_def book_best_ask_def on_quote_def init_book_def MAX_LEVELS_def book_quote_def)


end
