(* ===== verification/C_Text.thy ===== *)
theory C_Text
  imports Doubles
begin

text \<open>
  Numbers as text: what the program uses of the C library to read numbers (\<open>strtol\<close>, \<open>atoi\<close>) and to
  write them (the conversions of \<open>fprintf\<close> and of \<open>operator<<\<close> that its reports use). A \<open>long\<close> has 64
  bits. The lemmas give the length and the character set of the output, and that reading a number
  that was written returns it.
\<close>

section \<open>Reading\<close>

text \<open>\<open>strtol\<close> in base ten on a 64-bit \<open>long\<close>: white space, sign, digits, clamped; zero without digits.\<close>

definition is_space :: "char \<Rightarrow> bool" where
  "is_space c = (c \<in> set [CHR '' '', CHR 0x09, CHR 0x0A, CHR 0x0B, CHR 0x0C, CHR 0x0D])"

definition digit_value :: "char \<Rightarrow> int option" where
  "digit_value c =
     (let k = of_char c :: int in if 48 \<le> k \<and> k \<le> 57 then Some (k - 48) else None)"

fun read_digits :: "int \<Rightarrow> string \<Rightarrow> int" where
  "read_digits n [] = n"
| "read_digits n (c # cs) =
     (case digit_value c of None \<Rightarrow> n | Some d \<Rightarrow> read_digits (10 * n + d) cs)"

definition clamp_long :: "int \<Rightarrow> int" where
  "clamp_long n = max (- (2 ^ 63)) (min (2 ^ 63 - 1) n)"

definition strtol :: "string \<Rightarrow> int" where
  "strtol s =
     (let s1 = dropWhile is_space s;
          n = (case s1 of
                 [] \<Rightarrow> 0
               | c # cs \<Rightarrow> if c = CHR ''-'' then - read_digits 0 cs
                          else if c = CHR ''+'' then read_digits 0 cs else read_digits 0 s1)
      in clamp_long n)"

text \<open>
  The rest of what \<open>strtol\<close> reports: where the number ended, as the characters from there on (the whole
  string when there was no digit), and whether the value was out of range, which sets \<open>errno\<close>.
\<close>

definition is_digit :: "char \<Rightarrow> bool" where
  "is_digit c = (digit_value c \<noteq> None)"

definition strip_sign :: "string \<Rightarrow> string" where
  "strip_sign s =
     (case s of [] \<Rightarrow> [] | c # cs \<Rightarrow> if c = CHR ''-'' \<or> c = CHR ''+'' then cs else s)"

definition strtol_end :: "string \<Rightarrow> string" where
  "strtol_end s =
     (let digits = strip_sign (dropWhile is_space s)
      in if digits \<noteq> [] \<and> is_digit (hd digits) then dropWhile is_digit digits else s)"

definition strtol_erange :: "string \<Rightarrow> bool" where
  "strtol_erange s =
     (let s1 = dropWhile is_space s; m = read_digits 0 (strip_sign s1);
          n = (if s1 \<noteq> [] \<and> hd s1 = CHR ''-'' then - m else m)
      in clamp_long n \<noteq> n)"

text \<open>The \<open>atoi\<close> of the GNU library, which truncates the result of \<open>strtol\<close> to an \<open>int\<close>.\<close>

definition atoi :: "string \<Rightarrow> i32" where
  "atoi s = of_int (strtol s)"

section \<open>Writing\<close>

definition digit_char :: "nat \<Rightarrow> char" where
  "digit_char d = char_of (48 + d)"

fun dec_nat :: "nat \<Rightarrow> string" where
  "dec_nat n = (if n < 10 then [digit_char n] else dec_nat (n div 10) @ [digit_char (n mod 10)])"

declare dec_nat.simps [simp del]

definition dec_int :: "int \<Rightarrow> string" where
  "dec_int n = (if n < 0 then CHR ''-'' # dec_nat (nat (- n)) else dec_nat (nat n))"

text \<open>A field of a minimal width: \<open>%8s\<close> and \<open>%8llu\<close>, \<open>%-28s\<close>, \<open>%04d\<close> (of a number that is not negative).\<close>

definition pad_left :: "nat \<Rightarrow> string \<Rightarrow> string" where
  "pad_left w s = replicate (w - length s) (CHR '' '') @ s"

definition pad_right :: "nat \<Rightarrow> string \<Rightarrow> string" where
  "pad_right w s = s @ replicate (w - length s) (CHR '' '')"

definition zero_pad :: "nat \<Rightarrow> string \<Rightarrow> string" where
  "zero_pad w s = replicate (w - length s) (CHR ''0'') @ s"

text \<open>
  \<open>%.kf\<close>: the exact value of the double rounded to \<open>k\<close> decimals, to even in a tie. The sign of a NaN is
  not part of the model of doubles; it is written without one.
\<close>

definition fixed_digits :: "nat \<Rightarrow> rat \<Rightarrow> string" where
  "fixed_digits k x =
     (let m = nat (round_half_even (x * 10 ^ k))
      in dec_nat (m div 10 ^ k) @
         (if k = 0 then [] else CHR ''.'' # zero_pad k (dec_nat (m mod 10 ^ k))))"

fun fmt_fixed :: "nat \<Rightarrow> double \<Rightarrow> string" where
  "fmt_fixed k (Fin s x) = (if s then ''-'' else []) @ fixed_digits k x"
| "fmt_fixed k (Inf s) = (if s then ''-inf'' else ''inf'')"
| "fmt_fixed k NaN = ''nan''"

definition newline :: string where
  "newline = [CHR 0x0A]"

section \<open>Digits\<close>

lemma of_char_digit_char: "d < 10 \<Longrightarrow> (of_char (digit_char d) :: int) = 48 + int d"
proof -
  assume "d < 10"
  then have "(of_char (char_of (48 + d) :: char) :: nat) = 48 + d" by simp
  then show ?thesis unfolding digit_char_def by (metis of_nat_of_char of_nat_add of_nat_numeral)
qed

lemma digit_value_digit_char [simp]: "d < 10 \<Longrightarrow> digit_value (digit_char d) = Some (int d)"
  by (simp add: digit_value_def of_char_digit_char)

lemma is_digit_digit_char [simp]: "d < 10 \<Longrightarrow> is_digit (digit_char d)"
  by (simp add: is_digit_def)

lemma digit_char_inj: "d < 10 \<Longrightarrow> e < 10 \<Longrightarrow> (digit_char d = digit_char e) = (d = e)"
  by (metis digit_value_digit_char option.inject of_nat_eq_iff)

lemma is_digit_cases:
  "is_digit c \<Longrightarrow> \<not> is_space c \<and> c \<noteq> CHR ''-'' \<and> c \<noteq> CHR ''+'' \<and> c \<noteq> CHR ''.''"
  by (auto simp: is_digit_def digit_value_def is_space_def Let_def)

lemma dec_nat_digits [simp]: "c \<in> set (dec_nat n) \<Longrightarrow> is_digit c"
proof (induction n rule: dec_nat.induct)
  case (1 n)
  then show ?case by (subst (asm) (2) dec_nat.simps) (auto split: if_splits)
qed

lemma dec_nat_nonempty [simp]: "dec_nat n \<noteq> []"
  by (subst dec_nat.simps) simp

lemma read_digits_append:
  "\<forall>c \<in> set xs. is_digit c \<Longrightarrow> read_digits n (xs @ ys) = read_digits (read_digits n xs) ys"
  by (induction xs arbitrary: n) (auto simp: is_digit_def split: option.splits)

lemma read_dec_nat [simp]: "read_digits 0 (dec_nat n) = int n"
proof (induction n rule: dec_nat.induct)
  case (1 n)
  show ?case
  proof (cases "n < 10")
    case False
    then have "read_digits 0 (dec_nat n) = 10 * int (n div 10) + int (n mod 10)"
      using 1 by (subst dec_nat.simps) (simp add: read_digits_append)
    then show ?thesis by (simp only: of_nat_div of_nat_mod) simp
  qed (subst dec_nat.simps, simp)
qed

lemma dec_nat_inj [simp]: "(dec_nat m = dec_nat n) = (m = n)"
  by (metis read_dec_nat of_nat_eq_iff)

lemma length_dec_nat: "n < 10 ^ k \<Longrightarrow> 0 < k \<Longrightarrow> length (dec_nat n) \<le> k"
proof (induction n arbitrary: k rule: dec_nat.induct)
  case (1 n)
  show ?case
  proof (cases "n < 10")
    case False
    with "1.prems" obtain j where k: "k = Suc j" "0 < j" by (cases k; cases "k - 1") auto
    have "n div 10 < 10 ^ j" using "1.prems"(1) k(1) by (simp add: less_mult_imp_div_less mult.commute)
    then have "length (dec_nat (n div 10)) \<le> j" using "1.IH" False k(2) by simp
    then show ?thesis using False k(1) by (subst dec_nat.simps) simp
  qed (use "1.prems" in \<open>subst dec_nat.simps, simp\<close>)
qed

section \<open>Reading what was written\<close>

lemma hd_dec_nat: "is_digit (hd (dec_nat n))"
  by (rule dec_nat_digits [of _ n]) simp

lemma dropWhile_space_dec_nat [simp]: "dropWhile is_space (dec_nat n @ xs) = dec_nat n @ xs"
  using hd_dec_nat [of n] is_digit_cases by (cases "dec_nat n") auto

lemma strtol_dec_int:
  assumes "- (2 ^ 63) \<le> n" "n < 2 ^ 63"
  shows "strtol (dec_int n) = n" "strtol_end (dec_int n) = []" "\<not> strtol_erange (dec_int n)"
proof -
  have sp: "\<not> is_space (CHR ''-'')" by (simp add: is_space_def)
  obtain c cs where d: "dec_nat (nat \<bar>n\<bar>) = c # cs" by (cases "dec_nat (nat \<bar>n\<bar>)") auto
  then have c: "is_digit c" "c \<noteq> CHR ''-''" "c \<noteq> CHR ''+''" "\<not> is_space c"
    using hd_dec_nat [of "nat \<bar>n\<bar>"] is_digit_cases by auto
  have r: "read_digits 0 (c # cs) = \<bar>n\<bar>" using read_dec_nat [of "nat \<bar>n\<bar>"] d by simp
  have ds: "dropWhile is_digit (c # cs) = []"
    using dec_nat_digits [of _ "nat \<bar>n\<bar>"] unfolding d by (simp add: dropWhile_eq_Nil_conv)
  have i: "dec_int n = (if n < 0 then CHR ''-'' # c # cs else c # cs)"
    using d by (cases "n < 0") (simp_all add: dec_int_def abs_if)
  have cl: "clamp_long n = n" using assms by (simp add: clamp_long_def)
  show "strtol (dec_int n) = n" using c r cl sp by (simp add: strtol_def i del: read_digits.simps)
  show "strtol_end (dec_int n) = []"
    using c ds sp by (simp add: strtol_end_def strip_sign_def i del: dropWhile.simps) (simp add: sp)
  show "\<not> strtol_erange (dec_int n)"
    using c r cl sp by (simp add: strtol_erange_def strip_sign_def i del: read_digits.simps)
qed

lemma atoi_dec_int: "- (2 ^ 31) \<le> n \<Longrightarrow> n < 2 ^ 31 \<Longrightarrow> sint (atoi (dec_int n)) = n"
  by (simp add: atoi_def strtol_dec_int int_word_sint)

end
