(* ===== verification/Tick_Ring.thy ===== *)
theory Tick_Ring
  imports C_Text
begin

text \<open>
  The ring of order time stamps and the command line, \<open>include/nts/pipeline_utils.h\<close> and
  \<open>src/pipeline_utils.cpp\<close>.
\<close>

section \<open>Order tick ring\<close>

record tick_entry =
  te_id :: u64
  te_ticks :: u64
  te_occupied :: bool

record tick_ring =
  rg_entries :: "u64 \<Rightarrow> tick_entry"
  rg_collisions :: u64

definition RING_CAPACITY :: u64 where
  "RING_CAPACITY = 8192"

definition init_ring :: tick_ring where
  "init_ring = \<lparr>rg_entries = (\<lambda>_. \<lparr>te_id = 0, te_ticks = 0, te_occupied = False\<rparr>), rg_collisions = 0\<rparr>"

definition ring_index :: "u64 \<Rightarrow> u64" where
  "ring_index oid = oid AND (RING_CAPACITY - 1)"

definition ring_set :: "u64 \<Rightarrow> u64 \<Rightarrow> tick_ring \<Rightarrow> tick_ring" where
  "ring_set oid ticks r =
     (let e = rg_entries r (ring_index oid);
          r1 = (if te_occupied e \<and> te_id e \<noteq> oid then r\<lparr>rg_collisions := rg_collisions r + 1\<rparr> else r)
      in r1\<lparr>rg_entries := (rg_entries r1)(ring_index oid := \<lparr>te_id = oid, te_ticks = ticks, te_occupied = True\<rparr>)\<rparr>)"

definition ring_get :: "u64 \<Rightarrow> tick_ring \<Rightarrow> u64 option" where
  "ring_get oid r =
     (let e = rg_entries r (ring_index oid)
      in if \<not> te_occupied e \<or> te_id e \<noteq> oid then None else Some (te_ticks e))"

definition ring_erase :: "u64 \<Rightarrow> tick_ring \<Rightarrow> tick_ring" where
  "ring_erase oid r =
     (let e = rg_entries r (ring_index oid)
      in if te_occupied e \<and> te_id e = oid
         then r\<lparr>rg_entries := (rg_entries r)(ring_index oid := e\<lparr>te_occupied := False\<rparr>)\<rparr> else r)"

section \<open>Command line\<close>

record args =
  ar_md_port :: u16
  ar_md_group :: string
  ar_ref_port :: u16
  ar_ref_group :: string
  ar_duration_sec :: i32
  ar_exchange_host :: string
  ar_order_port :: u16
  ar_save_report :: bool

definition default_args :: args where
  "default_args =
     \<lparr>ar_md_port = 12345, ar_md_group = ''239.1.1.1'', ar_ref_port = 12347, ar_ref_group = ''239.1.1.2'',
      ar_duration_sec = 10, ar_exchange_host = ''127.0.0.1'', ar_order_port = 12346, ar_save_report = False\<rparr>"

fun parse_loop :: "string list \<Rightarrow> args \<Rightarrow> args" where
  "parse_loop [] a = a"
| "parse_loop [x] a = (if x = ''--save-report'' then a\<lparr>ar_save_report := True\<rparr> else a)"
| "parse_loop (x # y # zs) a =
     (if x = ''--exchange-host'' then parse_loop zs (a\<lparr>ar_exchange_host := y\<rparr>)
      else if x = ''--order-port'' then parse_loop zs (a\<lparr>ar_order_port := of_int (strtol y)\<rparr>)
      else if x = ''--port'' \<or> x = ''--md-port'' then parse_loop zs (a\<lparr>ar_md_port := of_int (strtol y)\<rparr>)
      else if x = ''--md-group'' then parse_loop zs (a\<lparr>ar_md_group := y\<rparr>)
      else if x = ''--ref-port'' then parse_loop zs (a\<lparr>ar_ref_port := of_int (strtol y)\<rparr>)
      else if x = ''--ref-group'' then parse_loop zs (a\<lparr>ar_ref_group := y\<rparr>)
      else if x = ''--duration'' then parse_loop zs (a\<lparr>ar_duration_sec := of_int (strtol y)\<rparr>)
      else if x = ''--save-report'' then parse_loop (y # zs) (a\<lparr>ar_save_report := True\<rparr>)
      else parse_loop (y # zs) a)"

definition parse_args :: "string list \<Rightarrow> args" where
  "parse_args argv = parse_loop (drop 1 argv) default_args"

section \<open>Result directories\<close>

text \<open>The directory of a Linux build, and the paths \<open>mkdirs\<close> creates, in order.\<close>

definition live_results_dir :: string where
  "live_results_dir = ''results/live/linux''"

fun mkdirs_loop :: "string \<Rightarrow> string \<Rightarrow> string list" where
  "mkdirs_loop partial [] = []"
| "mkdirs_loop partial (c # cs) =
     (let p = partial @ [c] in (if c = CHR ''/'' then [p] else []) @ mkdirs_loop p cs)"

definition mkdirs :: "string \<Rightarrow> string list" where
  "mkdirs path = mkdirs_loop [] path @ [path]"

section \<open>The ring is a map on a window of identifiers\<close>

datatype tick_op = SetTicks u64 u64 | EraseTicks u64

primrec ring_op :: "tick_op \<Rightarrow> tick_ring \<Rightarrow> tick_ring" where
  "ring_op (SetTicks i t) r = ring_set i t r"
| "ring_op (EraseTicks i) r = ring_erase i r"

primrec map_op :: "tick_op \<Rightarrow> (u64 \<rightharpoonup> u64) \<Rightarrow> (u64 \<rightharpoonup> u64)" where
  "map_op (SetTicks i t) m = m(i \<mapsto> t)"
| "map_op (EraseTicks i) m = m(i := None)"

primrec op_id :: "tick_op \<Rightarrow> u64" where
  "op_id (SetTicks i t) = i"
| "op_id (EraseTicks i) = i"

definition no_clash :: "u64 set \<Rightarrow> bool" where
  "no_clash I = inj_on ring_index I"

definition ring_shows :: "u64 set \<Rightarrow> tick_ring \<Rightarrow> (u64 \<rightharpoonup> u64) \<Rightarrow> bool" where
  "ring_shows I r m =
     ((\<forall>i \<in> I. ring_get i r = m i) \<and> rg_collisions r = 0 \<and>
      (\<forall>p. te_occupied (rg_entries r p) \<longrightarrow> te_id (rg_entries r p) \<in> I \<and> p = ring_index (te_id (rg_entries r p))))"

lemma ring_op_shows:
  assumes "no_clash I" "op_id x \<in> I" "ring_shows I r m"
  shows "ring_shows I (ring_op x r) (map_op x m)"
proof -
  have inj: "ring_index i = ring_index j \<longleftrightarrow> i = j" if "i \<in> I" "j \<in> I" for i j
    using assms(1) that by (auto simp: no_clash_def dest: inj_onD)
  show ?thesis
  proof (cases x)
    case (SetTicks i t)
    let ?e = "rg_entries r (ring_index i)"
    have i: "i \<in> I" using assms(2) SetTicks by simp
    then have "\<not> (te_occupied ?e \<and> te_id ?e \<noteq> i)" using assms(3) inj by (auto simp: ring_shows_def)
    then have r': "ring_set i t r = r\<lparr>rg_entries := (rg_entries r)(ring_index i := \<lparr>te_id = i, te_ticks = t, te_occupied = True\<rparr>)\<rparr>"
      by (auto simp: ring_set_def Let_def)
    show ?thesis using assms(3) i inj by (auto simp: r' SetTicks ring_shows_def ring_get_def Let_def)
  next
    case (EraseTicks i)
    then have "i \<in> I" using assms(2) by simp
    with EraseTicks assms(3) inj show ?thesis
      by (auto simp: ring_shows_def ring_get_def ring_erase_def Let_def split: if_splits)
  qed
qed

lemma fold_ring_shows:
  assumes "no_clash I" "op_id ` set xs \<subseteq> I" "ring_shows I r m"
  shows "ring_shows I (fold ring_op xs r) (fold map_op xs m)"
  using assms(2,3)
proof (induction xs arbitrary: r m)
  case (Cons x xs)
  then show ?case using ring_op_shows [OF assms(1), of x r m] by simp
qed simp

lemma ring_index_mod: "unat (ring_index i) = unat i mod 8192"
proof -
  have "ring_index i = take_bit 13 i"
    by (simp add: ring_index_def RING_CAPACITY_def take_bit_eq_mask mask_eq_exp_minus_1)
  then show ?thesis by (simp add: unsigned_take_bit_eq) (simp add: take_bit_eq_mod)
qed

lemma window_no_clash: "no_clash {i. a \<le> unat i \<and> unat i < a + 8192}"
  unfolding no_clash_def
proof (rule inj_onI)
  fix i j :: u64
  assume ij: "i \<in> {i. a \<le> unat i \<and> unat i < a + 8192}" "j \<in> {i. a \<le> unat i \<and> unat i < a + 8192}"
    "ring_index i = ring_index j"
  then have "unat i mod 8192 = unat j mod 8192" using ring_index_mod by metis
  then have "8192 dvd unat i - unat j" "8192 dvd unat j - unat i"
    by (metis mod_eq_dvd_iff_nat nat_le_linear diff_is_0_eq dvd_0_right)+
  with ij have "unat i = unat j" by (auto dest!: dvd_imp_le)
  then show "i = j" by (simp add: word_unat_eq_iff)
qed

text \<open>
  C28. The tick ring is a map. As long as the order identifiers in use lie in a window of 8192
  consecutive values, which is what the sequential identifiers of the order management system give,
  looking an identifier up returns exactly the ticks last set for it and not erased since, whatever
  was set and erased for the others, and no collision is counted.
\<close>

theorem tick_ring_is_map:
  assumes "\<forall>x \<in> set xs. a \<le> unat (op_id x) \<and> unat (op_id x) < a + 8192"
    "a \<le> unat i" "unat i < a + 8192"
  shows "ring_get i (fold ring_op xs init_ring) = fold map_op xs Map.empty i \<and>
         rg_collisions (fold ring_op xs init_ring) = 0"
proof -
  let ?I = "{i. a \<le> unat i \<and> unat i < a + 8192}"
  have "ring_shows ?I init_ring Map.empty" by (simp add: ring_shows_def init_ring_def ring_get_def)
  then have "ring_shows ?I (fold ring_op xs init_ring) (fold map_op xs Map.empty)"
    using assms(1) by (intro fold_ring_shows [OF window_no_clash]) auto
  with assms(2,3) show ?thesis by (simp add: ring_shows_def)
qed

theorem tick_ring_is_map_witness:
  "ring_get 8191 (fold ring_op [SetTicks 8191 5, SetTicks 8192 6, EraseTicks 8192] init_ring) = Some 5"
  using tick_ring_is_map [of "[SetTicks 8191 5, SetTicks 8192 6, EraseTicks 8192]" 8000 8191] by simp

end
