(* ===== verification/Pipeline.thy ===== *)
theory Pipeline
  imports Gateway_Properties L1_Book Tracer Tick_Ring
begin

text \<open>
  The trading loop, \<open>src/main.cpp\<close>: market data to book to strategy to order, execution reports back
  to the order management system, and the time stamps of both.

  The two builds of the tracer (\<open>HopTracer\<close> and \<open>NoopTracer\<close>, chosen by \<open>NTS_ENABLE_TRACING\<close>) are two
  values of a record of operations, and the loop is written once over that record, as the source is.
  The tracer state is threaded beside the trading state. Readings of the clock and results of system
  calls are arguments; \<open>None\<close> is a script of results that ends too early, a conversion that does not
  fit, or an access outside an array. The profile
  scope of \<open>NTS_ENABLE_PMU_PROFILE\<close>, off by default, is added in \<open>Profiled_Loop\<close>; what \<open>main\<close> and the end of
  \<open>run_pipeline\<close> do is in \<open>Reports\<close>.
\<close>

section \<open>Tracer builds\<close>

record 'tr tracer_api =
  ta_start :: "'tr \<Rightarrow> 'tr"
  ta_record :: "hop \<Rightarrow> u64 \<Rightarrow> 'tr \<Rightarrow> 'tr"
  ta_order_ack :: "u64 \<Rightarrow> u64 \<Rightarrow> u64 \<Rightarrow> 'tr \<Rightarrow> 'tr"
  ta_ack_fill :: "u64 \<Rightarrow> u64 \<Rightarrow> u64 \<Rightarrow> 'tr \<Rightarrow> 'tr"
  ta_end :: "'tr \<Rightarrow> 'tr"
  ta_discard :: "'tr \<Rightarrow> 'tr"

definition hop_api :: "hop_tracer tracer_api" where
  "hop_api =
     \<lparr>ta_start = start_trace, ta_record = record_hop, ta_order_ack = record_order_ack,
      ta_ack_fill = record_ack_fill, ta_end = end_trace, ta_discard = discard_trace\<rparr>"

definition noop_api :: "unit tracer_api" where
  "noop_api =
     \<lparr>ta_start = (\<lambda>t. t), ta_record = (\<lambda>h c t. t), ta_order_ack = (\<lambda>a b c t. t),
      ta_ack_fill = (\<lambda>a b c t. t), ta_end = (\<lambda>t. t), ta_discard = (\<lambda>t. t)\<rparr>"

section \<open>State\<close>

record pipeline =
  pp_ref_md :: md_receiver
  pp_target_md :: md_receiver
  pp_book :: l1_book
  pp_oms :: oms
  pp_gateway :: gateway
  pp_latest_source_exchange_tick :: u64
  pp_latest_md_receive_ticks :: u64
  pp_order_sent_ticks :: tick_ring
  pp_ack_received_ticks :: tick_ring

definition init_pipeline :: "md_receiver \<Rightarrow> md_receiver \<Rightarrow> gateway \<Rightarrow> pipeline" where
  "init_pipeline ref_md target_md gw =
     \<lparr>pp_ref_md = ref_md, pp_target_md = target_md, pp_book = init_book, pp_oms = init_oms,
      pp_gateway = gw, pp_latest_source_exchange_tick = 0, pp_latest_md_receive_ticks = 0,
      pp_order_sent_ticks = init_ring, pp_ack_received_ticks = init_ring\<rparr>"

section \<open>Market data to order\<close>

definition EXIT_HALF_SPREAD :: double where
  "EXIT_HALF_SPREAD = Fin False 1"

definition build_exit_order :: "l1_book \<Rightarrow> i32 \<Rightarrow> (side \<times> double \<times> u32) option" where
  "build_exit_order b position =
     (if position = 0 \<or> \<not> lb_has_reference b then None
      else
        let reference = lb_reference_mid b
        in if sint position > 0
           then (if fge (book_best_bid b) (fsub reference EXIT_HALF_SPREAD)
                 then Some (Sell, book_best_bid b, position) else None)
           else (if fle (book_best_ask b) (fadd reference EXIT_HALF_SPREAD)
                 then Some (Buy, book_best_ask b, - position) else None))"

record signal_clock =
  sc_book_updated :: u64
  sc_strategy_done :: u64
  sc_sent :: u64
  sc_order_sent :: u64

definition take_reference :: "bool \<Rightarrow> md_msg \<Rightarrow> u64 \<Rightarrow> pipeline \<Rightarrow> bool \<times> pipeline" where
  "take_reference got msg receive_ticks p =
     (if got \<and> mh_type (msg_header msg) = MdReferenceType
      then (True, p\<lparr>pp_latest_source_exchange_tick := mh_exchange_tick (msg_header msg),
                  pp_latest_md_receive_ticks := receive_ticks,
                  pp_book := on_reference (msg_reference msg) (pp_book p)\<rparr>)
      else (False, p))"

definition take_quote :: "bool \<Rightarrow> md_msg \<Rightarrow> u64 \<Rightarrow> pipeline \<Rightarrow> bool \<times> pipeline" where
  "take_quote got msg receive_ticks p =
     (if got \<and> mh_type (msg_header msg) = MdQuoteType
      then (True, p\<lparr>pp_latest_source_exchange_tick := mh_exchange_tick (msg_header msg),
                  pp_latest_md_receive_ticks := receive_ticks,
                  pp_book := on_quote (msg_quote msg) (pp_book p)\<rparr>)
      else (False, p))"

text \<open>The order the loop decides on: an exit, else an entry on a signal.\<close>

definition decide :: "strategy_params \<Rightarrow> bool \<Rightarrow> l1_book \<Rightarrow> oms \<Rightarrow> (side \<times> double \<times> u32) option" where
  "decide sp fresh b st =
     (let position = m_position st;
          has_pending_order = m_pending_new st > 0;
          exit = (if has_pending_order then None else build_exit_order b position);
          sig = (if position = 0 \<and> exit = None \<and> \<not> has_pending_order \<and> fresh
                 then on_book_update sp b position else NoSignal)
      in case exit of
           Some x \<Rightarrow> Some x
         | None \<Rightarrow>
             (case sig of
                NoSignal \<Rightarrow> None
              | BuySignal \<Rightarrow> Some (Buy, book_best_ask b, sp_order_size sp)
              | SellSignal \<Rightarrow> Some (Sell, book_best_bid b, sp_order_size sp)))"

definition reaction_ns :: "double \<Rightarrow> u64 \<Rightarrow> u64 \<Rightarrow> u64 option" where
  "reaction_ns v latest sent =
     (if latest \<noteq> 0 \<and> sent \<ge> latest then ticks_to_ns v (sent - latest) else Some 0)"

definition send_order ::
  "'tr tracer_api \<Rightarrow> double \<Rightarrow> signal_clock \<Rightarrow> send_result list \<Rightarrow> (side \<times> double \<times> u32) option \<Rightarrow>
   pipeline \<times> 'tr \<Rightarrow> ((pipeline \<times> 'tr) \<times> u8 list \<times> send_result list) option"
where
  "send_order api v ck rs request pt =
     (case (request, pt) of
        (None, (p, tr)) \<Rightarrow> Some ((p, tr), [], rs)
      | (Some (s, price, qty), (p, tr)) \<Rightarrow>
          (case send_new s price qty IOC (pp_oms p) of
             (None, st) \<Rightarrow> Some ((p\<lparr>pp_oms := st\<rparr>, tr), [], rs)
           | (Some slot, st) \<Rightarrow>
               (case reaction_ns v (pp_latest_md_receive_ticks p) (sc_sent ck) of
                  None \<Rightarrow> None
                | Some ns \<Rightarrow>
                    let ord = (m_orders st slot)\<lparr>oo_source_exchange_tick := pp_latest_source_exchange_tick p,
                                oo_client_reaction_ns := ns\<rparr>;
                        p1 = p\<lparr>pp_oms := set_order slot ord st,
                               pp_order_sent_ticks := ring_set (oo_id ord) (sc_sent ck) (pp_order_sent_ticks p)\<rparr>;
                        tr1 = ta_record api OrderSent (sc_order_sent ck) tr
                    in (case submit_order ord rs (pp_gateway p1) of
                          None \<Rightarrow> None
                        | Some (sent, gw, rs') \<Rightarrow> Some ((p1\<lparr>pp_gateway := gw\<rparr>, tr1), sent, rs')))))"

definition process_market_signal_and_order ::
  "'tr tracer_api \<Rightarrow> double \<Rightarrow> strategy_params \<Rightarrow> signal_clock \<Rightarrow> bool \<Rightarrow> md_msg \<Rightarrow> u64 \<Rightarrow> bool \<Rightarrow> md_msg \<Rightarrow> u64 \<Rightarrow>
   send_result list \<Rightarrow> pipeline \<times> 'tr \<Rightarrow> ((pipeline \<times> 'tr) \<times> u8 list \<times> send_result list) option"
where
  "process_market_signal_and_order api v sp ck got_ref ref_msg ref_ticks got_target target_msg target_ticks rs pt =
     (let (p, tr) = pt;
          (reference_updated, p1) = take_reference got_ref ref_msg ref_ticks p;
          (last_md_was_quote, p2) = take_quote got_target target_msg target_ticks p1;
          tr1 = ta_record api BookUpdated (sc_book_updated ck) tr;
          p3 = p2\<lparr>pp_oms := set_reference_price (mid_price (pp_book p2)) (pp_oms p2)\<rparr>;
          request = decide sp (reference_updated \<or> last_md_was_quote) (pp_book p3) (pp_oms p3);
          tr2 = ta_record api StrategyDone (sc_strategy_done ck) tr1
      in send_order api v ck rs request (p3, tr2))"

section \<open>Execution reports\<close>

record exec_clock =
  ec_received :: u64
  ec_processed :: u64

definition process_execution ::
  "'tr tracer_api \<Rightarrow> exec_clock \<Rightarrow> execution_report \<Rightarrow> pipeline \<times> 'tr \<Rightarrow> (pipeline \<times> 'tr) option"
where
  "process_execution api ck exec pt =
     (let (p, tr) = pt;
          sent_ticks = ring_get (xr_order_id exec) (pp_order_sent_ticks p);
          ack_ticks = ring_get (xr_order_id exec) (pp_ack_received_ticks p)
      in case on_execution exec (pp_oms p) of
           None \<Rightarrow> None
         | Some st \<Rightarrow>
             let p1 = p\<lparr>pp_oms := st\<rparr>;
                 done = (let (p2, tr2) =
                           (case ack_ticks of
                              None \<Rightarrow> (p1, tr)
                            | Some a \<Rightarrow>
                                (p1\<lparr>pp_ack_received_ticks := ring_erase (xr_order_id exec) (pp_ack_received_ticks p1)\<rparr>,
                                 ta_ack_fill api a (ec_received ck) (ec_processed ck) tr))
                         in (p2\<lparr>pp_order_sent_ticks := ring_erase (xr_order_id exec) (pp_order_sent_ticks p2)\<rparr>, tr2))
             in Some (case xr_exec_type exec of
                        NewAck \<Rightarrow>
                          (case sent_ticks of
                             None \<Rightarrow> (p1, tr)
                           | Some s \<Rightarrow>
                               (p1\<lparr>pp_order_sent_ticks := ring_erase (xr_order_id exec) (pp_order_sent_ticks p1),
                                  pp_ack_received_ticks :=
                                    ring_set (xr_order_id exec) (ec_received ck) (pp_ack_received_ticks p1)\<rparr>,
                                ta_order_ack api s (ec_received ck) (ec_processed ck) tr))
                      | Fill \<Rightarrow> done | PartialFill \<Rightarrow> done | Reject \<Rightarrow> done | CancelAck \<Rightarrow> done
                      | CancelReject \<Rightarrow> done
                      | OtherExec _ \<Rightarrow> (p1, tr)))"

lemma process_execution_gateway:
  "process_execution api ck exec (p, tr) = Some (p', tr') \<Longrightarrow> pp_gateway p' = pp_gateway p"
  by (auto simp: process_execution_def Let_def split: option.splits exec_type.splits prod.splits)

text \<open>A poll that returns a report takes forty bytes off the stream, so the loop over reports ends.\<close>

lemma poll_execution_consumes:
  assumes "poll_execution rs g = Some (Some x, g', rs')"
  shows "length (gw_buf g') + length (recv_bytes rs') < length (gw_buf g) + length (recv_bytes rs)"
proof -
  from assms obtain ok buf where loop: "recv_loop rs (gw_buf g) = Some (ok, buf, rs')"
    and g': "g' = g\<lparr>gw_buf := drop 40 buf\<rparr>" "40 \<le> length buf"
    by (auto simp: poll_execution_def split: option.splits if_splits)
  have "length (gw_buf g @ recv_bytes rs) = length (buf @ recv_bytes rs')"
    using recv_loop_stream [OF loop] by simp
  with g' show ?thesis by simp
qed

function drain_executions ::
  "'tr tracer_api \<Rightarrow> (nat \<Rightarrow> exec_clock) \<Rightarrow> nat \<Rightarrow> recv_result list \<Rightarrow> pipeline \<times> 'tr \<Rightarrow>
   ((pipeline \<times> 'tr) \<times> recv_result list) option"
where
  "drain_executions api cks i rs (p, tr) =
     (case poll_execution rs (pp_gateway p) of
        None \<Rightarrow> None
      | Some (None, g, rs') \<Rightarrow> Some ((p\<lparr>pp_gateway := g\<rparr>, tr), rs')
      | Some (Some exec, g, rs') \<Rightarrow>
          (case process_execution api (cks i) exec (p\<lparr>pp_gateway := g\<rparr>, tr) of
             None \<Rightarrow> None
           | Some (p', tr') \<Rightarrow> drain_executions api cks (Suc i) rs' (p', tr')))"
  by pat_completeness auto

termination
  by (relation "measure (\<lambda>(api, cks, i, rs, p, tr). length (gw_buf (pp_gateway p)) + length (recv_bytes rs))")
    (auto dest!: poll_execution_consumes process_execution_gateway)

section \<open>The loop\<close>

text \<open>
  What one iteration reads: the clock, the results of the system calls, and the contents of the two
  message variables, which the source does not initialise.
\<close>

record iteration =
  it_now_ns :: u64
  it_recv_start :: u64
  it_recv_done :: u64
  it_ref_garbage :: md_msg
  it_target_garbage :: md_msg
  it_ref_recv :: "md_recv list"
  it_target_recv :: "md_recv list"
  it_ref_ticks :: u64
  it_target_ticks :: u64
  it_signal_clock :: signal_clock
  it_send :: "send_result list"
  it_exec_clock :: "nat \<Rightarrow> exec_clock"
  it_recv :: "recv_result list"

definition pipeline_iteration ::
  "'tr tracer_api \<Rightarrow> double \<Rightarrow> strategy_params \<Rightarrow> iteration \<Rightarrow> pipeline \<times> 'tr \<Rightarrow> ((pipeline \<times> 'tr) \<times> u8 list) option"
where
  "pipeline_iteration api v sp it pt =
     (let (p, tr) = pt; tr1 = ta_record api RecvStart (it_recv_start it) (ta_start api tr)
      in case md_poll (it_ref_recv it) (it_ref_garbage it) (pp_ref_md p) of
           None \<Rightarrow> None
         | Some (got_ref, ref_msg, ref_md, _) \<Rightarrow>
             (case md_poll (it_target_recv it) (it_target_garbage it) (pp_target_md p) of
                None \<Rightarrow> None
              | Some (got_target, target_msg, target_md, _) \<Rightarrow>
                  let p1 = p\<lparr>pp_ref_md := ref_md, pp_target_md := target_md\<rparr>;
                      ref_ticks = (if got_ref then it_ref_ticks it else 0);
                      target_ticks = (if got_target then it_target_ticks it else 0)
                  in if got_ref \<or> got_target
                     then
                       (case process_market_signal_and_order api v sp (it_signal_clock it) got_ref ref_msg ref_ticks
                               got_target target_msg target_ticks (it_send it)
                               (p1, ta_record api RecvDone (it_recv_done it) tr1) of
                          None \<Rightarrow> None
                        | Some (pt2, sent, _) \<Rightarrow>
                            (case drain_executions api (it_exec_clock it) 0 (it_recv it) pt2 of
                               None \<Rightarrow> None
                             | Some ((p3, tr3), _) \<Rightarrow> Some ((p3, ta_end api tr3), sent)))
                     else
                       (case drain_executions api (it_exec_clock it) 0 (it_recv it) (p1, ta_discard api tr1) of
                          None \<Rightarrow> None
                        | Some (pt3, _) \<Rightarrow> Some (pt3, []))))"

text \<open>
  The loop over the iterations given, counting them, and collecting the bytes sent. It stops at the
  deadline, or where the list ends, which is where a signal clears \<open>running\<close>.
\<close>

fun pipeline_loop ::
  "'tr tracer_api \<Rightarrow> double \<Rightarrow> strategy_params \<Rightarrow> i32 \<Rightarrow> u64 \<Rightarrow> iteration list \<Rightarrow> u64 \<Rightarrow> pipeline \<times> 'tr \<Rightarrow>
   ((pipeline \<times> 'tr) \<times> u64 \<times> u8 list) option"
where
  "pipeline_loop api v sp duration deadline [] n pt = Some (pt, n, [])"
| "pipeline_loop api v sp duration deadline (it # its) n pt =
     (if sint duration > 0 \<and> it_now_ns it \<ge> deadline then Some (pt, n, [])
      else
        (case pipeline_iteration api v sp it pt of
           None \<Rightarrow> None
         | Some (pt', sent) \<Rightarrow>
             (case pipeline_loop api v sp duration deadline its (n + 1) pt' of
                None \<Rightarrow> None
              | Some (pt'', n', sent') \<Rightarrow> Some (pt'', n', sent @ sent'))))"

definition run_pipeline ::
  "'tr tracer_api \<Rightarrow> double \<Rightarrow> strategy_params \<Rightarrow> u64 \<Rightarrow> i32 \<Rightarrow> iteration list \<Rightarrow> md_receiver \<Rightarrow> md_receiver \<Rightarrow>
   gateway \<Rightarrow> 'tr \<Rightarrow> ((pipeline \<times> 'tr) \<times> u64 \<times> u8 list) option"
where
  "run_pipeline api v sp start_ns duration its ref_md target_md gw tr =
     pipeline_loop api v sp duration (start_ns + scast duration * 1000000000) its 0
       (init_pipeline ref_md target_md gw, tr)"

section \<open>Waiting\<close>

text \<open>
  \<open>spin_for_ns\<close> reads the clock until the delay is over; the argument is what the successive readings
  give, the result the readings left, \<open>None\<close> when they end while it still waits.
\<close>

fun spin_loop :: "u64 \<Rightarrow> u64 \<Rightarrow> u64 list \<Rightarrow> u64 list option" where
  "spin_loop start delay_ns [] = None"
| "spin_loop start delay_ns (now # readings) =
     (if now - start < delay_ns then spin_loop start delay_ns readings else Some readings)"

fun spin_for_ns :: "u64 \<Rightarrow> u64 list \<Rightarrow> u64 list option" where
  "spin_for_ns delay_ns [] = None"
| "spin_for_ns delay_ns (start # readings) = spin_loop start delay_ns readings"

text \<open>It returns with the first reading that is at least the delay after the start.\<close>

lemma spin_for_ns_returns:
  "spin_for_ns delay_ns (start # readings) =
     (case dropWhile (\<lambda>now. now - start < delay_ns) readings of [] \<Rightarrow> None | _ # rest \<Rightarrow> Some rest)"
  by (simp, induction readings) auto

end
