(* ===== verification/Pipeline_Properties.thy ===== *)
theory Pipeline_Properties
  imports Pipeline OMS_Ledger
begin

text \<open>
  The components together: what an iteration of the trading loop does to the order management system
  and the wire, that the loop keeps the invariants of its components, and that tracing does not
  change trading.
\<close>

section \<open>The order of the new slot\<close>

lemma send_new_slot:
  assumes inv: "oms_inv st" and s: "send_new s price qty ty st = (Some slot, st')"
  shows "slot_map st' (m_next_id st) = Some (ucast slot) \<and> (ucast (ucast slot :: u32) :: u64) = slot \<and>
         m_next_id st' = m_next_id st + 1 \<and> check_risk s price qty st"
  using s
proof (cases rule: send_new_cases)
  case (sent st1 k ord)
  note I = slots_invD [OF oms_invD(1) [OF inv]]
  obtain ft nf where st1: "st1 = st\<lparr>m_free_top := ft, m_next_fresh_slot := nf\<rparr>"
    using alloc_slot_inv [OF oms_invD(1) [OF inv] sent(2)] sent(3) unfolding taken_def by blast
  have "m_next_id st \<notin> dom (slot_map st)" using I(8) [of "m_next_id st"] by blast
  then have fresh: "slot_map st (m_next_id st) = None" by (simp only: domIff not_not)
  from om.ins_ok [OF I(1) this room [OF oms_invD(1) [OF inv]], of "ucast k"] sent(4)
  have m: "slot_map st' (m_next_id st) = Some (ucast slot)" by (simp add: sent(6) st1)
  have "unat slot < 4096" using sent(3,4) by (simp add: MAX_ORDERS_def word_le_nat_alt)
  then have "unat (ucast slot :: u32) = unat slot" by (simp add: unsigned_ucast_eq take_bit_nat_eq_self_iff)
  then have "(ucast (ucast slot :: u32) :: u64) = slot"
    using ucast_slot [of "ucast slot"] by (metis word_unat_eq_iff)
  with m sent(1) show ?thesis by (simp add: sent(6) st1)
qed simp_all

lemma stamp_order:
  assumes inv: "oms_inv st" "m_next_id st + 1 \<noteq> 0" and s: "send_new s price qty ty st = (Some slot, st1)"
    and ord: "ord = (m_orders st1 slot)\<lparr>oo_source_exchange_tick := x, oo_client_reaction_ns := ns\<rparr>"
  shows "oms_inv (set_order slot ord st1)"
    "order_of (set_order slot ord st1) = (order_of st)(m_next_id st \<mapsto> ord)"
    "oo_status ord = Sent \<and> oo_type ord = ty \<and> oo_price ord = price \<and> oo_side ord = s \<and> oo_qty ord = qty \<and>
     oo_id ord = m_next_id st"
proof -
  note new = send_new_slot [OF inv(1) s]
  from send_new_inv [OF inv s] have inv1: "oms_inv st1" and pl: "placed s price qty ty st slot st1" by auto
  have keep: "slots_inv (set_order slot ord st1) \<and>
      order_of (set_order slot ord st1) = (order_of st1)(m_next_id st \<mapsto> ord)"
    by (rule keep_order [OF oms_invD(1) [OF inv1] new [THEN conjunct1]]) (simp_all add: set_order_def core_def new)
  from pl obtain ord0 where ord0: "m_orders st1 slot = ord0" "order_of st1 = (order_of st)(m_next_id st \<mapsto> ord0)"
    "oo_id ord0 = m_next_id st" "oo_status ord0 = Sent" "oo_side ord0 = s" "oo_qty ord0 = qty" "oo_price ord0 = price"
    "oo_type ord0 = ty" by (auto simp: placed_def)
  from keep ord0(2) show upd: "order_of (set_order slot ord st1) = (order_of st)(m_next_id st \<mapsto> ord)" by simp
  show fields: "oo_status ord = Sent \<and> oo_type ord = ty \<and> oo_price ord = price \<and> oo_side ord = s \<and> oo_qty ord = qty \<and>
     oo_id ord = m_next_id st" using ord ord0 by simp
  have "orders_inv (set_order slot ord st1)"
    using oms_invD(2) [OF inv(1)] fields unfolding orders_inv_def upd by (auto simp: active_def)
  with keep show "oms_inv (set_order slot ord st1)" by (simp add: oms_inv_def)
qed

section \<open>One order at a time\<close>

lemma wf_zero [simp]: "wf_double (Fin False 0)"
  by (simp add: max_finite_bound_pos)

lemma wf_book_init: "wf_book init_book"
  by (simp add: wf_book_def init_book_def book_best_bid_def book_best_ask_def)

lemma wf_book_reference: "wf_book b \<Longrightarrow> wf_book (on_reference (msg_reference msg) b)"
  by (auto simp: wf_book_def on_reference_def msg_reference_def book_best_bid_def book_best_ask_def split: if_splits)

lemma wf_book_quote: "wf_book b \<Longrightarrow> wf_book (on_quote (msg_quote msg) b)"
  by (simp add: wf_book_def on_quote_def msg_quote_def book_best_bid_def book_best_ask_def MAX_LEVELS_def)

lemma take_reference_keeps:
  "take_reference got msg ticks p = (b, p') \<Longrightarrow>
   pp_oms p' = pp_oms p \<and> pp_gateway p' = pp_gateway p \<and> (wf_book (pp_book p) \<longrightarrow> wf_book (pp_book p'))"
  by (auto simp: take_reference_def wf_book_reference split: if_splits)

lemma take_quote_keeps:
  "take_quote got msg ticks p = (b, p') \<Longrightarrow>
   pp_oms p' = pp_oms p \<and> pp_gateway p' = pp_gateway p \<and> (wf_book (pp_book p) \<longrightarrow> wf_book (pp_book p'))"
  by (auto simp: take_quote_def wf_book_quote split: if_splits)

text \<open>What the loop decides on: at the touch, to close the position or else to open one.\<close>

lemma decide_cases:
  assumes "decide sp fresh b st = Some (s, price, qty)"
  shows "m_pending_new st = 0" "price = (case s of Buy \<Rightarrow> book_best_ask b | Sell \<Rightarrow> book_best_bid b)"
    "if m_position st = 0 then qty = sp_order_size sp else signed_qty s qty = - m_position st"
  using assms
  by (auto simp: decide_def build_exit_order_def Let_def signed_qty_def word_gt_0
      split: if_splits option.splits signal.splits)

text \<open>
  Only \<open>pending_new_\<close> holds an exit back: once the first exit is acknowledged, and although all of the
  position is already on its way out, the loop decides on the same exit again; the exposure that the
  risk check limits is then minus the position, so within the limit.
\<close>

lemma second_exit_while_live:
  assumes "m_pending_new st = 0" "lb_has_reference b" "0 < sint (m_position st)"
    "fge (book_best_bid b) (fsub (lb_reference_mid b) EXIT_HALF_SPREAD)"
    "m_pending_position_delta st = - m_position st" "sint (m_position st) \<le> 500"
  shows "decide sp fresh b st = Some (Sell, book_best_bid b, m_position st)"
    "sint (m_position st + m_pending_position_delta st + signed_qty Sell (m_position st)) = - sint (m_position st)"
proof -
  have "m_position st \<noteq> 0" using assms(3) by auto
  then show "decide sp fresh b st = Some (Sell, book_best_bid b, m_position st)"
    using assms(1-4) by (simp add: decide_def build_exit_order_def Let_def)
  have "sint (- m_position st) = - sint (m_position st)"
    using assms(3,6) by (simp add: sint_word_ariths signed_take_bit_int_eq_self_iff)
  then show "sint (m_position st + m_pending_position_delta st + signed_qty Sell (m_position st)) = - sint (m_position st)"
    by (simp add: assms(5) signed_qty_def)
qed

definition order_sent :: "strategy_params \<Rightarrow> pipeline \<Rightarrow> pipeline \<Rightarrow> oms_order \<Rightarrow> bool" where
  "order_sent sp p p' ord =
     (order_of (pp_oms p') = (order_of (pp_oms p))(m_next_id (pp_oms p) \<mapsto> ord) \<and>
      order_of (pp_oms p) (m_next_id (pp_oms p)) = None \<and>
      oo_id ord = m_next_id (pp_oms p) \<and> oo_status ord = Sent \<and> oo_type ord = IOC \<and>
      oo_price ord = (case oo_side ord of Buy \<Rightarrow> book_best_ask (pp_book p') | Sell \<Rightarrow> book_best_bid (pp_book p')) \<and>
      (if m_position (pp_oms p) = 0 then oo_qty ord = sp_order_size sp
       else signed_qty (oo_side ord) (oo_qty ord) = - m_position (pp_oms p)))"

lemma send_order_keeps:
  assumes "send_order api v ck rs req (p, tr) = Some ((p', tr'), sent, rs')"
    "oms_inv (pp_oms p)" "m_next_id (pp_oms p) + 1 \<noteq> 0"
  shows "oms_inv (pp_oms p')" "pp_book p' = pp_book p"
    "m_next_id (pp_oms p') = m_next_id (pp_oms p) \<or> m_next_id (pp_oms p') = m_next_id (pp_oms p) + 1"
    "(sent = [] \<and> pp_oms p' = pp_oms p \<and> pp_gateway p' = pp_gateway p) \<or>
     (\<exists>s price qty ord. req = Some (s, price, qty) \<and> check_risk s price qty (pp_oms p) \<and>
        order_of (pp_oms p') = (order_of (pp_oms p))(m_next_id (pp_oms p) \<mapsto> ord) \<and>
        oo_status ord = Sent \<and> oo_type ord = IOC \<and> oo_price ord = price \<and> oo_side ord = s \<and> oo_qty ord = qty \<and>
        oo_id ord = m_next_id (pp_oms p) \<and> submit_order ord rs (pp_gateway p) = Some (sent, pp_gateway p', rs'))"
proof -
  have "oms_inv (pp_oms p') \<and> pp_book p' = pp_book p \<and>
    (m_next_id (pp_oms p') = m_next_id (pp_oms p) \<or> m_next_id (pp_oms p') = m_next_id (pp_oms p) + 1) \<and>
    ((sent = [] \<and> pp_oms p' = pp_oms p \<and> pp_gateway p' = pp_gateway p) \<or>
     (\<exists>s price qty ord. req = Some (s, price, qty) \<and> check_risk s price qty (pp_oms p) \<and>
        order_of (pp_oms p') = (order_of (pp_oms p))(m_next_id (pp_oms p) \<mapsto> ord) \<and>
        oo_status ord = Sent \<and> oo_type ord = IOC \<and> oo_price ord = price \<and> oo_side ord = s \<and> oo_qty ord = qty \<and>
        oo_id ord = m_next_id (pp_oms p) \<and> submit_order ord rs (pp_gateway p) = Some (sent, pp_gateway p', rs')))"
  proof (cases req)
    case None
    with assms show ?thesis by (auto simp: send_order_def)
  next
    case (Some r)
    obtain s price qty where r: "r = (s, price, qty)" by (cases r)
    obtain res st where sn: "send_new s price qty IOC (pp_oms p) = (res, st)" by (metis surj_pair)
    show ?thesis
    proof (cases res)
      case None
      then have "st = pp_oms p" using send_new_inv [OF assms(2,3) sn] by simp
      with assms sn None Some r show ?thesis by (auto simp: send_order_def)
    next
      case (Some slot)
      note sn' = sn [unfolded Some]
      from assms(1) sn' \<open>req = Some r\<close> r obtain ns gw where
        ns: "p' = p\<lparr>pp_oms := set_order slot ((m_orders st slot)\<lparr>oo_source_exchange_tick := pp_latest_source_exchange_tick p,
                oo_client_reaction_ns := ns\<rparr>) st,
              pp_order_sent_ticks := ring_set (oo_id (m_orders st slot)) (sc_sent ck) (pp_order_sent_ticks p), pp_gateway := gw\<rparr>"
        "submit_order ((m_orders st slot)\<lparr>oo_source_exchange_tick := pp_latest_source_exchange_tick p,
            oo_client_reaction_ns := ns\<rparr>) rs (pp_gateway p) = Some (sent, gw, rs')"
        by (auto simp: send_order_def Let_def split: option.splits)
      note st = stamp_order [OF assms(2,3) sn' refl, where x = "pp_latest_source_exchange_tick p" and ns = ns]
      show ?thesis
        using st ns r \<open>req = Some r\<close> send_new_slot [OF assms(2) sn'] by (auto simp: set_order_def)
    qed
  qed
  then show "oms_inv (pp_oms p')" "pp_book p' = pp_book p"
    "m_next_id (pp_oms p') = m_next_id (pp_oms p) \<or> m_next_id (pp_oms p') = m_next_id (pp_oms p) + 1"
    "(sent = [] \<and> pp_oms p' = pp_oms p \<and> pp_gateway p' = pp_gateway p) \<or>
     (\<exists>s price qty ord. req = Some (s, price, qty) \<and> check_risk s price qty (pp_oms p) \<and>
        order_of (pp_oms p') = (order_of (pp_oms p))(m_next_id (pp_oms p) \<mapsto> ord) \<and>
        oo_status ord = Sent \<and> oo_type ord = IOC \<and> oo_price ord = price \<and> oo_side ord = s \<and> oo_qty ord = qty \<and>
        oo_id ord = m_next_id (pp_oms p) \<and> submit_order ord rs (pp_gateway p) = Some (sent, pp_gateway p', rs'))"
    by blast+
qed

lemma next_id_fresh: "oms_inv st \<Longrightarrow> order_of st (m_next_id st) = None"
  using slots_invD(8) [OF oms_invD(1), of st "m_next_id st"]
  by (cases "slot_map st (m_next_id st)") (auto simp: order_of_def)

text \<open>The state in which the order is decided on.\<close>

lemma process_market_split:
  assumes "process_market_signal_and_order api v sp ck gr rm rt gt tm tt rs (p, tr) = Some ((p', tr'), sent, rs')"
  obtains p3 tr2 fresh where
    "send_order api v ck rs (decide sp fresh (pp_book p3) (pp_oms p3)) (p3, tr2) = Some ((p', tr'), sent, rs')"
    "pp_oms p3 = set_reference_price (mid_price (pp_book p3)) (pp_oms p)" "pp_gateway p3 = pp_gateway p"
    "wf_book (pp_book p) \<Longrightarrow> wf_book (pp_book p3)"
proof -
  obtain b1 p1 where r: "take_reference gr rm rt p = (b1, p1)" by (metis surj_pair)
  obtain b2 p2 where q: "take_quote gt tm tt p1 = (b2, p2)" by (metis surj_pair)
  from assms r q take_reference_keeps [OF r] take_quote_keeps [OF q] show ?thesis
    by (intro that [of "b1 \<or> b2" "p2\<lparr>pp_oms := set_reference_price (mid_price (pp_book p2)) (pp_oms p2)\<rparr>"
          "ta_record api StrategyDone (sc_strategy_done ck) (ta_record api BookUpdated (sc_book_updated ck) tr)"])
      (simp_all add: process_market_signal_and_order_def)
qed

lemma set_reference_fields [simp]:
  "m_next_id (set_reference_price x st) = m_next_id st" "m_position (set_reference_price x st) = m_position st"
  "m_pending_new (set_reference_price x st) = m_pending_new st"
  by (simp_all add: set_reference_price_def)

lemma process_market_keeps:
  assumes "process_market_signal_and_order api v sp ck gr rm rt gt tm tt rs (p, tr) = Some ((p', tr'), sent, rs')"
    "oms_inv (pp_oms p)" "wf_book (pp_book p)" "m_next_id (pp_oms p) + 1 \<noteq> 0"
  shows "oms_inv (pp_oms p') \<and> wf_book (pp_book p') \<and>
         (m_next_id (pp_oms p') = m_next_id (pp_oms p) \<or> m_next_id (pp_oms p') = m_next_id (pp_oms p) + 1)"
proof -
  obtain p3 tr2 fresh where
    so: "send_order api v ck rs (decide sp fresh (pp_book p3) (pp_oms p3)) (p3, tr2) = Some ((p', tr'), sent, rs')"
    and p3: "pp_oms p3 = set_reference_price (mid_price (pp_book p3)) (pp_oms p)" "wf_book (pp_book p) \<Longrightarrow> wf_book (pp_book p3)"
    by (rule process_market_split [OF assms(1)]) blast
  have "oms_inv (pp_oms p3)" "m_next_id (pp_oms p3) = m_next_id (pp_oms p)"
    using assms(2) by (simp_all add: p3(1))
  with send_order_keeps(1-3) [OF so] assms(3,4) p3(2) show ?thesis by simp
qed

text \<open>
  C29. Order discipline of the trading loop. Handling market data puts at most one order on the wire,
  and only when no order awaits acknowledgement. That order is a new entry of the order management
  system in state \<open>Sent\<close>, an IOC order at the touch of the current book, of the strategy's size when
  flat and otherwise exactly the order that closes the position; the 48 bytes sent decode to it, or
  the gateway closed itself before they were complete. Otherwise nothing is sent and no order exists
  that did not exist before.
\<close>

theorem pipeline_order_discipline:
  assumes "process_market_signal_and_order api v sp ck gr rm rt gt tm tt rs (p, tr) = Some ((p', tr'), sent, rs')"
    "oms_inv (pp_oms p)" "wf_book (pp_book p)" "m_next_id (pp_oms p) + 1 \<noteq> 0" "0 \<le> gw_sockfd (pp_gateway p)"
  shows "sent = [] \<and> order_of (pp_oms p') = order_of (pp_oms p) \<or>
         m_pending_new (pp_oms p) = 0 \<and>
         (\<exists>ord. order_sent sp p p' ord \<and>
            (pp_gateway p' = pp_gateway p \<and> length sent = 48 \<and> order_msg ord = Some (order_msg_of_bytes sent) \<or>
             pp_gateway p' = gw_close (pp_gateway p) \<and> length sent < 48))"
proof -
  obtain p3 tr2 fresh where
    so: "send_order api v ck rs (decide sp fresh (pp_book p3) (pp_oms p3)) (p3, tr2) = Some ((p', tr'), sent, rs')"
    and p3: "pp_oms p3 = set_reference_price (mid_price (pp_book p3)) (pp_oms p)" "pp_gateway p3 = pp_gateway p"
      "wf_book (pp_book p) \<Longrightarrow> wf_book (pp_book p3)"
    by (rule process_market_split [OF assms(1)]) blast
  have inv3: "oms_inv (pp_oms p3)" "m_next_id (pp_oms p3) + 1 \<noteq> 0" using assms(2,4) by (simp_all add: p3(1))
  note keeps = send_order_keeps [OF so inv3]
  show ?thesis
  proof (cases "sent = [] \<and> pp_oms p' = pp_oms p3")
    case True
    then show ?thesis using p3(1) by simp
  next
    case False
    with keeps(4) obtain s price qty ord where
      req: "decide sp fresh (pp_book p3) (pp_oms p3) = Some (s, price, qty)"
      and ord: "order_of (pp_oms p') = (order_of (pp_oms p3))(m_next_id (pp_oms p3) \<mapsto> ord)"
        "oo_status ord = Sent" "oo_type ord = IOC" "oo_price ord = price" "oo_side ord = s" "oo_qty ord = qty"
        "oo_id ord = m_next_id (pp_oms p3)"
      and sub: "submit_order ord rs (pp_gateway p3) = Some (sent, pp_gateway p', rs')"
      by blast
    note d = decide_cases [OF req]
    have "order_sent sp p p' ord"
      using ord d(2,3) p3(1) keeps(2) next_id_fresh [OF assms(2)]
      by (cases s) (auto simp: order_sent_def split: if_splits)
    moreover have "wf_double (oo_price ord)"
      using p3(3) [OF assms(3)] ord(4) d(2) by (cases s) (simp_all add: wf_book_def)
    with submit_order_wire [OF sub] p3(2) assms(5) ord(3)
    have "pp_gateway p' = pp_gateway p \<and> length sent = 48 \<and> order_msg ord = Some (order_msg_of_bytes sent) \<or>
          pp_gateway p' = gw_close (pp_gateway p) \<and> length sent < 48" by simp
    ultimately show ?thesis using d(1) p3(1) by auto
  qed
qed

text \<open>The bytes of a reference message with sequence number 1 and mid price 104.\<close>

definition demo_reference :: md_msg where
  "demo_reference = replicate 20 0 @ [1, 0, 0, 0, 4] @ replicate 13 0 @ [90, 64] @ replicate 16 0"

definition demo_pipeline :: pipeline where
  "demo_pipeline =
     init_pipeline init_receiver init_receiver \<lparr>gw_sockfd = 3, gw_buf = []\<rparr>"

definition demo_clock :: signal_clock where
  "demo_clock = \<lparr>sc_book_updated = 0, sc_strategy_done = 0, sc_sent = 9, sc_order_sent = 0\<rparr>"

definition demo_process where
  "demo_process = process_market_signal_and_order noop_api (Fin False 1) default_params demo_clock
     True demo_reference 4 False [] 0 [SendCount 48] (demo_pipeline, ())"

lemma demo_process_sends:
  "(case demo_process of Some (pt, sent, rs) \<Rightarrow> length sent = 48 \<and> rs = [] | None \<Rightarrow> False)"
  by code_simp

lemma demo_pipeline_ok:
  "oms_inv (pp_oms demo_pipeline)" "wf_book (pp_book demo_pipeline)" "m_next_id (pp_oms demo_pipeline) + 1 \<noteq> 0"
  "0 \<le> gw_sockfd (pp_gateway demo_pipeline)" "m_next_id (pp_oms demo_pipeline) = 1"
  using oms_inv_init wf_book_init
  by (simp_all add: demo_pipeline_def init_pipeline_def init_oms_def)

theorem pipeline_order_discipline_witness:
  "\<exists>p' sent rs'. demo_process = Some ((p', ()), sent, rs') \<and> (\<exists>ord. order_sent default_params demo_pipeline p' ord)"
proof -
  from demo_process_sends obtain p' sent rs' where
    run: "demo_process = Some ((p', ()), sent, rs')" and len: "length sent = 48"
    by (auto split: option.splits)
  then have "sent \<noteq> []" by auto
  with pipeline_order_discipline [OF run [unfolded demo_process_def] demo_pipeline_ok(1-4)] run show ?thesis by blast
qed

section \<open>The loop keeps the invariants\<close>

lemma process_execution_total:
  assumes "oms_inv (pp_oms p)"
  obtains p' tr' st where "process_execution api ck exec (p, tr) = Some (p', tr')" "oms_inv (pp_oms p')"
    "pp_book p' = pp_book p" "on_execution exec (pp_oms p) = Some (pp_oms p')"
proof -
  from on_execution_inv [OF assms, of exec] obtain st where
    st: "on_execution exec (pp_oms p) = Some st" "oms_inv st" by blast
  then show ?thesis
    by (cases "process_execution api ck exec (p, tr)")
      (auto simp: process_execution_def Let_def split: option.splits exec_type.splits prod.splits
        intro!: that)
qed

lemma on_execution_next_id:
  assumes "oms_inv st" "on_execution r st = Some st'"
  shows "m_next_id st' = m_next_id st"
proof -
  have free: "m_next_id st2 = m_next_id st1" if "free_slot k oid st1 = Some st2" for k oid st1 st2
    by (subst free_slot_keeps [OF that]) simp
  have "core (x :: oms) = core y \<Longrightarrow> m_next_id x = m_next_id y" for x y by (simp add: core_def)
  note c = this [OF frame_simps(1)] this [OF frame_simps(3)] this [OF frame_simps(5)] this [OF frame_simps(7)]
  show ?thesis using assms
    by (auto simp: on_execution_def on_new_ack_def on_fill_def on_cancel_ack_def on_reject_def Let_def c
        dest!: free split: option.splits if_splits exec_type.splits)
qed

definition pipe_inv :: "pipeline \<Rightarrow> bool" where
  "pipe_inv p = (oms_inv (pp_oms p) \<and> wf_book (pp_book p))"

lemma drain_keeps:
  assumes "drain_executions api cks i rs (p, tr) = Some ((p', tr'), rs')" "pipe_inv p"
  shows "pipe_inv p' \<and> m_next_id (pp_oms p') = m_next_id (pp_oms p)"
  using assms
proof (induction api cks i rs "(p, tr)" arbitrary: p tr rule: drain_executions.induct)
  case (1 api cks i rs p tr)
  from "1.prems"(1) obtain rep g rs1 where poll: "poll_execution rs (pp_gateway p) = Some (rep, g, rs1)"
    by (auto split: option.splits)
  show ?case
  proof (cases rep)
    case None
    with "1.prems" poll show ?thesis by (auto simp: pipe_inv_def)
  next
    case (Some exec)
    let ?p = "p\<lparr>pp_gateway := g\<rparr>"
    have inv: "oms_inv (pp_oms ?p)" using "1.prems"(2) by (simp add: pipe_inv_def)
    obtain p1 tr1 where pe: "process_execution api (cks i) exec (?p, tr) = Some (p1, tr1)" "oms_inv (pp_oms p1)"
      "pp_book p1 = pp_book ?p" "on_execution exec (pp_oms ?p) = Some (pp_oms p1)"
      by (rule process_execution_total [OF inv])
    have "pipe_inv p1" using pe "1.prems"(2) by (simp add: pipe_inv_def)
    moreover have "m_next_id (pp_oms p1) = m_next_id (pp_oms p)" using on_execution_next_id [OF inv pe(4)] by simp
    ultimately show ?thesis
      using "1.hyps" [OF poll refl Some refl pe(1) refl] "1.prems"(1) poll Some pe(1) by simp
  qed
qed

declare drain_executions.simps [simp del]

lemma iteration_keeps:
  assumes "pipeline_iteration api v sp it (p, tr) = Some ((p', tr'), sent)" "pipe_inv p" "m_next_id (pp_oms p) + 1 \<noteq> 0"
  shows "pipe_inv p' \<and> (m_next_id (pp_oms p') = m_next_id (pp_oms p) \<or> m_next_id (pp_oms p') = m_next_id (pp_oms p) + 1)"
proof -
  obtain gr rm r1 x gt tm t1 y where
    polls: "md_poll (it_ref_recv it) (it_ref_garbage it) (pp_ref_md p) = Some (gr, rm, r1, x)"
    "md_poll (it_target_recv it) (it_target_garbage it) (pp_target_md p) = Some (gt, tm, t1, y)"
    using assms(1)
    by (cases "md_poll (it_ref_recv it) (it_ref_garbage it) (pp_ref_md p)";
        cases "md_poll (it_target_recv it) (it_target_garbage it) (pp_target_md p)")
      (auto simp: pipeline_iteration_def Let_def)
  let ?p = "p\<lparr>pp_ref_md := r1, pp_target_md := t1\<rparr>"
  have inv: "pipe_inv ?p" using assms(2) by (simp add: pipe_inv_def)
  show ?thesis
  proof (cases "gr \<or> gt")
    case True
    let ?tr = "ta_record api RecvDone (it_recv_done it) (ta_record api RecvStart (it_recv_start it) (ta_start api tr))"
    let ?pm = "process_market_signal_and_order api v sp (it_signal_clock it) gr rm (if gr then it_ref_ticks it else 0)
             gt tm (if gt then it_target_ticks it else 0) (it_send it) (?p, ?tr)"
    have eq: "(case ?pm of None \<Rightarrow> None | Some (pt2, sent, _) \<Rightarrow>
        (case drain_executions api (it_exec_clock it) 0 (it_recv it) pt2 of None \<Rightarrow> None
         | Some ((p3, tr3), _) \<Rightarrow> Some ((p3, ta_end api tr3), sent))) = Some ((p', tr'), sent)"
      using assms(1) True polls by (simp add: pipeline_iteration_def Let_def del: if_split)
    obtain p2 tr2 s2 z where pm: "?pm = Some ((p2, tr2), s2, z)" using eq by (cases ?pm) auto
    obtain tr3 w where dr: "drain_executions api (it_exec_clock it) 0 (it_recv it) (p2, tr2) = Some ((p', tr3), w)"
      using eq unfolding pm
      by (cases "drain_executions api (it_exec_clock it) 0 (it_recv it) (p2, tr2)") auto
    have "pipe_inv p2 \<and> (m_next_id (pp_oms p2) = m_next_id (pp_oms p) \<or> m_next_id (pp_oms p2) = m_next_id (pp_oms p) + 1)"
      using process_market_keeps [OF pm] inv assms(3) by (simp add: pipe_inv_def)
    with drain_keeps [OF dr] show ?thesis by simp
  next
    case False
    let ?tr = "ta_discard api (ta_record api RecvStart (it_recv_start it) (ta_start api tr))"
    have "(case drain_executions api (it_exec_clock it) 0 (it_recv it) (?p, ?tr) of None \<Rightarrow> None | Some (pt3, _) \<Rightarrow> Some (pt3, []))
        = Some ((p', tr'), sent)"
      using assms(1) False polls by (simp add: pipeline_iteration_def Let_def)
    then obtain w where "drain_executions api (it_exec_clock it) 0 (it_recv it) (?p, ?tr) = Some ((p', tr'), w)"
      by (cases "drain_executions api (it_exec_clock it) 0 (it_recv it) (?p, ?tr)") auto
    from drain_keeps [OF this inv] show ?thesis by simp
  qed
qed

lemma loop_keeps:
  assumes "pipeline_loop api v sp d dl its n (p, tr) = Some ((p', tr'), n', sent)" "pipe_inv p"
    "unat (m_next_id (pp_oms p)) + length its < 2 ^ 64 - 1"
  shows "pipe_inv p' \<and> unat (m_next_id (pp_oms p')) \<le> unat (m_next_id (pp_oms p)) + length its"
  using assms
proof (induction its arbitrary: n p tr sent)
  case (Cons it its)
  show ?case
  proof (cases "sint d > 0 \<and> it_now_ns it \<ge> dl")
    case True
    with Cons.prems show ?thesis by auto
  next
    case False
    with Cons.prems(1) obtain p1 tr1 s1 s2 where
      it: "pipeline_iteration api v sp it (p, tr) = Some ((p1, tr1), s1)"
      and lp: "pipeline_loop api v sp d dl its (n + 1) (p1, tr1) = Some ((p', tr'), n', s2)"
      by (auto split: option.splits)
    have S: "unat (m_next_id (pp_oms p) + 1) = Suc (unat (m_next_id (pp_oms p)))"
      using Cons.prems(3) by (simp add: unat_word_ariths)
    then have "m_next_id (pp_oms p) + 1 \<noteq> 0" by (metis nat.distinct(1) unat_0)
    from iteration_keeps [OF it Cons.prems(2) this] S
    have k: "pipe_inv p1" "unat (m_next_id (pp_oms p1)) \<le> Suc (unat (m_next_id (pp_oms p)))" by auto
    with Cons.IH [OF lp k(1)] Cons.prems(3) show ?thesis by simp
  qed
qed auto

text \<open>
  C30. The trading loop keeps the invariants of its components and never fails on a report. Whatever
  arrives from the feeds and the exchange, however long the loop has run (short of exhausting the
  64-bit identifiers): the slots and the index of the order management system are consistent, the
  book holds ten levels of proper doubles, an execution report of any kind is processed without
  leaving the bounds of an array or looping, and at most one order per iteration was created.
\<close>

theorem pipeline_safe:
  assumes "run_pipeline api v sp start_ns duration its ref_md target_md gw tr0 = Some ((p, tr), n, sent)"
    "length its < 2 ^ 64 - 2"
  shows "oms_inv (pp_oms p) \<and> wf_book (pp_book p) \<and> unat (m_next_id (pp_oms p)) \<le> 1 + length its \<and>
         (\<exists>p' tr'. process_execution api ck exec (p, tr) = Some (p', tr') \<and> oms_inv (pp_oms p'))"
proof -
  let ?p = "init_pipeline ref_md target_md gw"
  have i: "pipe_inv ?p" "m_next_id (pp_oms ?p) = 1"
    using oms_inv_init wf_book_init by (simp_all add: pipe_inv_def init_pipeline_def init_oms_def)
  have "pipe_inv p \<and> unat (m_next_id (pp_oms p)) \<le> 1 + length its"
    using loop_keeps [OF assms(1) [unfolded run_pipeline_def] i(1)] assms(2) i(2) by simp
  moreover from this obtain p' tr' where
    "process_execution api ck exec (p, tr) = Some (p', tr')" "oms_inv (pp_oms p')"
    using process_execution_total [of p api ck exec tr] unfolding pipe_inv_def by metis
  ultimately show ?thesis by (auto simp: pipe_inv_def)
qed

definition demo_iteration :: iteration where
  "demo_iteration =
     \<lparr>it_now_ns = 5, it_recv_start = 0, it_recv_done = 0, it_ref_garbage = [], it_target_garbage = [],
      it_ref_recv = [Datagram (take 48 demo_reference), MdAgain],
      it_target_recv = [MdAgain],
      it_ref_ticks = 3, it_target_ticks = 4, it_signal_clock = demo_clock, it_send = [SendCount 48],
      it_exec_clock = (\<lambda>_. \<lparr>ec_received = 0, ec_processed = 0\<rparr>), it_recv = [RecvAgain]\<rparr>"

definition demo_receiver :: md_receiver where
  "demo_receiver = init_receiver\<lparr>mr_sockfd := 4\<rparr>"

definition demo_run where
  "demo_run = run_pipeline noop_api (Fin False 1) default_params 0 10 [demo_iteration] demo_receiver demo_receiver
     \<lparr>gw_sockfd = 3, gw_buf = []\<rparr> ()"

lemma demo_run_sends: "(case demo_run of Some (pt, n, sent) \<Rightarrow> n = 1 \<and> length sent = 48 | None \<Rightarrow> False)"
  by code_simp

theorem pipeline_safe_witness:
  "\<exists>p n sent. demo_run = Some ((p, ()), n, sent) \<and> sent \<noteq> [] \<and> oms_inv (pp_oms p)"
proof -
  from demo_run_sends obtain p n sent where
    run: "demo_run = Some ((p, ()), n, sent)" and "length sent = 48" by (auto split: option.splits)
  then have "sent \<noteq> []" by auto
  have "oms_inv (pp_oms p)" using pipeline_safe [OF run [unfolded demo_run_def]] by simp
  with run \<open>sent \<noteq> []\<close> show ?thesis by blast
qed

section \<open>Tracing does not change trading\<close>

text \<open>The trading part of a result, and that it is the same for any two tracers.\<close>

definition trading :: "((pipeline \<times> 'tr) \<times> 'x) option \<Rightarrow> (pipeline \<times> 'x) option" where
  "trading = map_option (\<lambda>((p, tr), x). (p, x))"

lemma trading_simps [simp]: "trading None = None" "trading (Some ((p, tr), x)) = Some (p, x)"
  by (simp_all add: trading_def)

lemma trading_eq_Some: "trading r = Some (p, x) \<longleftrightarrow> (\<exists>tr. r = Some ((p, tr), x))"
  by (auto simp: trading_def)

lemma trading_eq_None: "trading r = None \<longleftrightarrow> r = None"
  by (auto simp: trading_def)

lemma send_order_trading:
  "trading (send_order api v ck rs req (p, tr)) = trading (send_order api' v ck rs req (p, tr'))"
  by (auto simp: send_order_def Let_def split: option.splits prod.splits)

lemma process_market_trading:
  "trading (process_market_signal_and_order api v sp ck gr rm rt gt tm tt rs (p, tr)) =
   trading (process_market_signal_and_order api' v sp ck gr rm rt gt tm tt rs (p, tr'))"
  unfolding process_market_signal_and_order_def by (auto simp: Let_def send_order_trading split: prod.splits)

lemma process_execution_trading:
  "map_option fst (process_execution api ck exec (p, tr)) = map_option fst (process_execution api' ck exec (p, tr'))"
  by (auto simp: process_execution_def Let_def split: option.splits exec_type.splits)

lemma drain_trading:
  "trading (drain_executions api cks i rs (p, tr)) = trading (drain_executions api' cks i rs (p, tr'))"
proof (induction api cks i rs "(p, tr)" arbitrary: p tr tr' rule: drain_executions.induct)
  case (1 api cks i rs p tr)
  show ?case
  proof (cases "poll_execution rs (pp_gateway p)")
    case None
    then show ?thesis by (simp add: drain_executions.simps)
  next
    case (Some r)
    obtain rep g rs1 where r: "r = (rep, g, rs1)" by (cases r)
    show ?thesis
    proof (cases rep)
      case None
      with Some r show ?thesis by (simp add: drain_executions.simps)
    next
      case exec: (Some exec)
      note poll = Some [unfolded r]
      let ?p = "p\<lparr>pp_gateway := g\<rparr>"
      have pe: "map_option fst (process_execution api (cks i) exec (?p, tr)) =
          map_option fst (process_execution api' (cks i) exec (?p, tr'))" by (rule process_execution_trading)
      show ?thesis
      proof (cases "process_execution api (cks i) exec (?p, tr)")
        case None
        with pe have "process_execution api' (cks i) exec (?p, tr') = None" by simp
        with None show ?thesis using poll exec by (simp add: drain_executions.simps)
      next
        case s: (Some pt)
        obtain p1 tr1 where pt: "pt = (p1, tr1)" by (cases pt)
        with pe s obtain tr2 where s': "process_execution api' (cks i) exec (?p, tr') = Some (p1, tr2)"
          by (cases "process_execution api' (cks i) exec (?p, tr')") auto
        from "1.hyps" [OF poll refl exec refl s [unfolded pt] refl, of tr2] show ?thesis
          using poll exec s pt s' by (simp add: drain_executions.simps [of _ _ _ rs])
      qed
    qed
  qed
qed

text \<open>An iteration seen from its trading side only.\<close>

definition iteration_trading ::
  "(pipeline \<times> u8 list \<times> send_result list) option \<Rightarrow> (pipeline \<Rightarrow> (pipeline \<times> recv_result list) option) \<Rightarrow>
   (pipeline \<times> u8 list) option"
where
  "iteration_trading pm dr =
     (case pm of None \<Rightarrow> None | Some (p2, sent, _) \<Rightarrow>
        (case dr p2 of None \<Rightarrow> None | Some (p3, _) \<Rightarrow> Some (p3, sent)))"

lemma trading_after:
  assumes "\<And>p tr. trading (dr (p, tr)) = dr' p"
  shows "trading (case pm of None \<Rightarrow> None | Some (pt2, sent, _) \<Rightarrow>
           (case dr pt2 of None \<Rightarrow> None | Some ((p3, tr3), _) \<Rightarrow> Some ((p3, f tr3), sent))) =
         iteration_trading (trading pm) dr'"
proof (cases pm)
  case (Some r)
  obtain p2 tr2 sent z where r: "r = ((p2, tr2), sent, z)" by (metis surj_pair)
  show ?thesis
    using assms [of p2 tr2, symmetric] Some r
    by (cases "dr (p2, tr2)") (auto simp: iteration_trading_def)
qed (simp add: iteration_trading_def)

lemma iteration_trading_eq:
  "trading (pipeline_iteration api v sp it (p, tr)) = trading (pipeline_iteration api' v sp it (p, tr'))"
proof (cases "md_poll (it_ref_recv it) (it_ref_garbage it) (pp_ref_md p)";
    cases "md_poll (it_target_recv it) (it_target_garbage it) (pp_target_md p)")
  fix r t
  assume polls: "md_poll (it_ref_recv it) (it_ref_garbage it) (pp_ref_md p) = Some r"
    "md_poll (it_target_recv it) (it_target_garbage it) (pp_target_md p) = Some t"
  obtain gr rm r1 x gt tm t1 y where rt: "r = (gr, rm, r1, x)" "t = (gt, tm, t1, y)" by (metis surj_pair)
  let ?p = "p\<lparr>pp_ref_md := r1, pp_target_md := t1\<rparr>"
  let ?dr = "\<lambda>p. trading (drain_executions api' (it_exec_clock it) 0 (it_recv it) (p, tr'))"
  let ?pm = "\<lambda>api tr. process_market_signal_and_order api v sp (it_signal_clock it) gr rm (if gr then it_ref_ticks it else 0)
             gt tm (if gt then it_target_ticks it else 0) (it_send it) (?p, tr)"
  have both: "trading (pipeline_iteration api v sp it (p, tr)) =
      (if gr \<or> gt then iteration_trading (trading (?pm api' tr')) ?dr else map_option (\<lambda>(p, _). (p, [])) (?dr ?p))"
    for api :: "'z tracer_api" and tr
  proof (cases "gr \<or> gt")
    case True
    let ?tr = "ta_record api RecvDone (it_recv_done it) (ta_record api RecvStart (it_recv_start it) (ta_start api tr))"
    have "pipeline_iteration api v sp it (p, tr) = (case ?pm api ?tr of None \<Rightarrow> None | Some (pt2, sent, _) \<Rightarrow>
        (case drain_executions api (it_exec_clock it) 0 (it_recv it) pt2 of None \<Rightarrow> None
         | Some ((p3, tr3), _) \<Rightarrow> Some ((p3, ta_end api tr3), sent)))"
      using True polls rt by (simp add: pipeline_iteration_def Let_def del: if_split)
    then have "trading (pipeline_iteration api v sp it (p, tr)) = iteration_trading (trading (?pm api ?tr)) ?dr"
      by (simp only: trading_after [where dr = "drain_executions api (it_exec_clock it) 0 (it_recv it)" and dr' = ?dr,
          OF drain_trading])
    with True process_market_trading show ?thesis by metis
  next
    case False
    let ?tr = "ta_discard api (ta_record api RecvStart (it_recv_start it) (ta_start api tr))"
    have "trading (pipeline_iteration api v sp it (p, tr)) =
        map_option (\<lambda>(p, _). (p, [])) (trading (drain_executions api (it_exec_clock it) 0 (it_recv it) (?p, ?tr)))"
      using False polls rt by (simp add: pipeline_iteration_def Let_def trading_def split: option.splits)
    also have "\<dots> = map_option (\<lambda>(p, _). (p, [])) (?dr ?p)" by (subst drain_trading) (rule refl)
    finally show ?thesis using False by simp
  qed
  show ?thesis unfolding both ..
qed (simp_all add: pipeline_iteration_def)

lemma loop_trading:
  "trading (pipeline_loop api v sp d dl its n (p, tr)) = trading (pipeline_loop api' v sp d dl its n (p, tr'))"
proof (induction its arbitrary: n p tr tr')
  case (Cons it its)
  have it: "trading (pipeline_iteration api v sp it (p, tr)) = trading (pipeline_iteration api' v sp it (p, tr'))"
    by (rule iteration_trading_eq)
  show ?case
  proof (cases "pipeline_iteration api v sp it (p, tr)")
    case None
    then have "pipeline_iteration api' v sp it (p, tr') = None" using it by (simp add: trading_def)
    with None show ?thesis by simp
  next
    case (Some r)
    obtain p1 tr1 s1 where r: "r = ((p1, tr1), s1)" by (metis surj_pair)
    then obtain tr2 where r': "pipeline_iteration api' v sp it (p, tr') = Some ((p1, tr2), s1)"
      using it Some by (metis trading_eq_Some)
    from Cons.IH [of "n + 1" p1 tr1 tr2] show ?thesis
      using Some r r'
      by (cases "pipeline_loop api v sp d dl its (n + 1) (p1, tr1)";
          cases "pipeline_loop api' v sp d dl its (n + 1) (p1, tr2)") (auto simp: trading_def)
  qed
qed simp


section \<open>A reference before the first quote\<close>

text \<open>
  C32. A reference price that arrives before any quote makes the loop buy at price zero. The book
  then has no ask, \<open>book_best_ask\<close> is zero, which is at least the threshold below any reference of two or
  more; the price deviation check is off because the mid price is zero; so an IOC buy order of the
  strategy's size at price zero passes the risk check.
\<close>

theorem reference_before_quote_buys_at_zero:
  assumes "is_finite (mf_reference_mid f)" "2 \<le> val (mf_reference_mid f)"
  shows "decide default_params True (on_reference f init_book) init_oms = Some (Buy, Fin False 0, 1) \<and>
         check_risk Buy (Fin False 0) 1 (set_reference_price (mid_price (on_reference f init_book)) init_oms)"
proof -
  have two: "of_rat_double False 2 = Fin False 2" by code_simp
  have edge: "fle (Fin False 2) (mf_reference_mid f)" using assms by (simp add: fle_val)
  have "book_best_ask (on_reference f init_book) = Fin False 0" by (simp add: book_best_ask_def on_reference_def init_book_def)
  then have "on_book_update default_params (on_reference f init_book) 0 = BuySignal"
    using edge by (simp add: on_book_update_def Let_def on_reference_def default_params_def two MAX_POSITION_def)
  moreover have "build_exit_order (on_reference f init_book) 0 = None" by (simp add: build_exit_order_def)
  ultimately have "decide default_params True (on_reference f init_book) init_oms = Some (Buy, Fin False 0, 1)"
    by (simp add: decide_def init_oms_def book_best_ask_def on_reference_def init_book_def default_params_def)
  moreover have "mid_price (on_reference f init_book) = mid_price init_book" by (simp add: mid_price_def on_reference_def)
  moreover have "check_risk Buy (Fin False 0) 1 (set_reference_price (mid_price init_book) init_oms)" by code_simp
  ultimately show ?thesis by simp
qed

theorem reference_before_quote_buys_at_zero_witness:
  "decide default_params True
     (on_reference \<lparr>mf_header = msg_header demo_reference, mf_reference_mid = Fin False 104\<rparr> init_book) init_oms =
   Some (Buy, Fin False 0, 1)"
  using reference_before_quote_buys_at_zero [of "\<lparr>mf_header = msg_header demo_reference, mf_reference_mid = Fin False 104\<rparr>"]
  by simp

end
