(* ===== verification/Matching_Tests.thy ===== *)
theory Matching_Tests
  imports Matching_Engine
begin

text \<open>
  The tests of the repository, \<open>tests/test_matching_engine.cpp\<close>, run on the model of the book they
  test. A test is the conjunction of its assertions, with \<open>cancel\<close> returning without a dangling
  iterator; that they all hold checks the model against the behaviour its authors state.
\<close>

definition limit_order :: "u64 \<Rightarrow> side \<Rightarrow> u64 \<Rightarrow> u64 \<Rightarrow> order" where
  "limit_order oid s price qty = \<lparr>o_id = oid, o_side = s, o_price = price, o_qty = qty, o_type = Limit\<rparr>"

definition market_order :: "u64 \<Rightarrow> side \<Rightarrow> u64 \<Rightarrow> order" where
  "market_order oid s qty = \<lparr>o_id = oid, o_side = s, o_price = 0, o_qty = qty, o_type = Market\<rparr>"

definition test_no_match_wide_spread :: bool where
  "test_no_match_wide_spread =
     (let (b1, fs1) = me_add_order (limit_order 1 Buy 100 10) [] empty_engine;
          (b2, fs2) = me_add_order (limit_order 2 Sell 110 10) fs1 b1
      in fs1 = [] \<and> fs2 = [] \<and> me_best_bid b2 = Some 100 \<and> me_best_ask b2 = Some 110 \<and>
         me_spread b2 = Some 10 \<and> me_len b2 = 2)"

definition test_exact_fill :: bool where
  "test_exact_fill =
     (let (b1, fs1) = me_add_order (limit_order 1 Sell 100 10) [] empty_engine;
          (b2, fs2) = me_add_order (limit_order 2 Buy 100 10) fs1 b1
      in fs1 = [] \<and> length fs2 = 1 \<and> maker_id (fs2 ! 0) = 1 \<and> taker_id (fs2 ! 0) = 2 \<and>
         f_price (fs2 ! 0) = 100 \<and> f_qty (fs2 ! 0) = 10 \<and> me_is_empty b2)"

definition test_partial_fill :: bool where
  "test_partial_fill =
     (let (b1, fs1) = me_add_order (limit_order 1 Sell 100 20) [] empty_engine;
          (b2, fs2) = me_add_order (limit_order 2 Buy 100 5) [] b1
      in length fs2 = 1 \<and> f_qty (fs2 ! 0) = 5 \<and> me_depth_at Sell 100 b2 = 15 \<and> me_len b2 = 1)"

definition test_price_improvement :: bool where
  "test_price_improvement =
     (let (b1, fs1) = me_add_order (limit_order 1 Sell 95 10) [] empty_engine;
          (b2, fs2) = me_add_order (limit_order 2 Buy 100 10) [] b1
      in length fs2 = 1 \<and> f_price (fs2 ! 0) = 95)"

definition test_fifo_priority :: bool where
  "test_fifo_priority =
     (let (b1, fs1) = me_add_order (limit_order 1 Sell 100 5) [] empty_engine;
          (b2, fs2) = me_add_order (limit_order 2 Sell 100 5) fs1 b1;
          (b3, fs3) = me_add_order (limit_order 3 Buy 100 7) [] b2
      in length fs3 = 2 \<and> maker_id (fs3 ! 0) = 1 \<and> f_qty (fs3 ! 0) = 5 \<and> maker_id (fs3 ! 1) = 2 \<and>
         f_qty (fs3 ! 1) = 2 \<and> me_depth_at Sell 100 b3 = 3)"

definition test_multi_level_fill :: bool where
  "test_multi_level_fill =
     (let (b1, fs1) = me_add_order (limit_order 1 Sell 100 5) [] empty_engine;
          (b2, fs2) = me_add_order (limit_order 2 Sell 101 5) fs1 b1;
          (b3, fs3) = me_add_order (limit_order 3 Sell 102 5) fs2 b2;
          (b4, fs4) = me_add_order (limit_order 4 Buy 102 12) [] b3
      in length fs4 = 3 \<and> f_price (fs4 ! 0) = 100 \<and> f_price (fs4 ! 1) = 101 \<and> f_price (fs4 ! 2) = 102 \<and>
         f_qty (fs4 ! 2) = 2 \<and> me_depth_at Sell 102 b4 = 3)"

definition test_market_order :: bool where
  "test_market_order =
     (let (b1, fs1) = me_add_order (limit_order 1 Sell 100 10) [] empty_engine;
          (b2, fs2) = me_add_order (limit_order 2 Sell 105 10) fs1 b1;
          (b3, fs3) = me_add_order (market_order 3 Buy 15) [] b2
      in length fs3 = 2 \<and> f_price (fs3 ! 0) = 100 \<and> f_qty (fs3 ! 0) = 10 \<and> f_price (fs3 ! 1) = 105 \<and>
         f_qty (fs3 ! 1) = 5 \<and> me_len b3 = 1)"

definition test_cancel :: bool where
  "test_cancel =
     (let (b1, fs1) = me_add_order (limit_order 1 Buy 100 10) [] empty_engine
      in me_len b1 = 1 \<and>
         (case me_cancel 1 b1 of
            None \<Rightarrow> False
          | Some (b2, cancelled) \<Rightarrow>
              cancelled \<and> me_len b2 = 0 \<and> me_best_bid b2 = None \<and> map_option snd (me_cancel 1 b2) = Some False))"

definition test_cancel_nonexistent :: bool where
  "test_cancel_nonexistent = (map_option snd (me_cancel 999 empty_engine) = Some False)"

definition test_sell_market :: bool where
  "test_sell_market =
     (let (b1, fs1) = me_add_order (limit_order 1 Buy 100 10) [] empty_engine;
          (b2, fs2) = me_add_order (limit_order 2 Buy 99 10) fs1 b1;
          (b3, fs3) = me_add_order (market_order 3 Sell 15) [] b2
      in length fs3 = 2 \<and> f_price (fs3 ! 0) = 100 \<and> f_qty (fs3 ! 0) = 10 \<and> f_price (fs3 ! 1) = 99 \<and>
         f_qty (fs3 ! 1) = 5)"

definition matching_tests :: "bool list" where
  "matching_tests =
     [test_no_match_wide_spread, test_exact_fill, test_partial_fill, test_price_improvement, test_fifo_priority,
      test_multi_level_fill, test_market_order, test_cancel, test_cancel_nonexistent, test_sell_market]"

lemma matching_tests_pass: "matching_tests = replicate 10 True"
  by code_simp

end
