(* ===== verification/PMU.thy ===== *)
theory PMU
  imports C_Text
begin

text \<open>
  The hardware counters, \<open>include/nts/perf_counter.h\<close> and \<open>src/perf_counter.cpp\<close>: one counter per
  event, opened on first use, and a scope that resets and enables the counters of the group chosen
  by \<open>NTS_PMU_GROUP\<close>, and on exit disables them and adds their values to totals.

  The kernel is an argument: a record of the calls \<open>perf_event_open\<close>, \<open>ioctl\<close>, \<open>read\<close> and \<open>close\<close> over a
  state of any type. A \<open>read\<close> gives \<open>Some\<close> value when it returned eight bytes. The numbers of event
  types and configurations are those of \<open>linux/perf_event.h\<close>; the field \<open>size\<close> of the attribute, which
  only tells the kernel the version of the struct, is left out. The result of \<open>getenv\<close> is an
  argument, \<open>None\<close> when the variable is not set.
\<close>

section \<open>Events\<close>

datatype perf_event =
    CpuCycles | Instructions | CacheReferences | CacheMisses | Branches | BranchMisses | PageFaults
  | L1DLoads | L1DLoadMisses | L1DStores | LLCLoads | LLCLoadMisses | LLCStores | LLCStoreMisses

fun perf_event_code :: "perf_event \<Rightarrow> u8" where
  "perf_event_code CpuCycles = 0"
| "perf_event_code Instructions = 1"
| "perf_event_code CacheReferences = 2"
| "perf_event_code CacheMisses = 3"
| "perf_event_code Branches = 4"
| "perf_event_code BranchMisses = 5"
| "perf_event_code PageFaults = 6"
| "perf_event_code L1DLoads = 100"
| "perf_event_code L1DLoadMisses = 101"
| "perf_event_code L1DStores = 102"
| "perf_event_code LLCLoads = 110"
| "perf_event_code LLCLoadMisses = 111"
| "perf_event_code LLCStores = 112"
| "perf_event_code LLCStoreMisses = 113"

fun perf_event_name :: "perf_event \<Rightarrow> string" where
  "perf_event_name CpuCycles = ''cycles''"
| "perf_event_name Instructions = ''instructions''"
| "perf_event_name CacheReferences = ''cache-references''"
| "perf_event_name CacheMisses = ''cache-misses''"
| "perf_event_name Branches = ''branches''"
| "perf_event_name BranchMisses = ''branch-misses''"
| "perf_event_name PageFaults = ''page-faults''"
| "perf_event_name L1DLoads = ''L1-dcache-loads''"
| "perf_event_name L1DLoadMisses = ''L1-dcache-load-misses''"
| "perf_event_name L1DStores = ''L1-dcache-stores''"
| "perf_event_name LLCLoads = ''LLC-loads''"
| "perf_event_name LLCLoadMisses = ''LLC-load-misses''"
| "perf_event_name LLCStores = ''LLC-stores''"
| "perf_event_name LLCStoreMisses = ''LLC-store-misses''"

section \<open>The kernel\<close>

record perf_attr =
  at_type :: u32
  at_config :: u64
  at_disabled :: bool
  at_exclude_kernel :: bool
  at_exclude_hv :: bool
  at_inherit :: bool

datatype perf_request = IocReset | IocEnable | IocDisable

record 'k perf_kernel =
  k_open :: "perf_attr \<Rightarrow> 'k \<Rightarrow> int \<times> 'k"
  k_ioctl :: "perf_request \<Rightarrow> int \<Rightarrow> 'k \<Rightarrow> 'k"
  k_read :: "int \<Rightarrow> 'k \<Rightarrow> u64 option \<times> 'k"
  k_close :: "int \<Rightarrow> 'k \<Rightarrow> 'k"
  k_error :: "'k \<Rightarrow> string"

section \<open>One counter\<close>

record perf_counter =
  pc_fd :: int
  pc_config :: u64

definition PERF_TYPE_HARDWARE :: u32 where "PERF_TYPE_HARDWARE = 0"
definition PERF_TYPE_SOFTWARE :: u32 where "PERF_TYPE_SOFTWARE = 1"
definition PERF_TYPE_HW_CACHE :: u32 where "PERF_TYPE_HW_CACHE = 3"

definition CACHE_L1D :: u64 where "CACHE_L1D = 0"
definition CACHE_LL :: u64 where "CACHE_LL = 2"
definition OP_READ :: u64 where "OP_READ = 0"
definition OP_WRITE :: u64 where "OP_WRITE = 1"
definition RESULT_ACCESS :: u64 where "RESULT_ACCESS = 0"
definition RESULT_MISS :: u64 where "RESULT_MISS = 1"

definition cache_config :: "u64 \<Rightarrow> u64 \<Rightarrow> u64 \<Rightarrow> u64" where
  "cache_config cache op result = cache OR push_bit 8 op OR push_bit 16 result"

fun event_config :: "perf_event \<Rightarrow> u32 \<times> u64" where
  "event_config CpuCycles = (PERF_TYPE_HARDWARE, 0)"
| "event_config Instructions = (PERF_TYPE_HARDWARE, 1)"
| "event_config CacheReferences = (PERF_TYPE_HARDWARE, 2)"
| "event_config CacheMisses = (PERF_TYPE_HARDWARE, 3)"
| "event_config Branches = (PERF_TYPE_HARDWARE, 4)"
| "event_config BranchMisses = (PERF_TYPE_HARDWARE, 5)"
| "event_config PageFaults = (PERF_TYPE_SOFTWARE, 2)"
| "event_config L1DLoads = (PERF_TYPE_HW_CACHE, cache_config CACHE_L1D OP_READ RESULT_ACCESS)"
| "event_config L1DLoadMisses = (PERF_TYPE_HW_CACHE, cache_config CACHE_L1D OP_READ RESULT_MISS)"
| "event_config L1DStores = (PERF_TYPE_HW_CACHE, cache_config CACHE_L1D OP_WRITE RESULT_ACCESS)"
| "event_config LLCLoads = (PERF_TYPE_HW_CACHE, cache_config CACHE_LL OP_READ RESULT_ACCESS)"
| "event_config LLCLoadMisses = (PERF_TYPE_HW_CACHE, cache_config CACHE_LL OP_READ RESULT_MISS)"
| "event_config LLCStores = (PERF_TYPE_HW_CACHE, cache_config CACHE_LL OP_WRITE RESULT_ACCESS)"
| "event_config LLCStoreMisses = (PERF_TYPE_HW_CACHE, cache_config CACHE_LL OP_WRITE RESULT_MISS)"

definition event_attr :: "perf_event \<Rightarrow> perf_attr" where
  "event_attr e =
     \<lparr>at_type = fst (event_config e), at_config = snd (event_config e), at_disabled = True,
      at_exclude_kernel = True, at_exclude_hv = True, at_inherit = False\<rparr>"

text \<open>\<open>init\<close>: the counter, the kernel after the call, and what is written to \<open>stderr\<close>.\<close>

definition perf_init :: "'k perf_kernel \<Rightarrow> perf_event \<Rightarrow> 'k \<Rightarrow> perf_counter \<times> 'k \<times> string" where
  "perf_init K e k =
     (let attr = event_attr e; (fd, k') = k_open K attr k;
          msg = (if fd = - 1
                 then ''[pmu] unsupported event name='' @ perf_event_name e @ '' type='' @
                      dec_nat (unat (at_type attr)) @ '' config='' @ dec_nat (unat (at_config attr)) @
                      '' error='' @ k_error K k' @ newline
                 else [])
      in (\<lparr>pc_fd = fd, pc_config = at_config attr\<rparr>, k', msg))"

text \<open>The build for other systems opens nothing.\<close>

definition perf_init_other :: "perf_event \<Rightarrow> perf_counter" where
  "perf_init_other e = \<lparr>pc_fd = - 1, pc_config = ucast (perf_event_code e)\<rparr>"

definition perf_reset :: "'k perf_kernel \<Rightarrow> perf_counter \<Rightarrow> 'k \<Rightarrow> 'k" where
  "perf_reset K c k = (if pc_fd c \<noteq> - 1 then k_ioctl K IocReset (pc_fd c) k else k)"

definition perf_enable :: "'k perf_kernel \<Rightarrow> perf_counter \<Rightarrow> 'k \<Rightarrow> 'k" where
  "perf_enable K c k = (if pc_fd c \<noteq> - 1 then k_ioctl K IocEnable (pc_fd c) k else k)"

definition perf_disable :: "'k perf_kernel \<Rightarrow> perf_counter \<Rightarrow> 'k \<Rightarrow> 'k" where
  "perf_disable K c k = (if pc_fd c \<noteq> - 1 then k_ioctl K IocDisable (pc_fd c) k else k)"

definition perf_read_value :: "'k perf_kernel \<Rightarrow> perf_counter \<Rightarrow> 'k \<Rightarrow> u64 \<times> 'k" where
  "perf_read_value K c k =
     (if pc_fd c = - 1 then (0, k)
      else let (r, k') = k_read K (pc_fd c) k in (case r of None \<Rightarrow> 0 | Some v \<Rightarrow> v, k'))"

definition perf_destroy :: "'k perf_kernel \<Rightarrow> perf_counter \<Rightarrow> 'k \<Rightarrow> 'k" where
  "perf_destroy K c k = (if pc_fd c \<noteq> - 1 then k_close K (pc_fd c) k else k)"

section \<open>The counters of the process\<close>

text \<open>
  \<open>pmu_cycles()\<close> to \<open>pmu_llc_store_misses()\<close> each hold their counter in a function-local static, which
  the first call initialises: \<open>pm_counters\<close> is \<open>None\<close> until then.
\<close>

record 'k pmu =
  pm_kernel :: 'k
  pm_counters :: "perf_event \<Rightarrow> perf_counter option"
  pm_stderr :: string

definition init_pmu :: "'k \<Rightarrow> 'k pmu" where
  "init_pmu k = \<lparr>pm_kernel = k, pm_counters = (\<lambda>_. None), pm_stderr = []\<rparr>"

definition pmu_counter :: "'k perf_kernel \<Rightarrow> perf_event \<Rightarrow> 'k pmu \<Rightarrow> perf_counter \<times> 'k pmu" where
  "pmu_counter K e s =
     (case pm_counters s e of
        Some c \<Rightarrow> (c, s)
      | None \<Rightarrow>
          let (c, k, msg) = perf_init K e (pm_kernel s)
          in (c, s\<lparr>pm_kernel := k, pm_counters := (pm_counters s)(e \<mapsto> c), pm_stderr := pm_stderr s @ msg\<rparr>))"

definition on_counter ::
  "'k perf_kernel \<Rightarrow> ('k perf_kernel \<Rightarrow> perf_counter \<Rightarrow> 'k \<Rightarrow> 'k) \<Rightarrow> perf_event \<Rightarrow> 'k pmu \<Rightarrow> 'k pmu"
where
  "on_counter K f e s = (let (c, s') = pmu_counter K e s in s'\<lparr>pm_kernel := f K c (pm_kernel s')\<rparr>)"

definition pmu_group_name :: "string option \<Rightarrow> string" where
  "pmu_group_name env =
     (case env of None \<Rightarrow> ''core'' | Some g \<Rightarrow> if g = [] then ''core'' else g)"

definition pmu_group_is :: "string option \<Rightarrow> string \<Rightarrow> bool" where
  "pmu_group_is env expected = (pmu_group_name env = expected)"

definition pmu_event_enabled :: "string option \<Rightarrow> string \<Rightarrow> bool" where
  "pmu_event_enabled env event_group = (pmu_group_is env ''all'' \<or> pmu_group_is env event_group)"

text \<open>The calls of each branch, in order; the same for reset, enable, disable and accumulate.\<close>

definition core_events :: "perf_event list" where
  "core_events = [CpuCycles, Instructions, Branches, BranchMisses, PageFaults]"

definition cache_events :: "perf_event list" where
  "cache_events = [CacheReferences, CacheMisses]"

definition l1d_events :: "perf_event list" where
  "l1d_events = [L1DLoads, L1DLoadMisses, L1DStores]"

definition llc_events :: "perf_event list" where
  "llc_events = [LLCLoads, LLCLoadMisses, LLCStores, LLCStoreMisses]"

definition when_enabled :: "string option \<Rightarrow> string \<Rightarrow> (perf_event \<Rightarrow> 's \<Rightarrow> 's) \<Rightarrow> perf_event list \<Rightarrow> 's \<Rightarrow> 's" where
  "when_enabled env g f es s = (if pmu_event_enabled env g then fold f es s else s)"

definition reset_enabled_pmu_counters :: "'k perf_kernel \<Rightarrow> string option \<Rightarrow> 'k pmu \<Rightarrow> 'k pmu" where
  "reset_enabled_pmu_counters K env s =
     (let f = on_counter K perf_reset;
          s1 = when_enabled env ''core'' f core_events s;
          s2 = when_enabled env ''cache'' f cache_events s1;
          s3 = when_enabled env ''l1d'' f l1d_events s2
      in when_enabled env ''llc'' f llc_events s3)"

definition enable_enabled_pmu_counters :: "'k perf_kernel \<Rightarrow> string option \<Rightarrow> 'k pmu \<Rightarrow> 'k pmu" where
  "enable_enabled_pmu_counters K env s =
     (let f = on_counter K perf_enable;
          s1 = when_enabled env ''core'' f core_events s;
          s2 = when_enabled env ''cache'' f cache_events s1;
          s3 = when_enabled env ''l1d'' f l1d_events s2
      in when_enabled env ''llc'' f llc_events s3)"

definition disable_enabled_pmu_counters :: "'k perf_kernel \<Rightarrow> string option \<Rightarrow> 'k pmu \<Rightarrow> 'k pmu" where
  "disable_enabled_pmu_counters K env s =
     (let f = on_counter K perf_disable;
          s1 = when_enabled env ''core'' f core_events s;
          s2 = when_enabled env ''cache'' f cache_events s1;
          s3 = when_enabled env ''l1d'' f l1d_events s2
      in when_enabled env ''llc'' f llc_events s3)"

section \<open>Totals and scopes\<close>

record pmu_totals =
  pt_calls :: u64
  pt_cycles :: u64
  pt_instructions :: u64
  pt_cache_references :: u64
  pt_cache_misses :: u64
  pt_branches :: u64
  pt_branch_misses :: u64
  pt_page_faults :: u64
  pt_l1d_loads :: u64
  pt_l1d_load_misses :: u64
  pt_l1d_stores :: u64
  pt_llc_loads :: u64
  pt_llc_load_misses :: u64
  pt_llc_stores :: u64
  pt_llc_store_misses :: u64

definition init_totals :: pmu_totals where
  "init_totals =
     \<lparr>pt_calls = 0, pt_cycles = 0, pt_instructions = 0, pt_cache_references = 0, pt_cache_misses = 0,
      pt_branches = 0, pt_branch_misses = 0, pt_page_faults = 0, pt_l1d_loads = 0,
      pt_l1d_load_misses = 0, pt_l1d_stores = 0, pt_llc_loads = 0, pt_llc_load_misses = 0,
      pt_llc_stores = 0, pt_llc_store_misses = 0\<rparr>"

fun total_of :: "perf_event \<Rightarrow> pmu_totals \<Rightarrow> u64" where
  "total_of CpuCycles t = pt_cycles t"
| "total_of Instructions t = pt_instructions t"
| "total_of CacheReferences t = pt_cache_references t"
| "total_of CacheMisses t = pt_cache_misses t"
| "total_of Branches t = pt_branches t"
| "total_of BranchMisses t = pt_branch_misses t"
| "total_of PageFaults t = pt_page_faults t"
| "total_of L1DLoads t = pt_l1d_loads t"
| "total_of L1DLoadMisses t = pt_l1d_load_misses t"
| "total_of L1DStores t = pt_l1d_stores t"
| "total_of LLCLoads t = pt_llc_loads t"
| "total_of LLCLoadMisses t = pt_llc_load_misses t"
| "total_of LLCStores t = pt_llc_stores t"
| "total_of LLCStoreMisses t = pt_llc_store_misses t"

text \<open>Which total each counter is added to.\<close>

fun add_total :: "perf_event \<Rightarrow> u64 \<Rightarrow> pmu_totals \<Rightarrow> pmu_totals" where
  "add_total CpuCycles v t = t\<lparr>pt_cycles := pt_cycles t + v\<rparr>"
| "add_total Instructions v t = t\<lparr>pt_instructions := pt_instructions t + v\<rparr>"
| "add_total CacheReferences v t = t\<lparr>pt_cache_references := pt_cache_references t + v\<rparr>"
| "add_total CacheMisses v t = t\<lparr>pt_cache_misses := pt_cache_misses t + v\<rparr>"
| "add_total Branches v t = t\<lparr>pt_branches := pt_branches t + v\<rparr>"
| "add_total BranchMisses v t = t\<lparr>pt_branch_misses := pt_branch_misses t + v\<rparr>"
| "add_total PageFaults v t = t\<lparr>pt_page_faults := pt_page_faults t + v\<rparr>"
| "add_total L1DLoads v t = t\<lparr>pt_l1d_loads := pt_l1d_loads t + v\<rparr>"
| "add_total L1DLoadMisses v t = t\<lparr>pt_l1d_load_misses := pt_l1d_load_misses t + v\<rparr>"
| "add_total L1DStores v t = t\<lparr>pt_l1d_stores := pt_l1d_stores t + v\<rparr>"
| "add_total LLCLoads v t = t\<lparr>pt_llc_loads := pt_llc_loads t + v\<rparr>"
| "add_total LLCLoadMisses v t = t\<lparr>pt_llc_load_misses := pt_llc_load_misses t + v\<rparr>"
| "add_total LLCStores v t = t\<lparr>pt_llc_stores := pt_llc_stores t + v\<rparr>"
| "add_total LLCStoreMisses v t = t\<lparr>pt_llc_store_misses := pt_llc_store_misses t + v\<rparr>"

definition accumulate_counter ::
  "'k perf_kernel \<Rightarrow> perf_event \<Rightarrow> pmu_totals \<times> 'k pmu \<Rightarrow> pmu_totals \<times> 'k pmu"
where
  "accumulate_counter K e ts =
     (let (t, s) = ts; (c, s') = pmu_counter K e s; (v, k) = perf_read_value K c (pm_kernel s')
      in (add_total e v t, s'\<lparr>pm_kernel := k\<rparr>))"

definition accumulate_enabled_pmu_counters ::
  "'k perf_kernel \<Rightarrow> string option \<Rightarrow> pmu_totals \<times> 'k pmu \<Rightarrow> pmu_totals \<times> 'k pmu"
where
  "accumulate_enabled_pmu_counters K env ts =
     (let f = accumulate_counter K;
          t0 = (fst ts)\<lparr>pt_calls := pt_calls (fst ts) + 1\<rparr>;
          s1 = when_enabled env ''core'' f core_events (t0, snd ts);
          s2 = when_enabled env ''cache'' f cache_events s1;
          s3 = when_enabled env ''l1d'' f l1d_events s2
      in when_enabled env ''llc'' f llc_events s3)"

definition scope_begin :: "'k perf_kernel \<Rightarrow> string option \<Rightarrow> 'k pmu \<Rightarrow> 'k pmu" where
  "scope_begin K env s = enable_enabled_pmu_counters K env (reset_enabled_pmu_counters K env s)"

definition scope_end ::
  "'k perf_kernel \<Rightarrow> string option \<Rightarrow> pmu_totals \<times> 'k pmu \<Rightarrow> pmu_totals \<times> 'k pmu"
where
  "scope_end K env ts =
     accumulate_enabled_pmu_counters K env (fst ts, disable_enabled_pmu_counters K env (snd ts))"

section \<open>The report\<close>

definition pmu_ratio :: "u64 \<Rightarrow> u64 \<Rightarrow> double" where
  "pmu_ratio numerator denominator =
     (if denominator = 0 then Fin False 0
      else fdiv (fmul (Fin False 100) (dbl_of_u64 numerator)) (dbl_of_u64 denominator))"

definition pmu_per_call :: "u64 \<Rightarrow> u64 \<Rightarrow> double" where
  "pmu_per_call value calls =
     (if calls = 0 then Fin False 0 else fdiv (dbl_of_u64 value) (dbl_of_u64 calls))"

definition pmu_counter_line :: "u64 \<Rightarrow> string \<Rightarrow> string option \<Rightarrow> string" where
  "pmu_counter_line value event comment =
     (case comment of
        Some c \<Rightarrow> pad_left 18 (dec_nat (unat value)) @ ''      '' @ pad_right 28 event @ '' # '' @ c @ newline
      | None \<Rightarrow> pad_left 18 (dec_nat (unat value)) @ ''      '' @ event @ newline)"

text \<open>A comment is written to a buffer of 96 characters, the last of which is the terminator.\<close>

definition pmu_comment :: "double \<Rightarrow> string \<Rightarrow> string option" where
  "pmu_comment x rest = Some (take 95 (fmt_fixed 2 x @ rest))"

definition pmu_report :: "string option \<Rightarrow> pmu_totals \<Rightarrow> string" where
  "pmu_report env t =
     (let group = pmu_group_name env
      in newline @ '' Performance counter stats for 'process_market_signal_and_order' '' @
         ''(NTS_PMU_GROUP='' @ group @ ''):'' @ newline @ newline @
         pmu_counter_line (pt_calls t) ''calls'' None @
         (if pmu_event_enabled env ''core'' then
            pmu_counter_line (pt_cycles t) ''cycles''
              (pmu_comment (pmu_per_call (pt_cycles t) (pt_calls t)) '' cycles per call'') @
            pmu_counter_line (pt_instructions t) ''instructions''
              (pmu_comment (if pt_cycles t = 0 then Fin False 0
                            else fdiv (dbl_of_u64 (pt_instructions t)) (dbl_of_u64 (pt_cycles t)))
                 '' insn per cycle'') @
            pmu_counter_line (pt_branches t) ''branches'' None @
            pmu_counter_line (pt_branch_misses t) ''branch-misses''
              (pmu_comment (pmu_ratio (pt_branch_misses t) (pt_branches t)) ''% of all branches'') @
            pmu_counter_line (pt_page_faults t) ''page-faults'' None
          else []) @
         (if pmu_event_enabled env ''cache'' then
            pmu_counter_line (pt_cache_references t) ''cache-references'' None @
            pmu_counter_line (pt_cache_misses t) ''cache-misses''
              (pmu_comment (pmu_ratio (pt_cache_misses t) (pt_cache_references t)) ''% of all cache refs'')
          else []) @
         (if pmu_event_enabled env ''l1d'' then
            pmu_counter_line (pt_l1d_loads t) ''L1-dcache-loads'' None @
            pmu_counter_line (pt_l1d_load_misses t) ''L1-dcache-load-misses''
              (pmu_comment (pmu_ratio (pt_l1d_load_misses t) (pt_l1d_loads t)) ''% of all L1D loads'') @
            pmu_counter_line (pt_l1d_stores t) ''L1-dcache-stores'' None
          else []) @
         (if pmu_event_enabled env ''llc'' then
            pmu_counter_line (pt_llc_loads t) ''LLC-loads'' None @
            pmu_counter_line (pt_llc_load_misses t) ''LLC-load-misses''
              (pmu_comment (pmu_ratio (pt_llc_load_misses t) (pt_llc_loads t)) ''% of all LLC loads'') @
            pmu_counter_line (pt_llc_stores t) ''LLC-stores'' None @
            pmu_counter_line (pt_llc_store_misses t) ''LLC-store-misses''
              (pmu_comment (pmu_ratio (pt_llc_store_misses t) (pt_llc_stores t)) ''% of all LLC stores'')
          else []) @
         (if \<not> pmu_group_is env ''core'' \<and> \<not> pmu_group_is env ''cache'' \<and> \<not> pmu_group_is env ''l1d'' \<and>
             \<not> pmu_group_is env ''llc'' \<and> \<not> pmu_group_is env ''all''
          then newline @ '' [pmu] unknown NTS_PMU_GROUP='' @ group @
               ''; valid values: core, cache, l1d, llc, all. No counters were enabled.'' @ newline
          else []) @
         newline)"

end
