(* ===== verification/Civil_Time.thy ===== *)
theory Civil_Time
  imports C_Text
begin

text \<open>
  \<open>utc_timestamp\<close> of \<open>src/pipeline_utils.cpp\<close>, which names the saved reports: \<open>gmtime_r\<close> of the C library
  on seconds since 1970, and the text of fifteen characters made of it. The result of \<open>time\<close> is an
  argument.
\<close>

section \<open>The calendar\<close>

text \<open>Which of the consecutive periods of lengths \<open>len i\<close>, \<open>len (i + 1)\<close>, ... the unit \<open>n\<close> falls into, and where.\<close>

function locate :: "(nat \<Rightarrow> nat) \<Rightarrow> nat \<Rightarrow> nat \<Rightarrow> nat \<times> nat" where
  "locate len i n = (if n < len i \<or> len i = 0 then (i, n) else locate len (i + 1) (n - len i))"
  by pat_completeness auto

termination
  by (relation "measure (\<lambda>(len, i, n). n)") auto

declare locate.simps [simp del]

definition leap_year :: "nat \<Rightarrow> bool" where
  "leap_year y = (y mod 4 = 0 \<and> (y mod 100 \<noteq> 0 \<or> y mod 400 = 0))"

definition year_length :: "nat \<Rightarrow> nat" where
  "year_length y = (if leap_year y then 366 else 365)"

definition month_length :: "nat \<Rightarrow> nat \<Rightarrow> nat" where
  "month_length y m =
     (if m = 1 then (if leap_year y then 29 else 28) else if m \<in> {3, 5, 8, 10} then 30 else 31)"

record tm =
  tm_sec :: nat
  tm_min :: nat
  tm_hour :: nat
  tm_mday :: nat
  tm_mon :: nat
  tm_year :: nat

definition gmtime :: "nat \<Rightarrow> tm" where
  "gmtime now =
     (let (y, yday) = locate year_length 1970 (now div 86400);
          (m, d) = locate (month_length y) 0 yday; s = now mod 86400
      in \<lparr>tm_sec = s mod 60, tm_min = s div 60 mod 60, tm_hour = s div 3600, tm_mday = d + 1, tm_mon = m,
          tm_year = y - 1900\<rparr>)"

definition utc_timestamp :: "nat \<Rightarrow> string" where
  "utc_timestamp now =
     (let t = gmtime now
      in take 31 (zero_pad 4 (dec_nat (tm_year t + 1900)) @ zero_pad 2 (dec_nat (tm_mon t + 1)) @
                  zero_pad 2 (dec_nat (tm_mday t)) @ ''T'' @ zero_pad 2 (dec_nat (tm_hour t)) @
                  zero_pad 2 (dec_nat (tm_min t)) @ zero_pad 2 (dec_nat (tm_sec t))))"

section \<open>Periods keep the order\<close>

lemma locate_ge: "i \<le> fst (locate len i n)"
  by (induction len i n rule: locate.induct) (subst locate.simps, auto)

lemma locate_within: "\<forall>j. 0 < len j \<Longrightarrow> snd (locate len i n) < len (fst (locate len i n))"
  by (induction len i n rule: locate.induct) (subst (1 2) locate.simps, auto)

lemma locate_bound: "\<forall>j. c \<le> len j \<Longrightarrow> fst (locate len i n) * c \<le> i * c + n"
proof (induction len i n rule: locate.induct)
  case (1 len i n)
  show ?case
  proof (cases "n < len i \<or> len i = 0")
    case False
    then have "fst (locate len i n) * c \<le> (i + 1) * c + (n - len i)"
      using 1 by (subst locate.simps) simp
    moreover have "c \<le> len i" "len i \<le> n" using "1.prems" False by auto
    ultimately show ?thesis by (simp add: algebra_simps)
  qed (subst locate.simps, simp)
qed

definition earlier :: "nat \<times> nat \<Rightarrow> nat \<times> nat \<Rightarrow> bool" where
  "earlier a b = (fst a < fst b \<or> (fst a = fst b \<and> snd a < snd b))"

lemma locate_mono: "\<forall>j. 0 < len j \<Longrightarrow> n < n' \<Longrightarrow> earlier (locate len i n) (locate len i n')"
proof (induction len i n arbitrary: n' rule: locate.induct)
  case (1 len i n)
  have pos: "len i \<noteq> 0" using "1.prems"(1) by simp
  show ?case
  proof (cases "n < len i")
    case True
    then have l: "locate len i n = (i, n)" by (subst locate.simps) simp
    show ?thesis
    proof (cases "n' < len i")
      case True
      then have "locate len i n' = (i, n')" by (subst locate.simps) simp
      with l "1.prems"(2) show ?thesis by (simp add: earlier_def)
    next
      case False
      then have "locate len i n' = locate len (i + 1) (n' - len i)" using pos by (subst locate.simps) simp
      with l locate_ge [of "i + 1" len "n' - len i"] show ?thesis by (simp add: earlier_def)
    qed
  next
    case False
    then have "locate len i n = locate len (i + 1) (n - len i)" "locate len i n' = locate len (i + 1) (n' - len i)"
      using pos "1.prems"(2) by (subst locate.simps, simp)+
    moreover have "n - len i < n' - len i" using False "1.prems"(2) by simp
    ultimately show ?thesis using "1.IH" "1.prems"(1) False pos by simp
  qed
qed

section \<open>Fixed-width numbers keep the order\<close>

text \<open>Strings compared character by character, as a directory listing sorts them.\<close>

definition char_less :: "(char \<times> char) set" where
  "char_less = {(c, d). (of_char c :: nat) < of_char d}"

definition sorts_before :: "string \<Rightarrow> string \<Rightarrow> bool" where
  "sorts_before s t = ((s, t) \<in> lexord char_less)"

lemma char_less_digit: "m < 10 \<Longrightarrow> n < 10 \<Longrightarrow> m < n \<Longrightarrow> (digit_char m, digit_char n) \<in> char_less"
  by (simp add: char_less_def digit_char_def)

lemma sorts_before_append: "sorts_before s t \<Longrightarrow> length s = length t \<Longrightarrow> sorts_before (s @ x) (t @ y)"
  unfolding sorts_before_def by (rule lexord_sufI) auto

lemma sorts_before_same: "sorts_before x y \<Longrightarrow> sorts_before (s @ x) (s @ y)"
  unfolding sorts_before_def by (rule lexord_append_leftI)

lemma zero_pad_Suc:
  assumes "n < 10 ^ Suc (Suc k)"
  shows "zero_pad (Suc (Suc k)) (dec_nat n) = zero_pad (Suc k) (dec_nat (n div 10)) @ [digit_char (n mod 10)]"
proof (cases "n < 10")
  case True
  then have "dec_nat n = [digit_char n]" "dec_nat (n div 10) = [digit_char 0]"
    by (subst dec_nat.simps, simp)+
  moreover have "digit_char 0 = CHR ''0''" by code_simp
  ultimately show ?thesis using True by (simp add: zero_pad_def replicate_append_same)
next
  case False
  then have "dec_nat n = dec_nat (n div 10) @ [digit_char (n mod 10)]" by (subst dec_nat.simps) simp
  then show ?thesis by (simp add: zero_pad_def)
qed

lemma length_zero_pad: "n < 10 ^ k \<Longrightarrow> 0 < k \<Longrightarrow> length (zero_pad k (dec_nat n)) = k"
  using length_dec_nat [of n k] by (simp add: zero_pad_def)

lemma zero_pad_mono:
  "m < n \<Longrightarrow> n < 10 ^ Suc k \<Longrightarrow> sorts_before (zero_pad (Suc k) (dec_nat m)) (zero_pad (Suc k) (dec_nat n))"
proof (induction k arbitrary: m n)
  case 0
  then have "dec_nat m = [digit_char m]" "dec_nat n = [digit_char n]" by (subst dec_nat.simps, simp)+
  then show ?case using 0 by (simp add: zero_pad_def sorts_before_def char_less_digit)
next
  case (Suc k)
  have e: "zero_pad (Suc (Suc k)) (dec_nat j) = zero_pad (Suc k) (dec_nat (j div 10)) @ [digit_char (j mod 10)]"
    if "j < 10 ^ Suc (Suc k)" for j using that by (rule zero_pad_Suc)
  have m: "m < 10 ^ Suc (Suc k)" using Suc.prems by simp
  show ?case
  proof (cases "m div 10 < n div 10")
    case True
    have "n div 10 < 10 ^ Suc k" "m div 10 < 10 ^ Suc k" using Suc.prems by (simp_all add: less_mult_imp_div_less)
    with Suc.IH [OF True] show ?thesis
      by (simp add: e [OF m] e [OF Suc.prems(2)] sorts_before_append length_zero_pad del: power_Suc)
  next
    case False
    with Suc.prems have d: "m div 10 = n div 10" by (metis div_le_mono le_neq_implies_less less_imp_le)
    then have "m mod 10 < n mod 10" using Suc.prems(1) by (metis add_less_cancel_left div_mult_mod_eq)
    then have "sorts_before [digit_char (m mod 10)] [digit_char (n mod 10)]"
      by (simp add: sorts_before_def char_less_digit)
    then show ?thesis by (simp add: e [OF m] e [OF Suc.prems(2)] d sorts_before_same del: power_Suc)
  qed
qed

text \<open>A number of fixed width before more text.\<close>

lemma field_order:
  assumes "a < b \<or> (a = b \<and> sorts_before x y)" "a < 10 ^ Suc k" "b < 10 ^ Suc k"
  shows "sorts_before (zero_pad (Suc k) (dec_nat a) @ x) (zero_pad (Suc k) (dec_nat b) @ y)"
  using assms(1)
proof
  assume "a < b"
  then show ?thesis
    using zero_pad_mono [OF _ assms(3)] length_zero_pad [OF assms(2)] length_zero_pad [OF assms(3)]
    by (intro sorts_before_append) auto
next
  assume "a = b \<and> sorts_before x y"
  then show ?thesis by (simp add: sorts_before_same)
qed

section \<open>Names of reports\<close>

lemma clock_order:
  assumes "s < s'"
  shows "s div 3600 < s' div 3600 \<or> (s div 3600 = s' div 3600 \<and>
    (s div 60 mod 60 < s' div 60 mod 60 \<or> (s div 60 mod 60 = s' div 60 mod 60 \<and> s mod 60 < (s' :: nat) mod 60)))"
proof -
  have h: "a = a div 3600 * 3600 + a div 60 mod 60 * 60 + a mod 60" for a :: nat
  proof -
    have "a div 60 = a div 60 div 60 * 60 + a div 60 mod 60" by simp
    moreover have "a div 60 div 60 = a div 3600" by (simp add: div_mult2_eq [symmetric])
    ultimately have "a div 60 * 60 = a div 3600 * 3600 + a div 60 mod 60 * 60" by (simp add: algebra_simps)
    then show ?thesis by (metis div_mult_mod_eq)
  qed
  have "s div 3600 \<le> s' div 3600" using assms by (simp add: div_le_mono)
  moreover have "s div 60 mod 60 \<le> s' div 60 mod 60" if "s div 3600 = s' div 3600"
  proof -
    have "s div 60 \<le> s' div 60" using assms by (simp add: div_le_mono)
    moreover have "s div 60 div 60 = s' div 60 div 60" using that by (simp add: div_mult2_eq [symmetric])
    ultimately show ?thesis by (metis add_le_cancel_left div_mult_mod_eq)
  qed
  moreover have "s mod 60 < s' mod 60" if "s div 3600 = s' div 3600" "s div 60 mod 60 = s' div 60 mod 60"
    using h [of s] h [of s'] that assms by linarith
  ultimately show ?thesis by (meson le_neq_implies_less)
qed

lemma gmtime_bounds:
  assumes "t < 253234080000"
  shows "tm_year (gmtime t) + 1900 < 10 ^ Suc 3" "tm_mon (gmtime t) + 1 < 10 ^ Suc 1" "tm_mday (gmtime t) < 10 ^ Suc 1"
    "tm_hour (gmtime t) < 10 ^ Suc 1" "tm_min (gmtime t) < 10 ^ Suc 1" "tm_sec (gmtime t) < 10 ^ Suc 1"
    "tm_year (gmtime t) + 1900 = fst (locate year_length 1970 (t div 86400))"
proof -
  let ?l = "locate year_length 1970 (t div 86400)"
  let ?m = "locate (month_length (fst ?l)) 0 (snd ?l)"
  have "t div 86400 < 2930950" using assms by (simp add: less_mult_imp_div_less)
  moreover have "fst ?l * 365 \<le> 1970 * 365 + t div 86400"
    by (rule locate_bound) (simp add: year_length_def)
  moreover have "1970 \<le> fst ?l" by (rule locate_ge)
  ultimately show "tm_year (gmtime t) + 1900 < 10 ^ Suc 3" "tm_year (gmtime t) + 1900 = fst ?l"
    by (auto simp: gmtime_def Let_def split: prod.split)
  have "snd ?l < year_length (fst ?l)" by (rule locate_within) (simp add: year_length_def)
  then have "snd ?l < 366" by (simp add: year_length_def split: if_splits)
  moreover have "fst ?m * 28 \<le> 0 * 28 + snd ?l" by (rule locate_bound) (simp add: month_length_def)
  ultimately show "tm_mon (gmtime t) + 1 < 10 ^ Suc 1" by (auto simp: gmtime_def Let_def split: prod.split)
  have "snd ?m < month_length (fst ?l) (fst ?m)" by (rule locate_within) (simp add: month_length_def)
  then have "snd ?m < 31" by (simp add: month_length_def split: if_splits)
  then show "tm_mday (gmtime t) < 10 ^ Suc 1" by (auto simp: gmtime_def Let_def split: prod.split)
  have "t mod 86400 div 3600 < 24" by (simp add: less_mult_imp_div_less)
  then show "tm_hour (gmtime t) < 10 ^ Suc 1" by (auto simp: gmtime_def Let_def split: prod.split)
  have "t mod 86400 div 60 mod 60 < 60" "t mod 86400 mod 60 < 60" by simp_all
  then show "tm_min (gmtime t) < 10 ^ Suc 1" "tm_sec (gmtime t) < 10 ^ Suc 1"
    by (auto simp: gmtime_def Let_def split: prod.split)
qed

lemma gmtime_fields:
  "tm_mon (gmtime t) = fst (locate (month_length (fst (locate year_length 1970 (t div 86400)))) 0
     (snd (locate year_length 1970 (t div 86400))))"
  "tm_mday (gmtime t) = snd (locate (month_length (fst (locate year_length 1970 (t div 86400)))) 0
     (snd (locate year_length 1970 (t div 86400)))) + 1"
  "tm_hour (gmtime t) = t mod 86400 div 3600" "tm_min (gmtime t) = t mod 86400 div 60 mod 60"
  "tm_sec (gmtime t) = t mod 86400 mod 60"
  by (simp_all add: gmtime_def Let_def case_prod_beta)

text \<open>The six fields of the broken-down time, in the order they are written, order the times.\<close>

lemma gmtime_order:
  assumes "t < t'" "t' < 253234080000" "a = gmtime t" "b = gmtime t'"
  shows "tm_year a + 1900 < tm_year b + 1900 \<or> (tm_year a + 1900 = tm_year b + 1900 \<and>
     (tm_mon a + 1 < tm_mon b + 1 \<or> (tm_mon a + 1 = tm_mon b + 1 \<and>
     (tm_mday a < tm_mday b \<or> (tm_mday a = tm_mday b \<and>
     (tm_hour a < tm_hour b \<or> (tm_hour a = tm_hour b \<and>
     (tm_min a < tm_min b \<or> (tm_min a = tm_min b \<and> tm_sec a < tm_sec b)))))))))"
proof -
  let ?l = "locate year_length 1970 (t div 86400)" and ?l' = "locate year_length 1970 (t' div 86400)"
  let ?m = "locate (month_length (fst ?l)) 0 (snd ?l)" and ?m' = "locate (month_length (fst ?l')) 0 (snd ?l')"
  let ?s = "t mod 86400" and ?s' = "t' mod 86400"
  have t: "t < 253234080000" using assms by simp
  have a: "tm_year a + 1900 = fst ?l" "tm_mon a = fst ?m" "tm_mday a = snd ?m + 1"
      "tm_hour a = ?s div 3600" "tm_min a = ?s div 60 mod 60" "tm_sec a = ?s mod 60"
    unfolding assms(3) by (rule gmtime_bounds(7) [OF t] gmtime_fields)+
  have b: "tm_year b + 1900 = fst ?l'" "tm_mon b = fst ?m'" "tm_mday b = snd ?m' + 1"
      "tm_hour b = ?s' div 3600" "tm_min b = ?s' div 60 mod 60" "tm_sec b = ?s' mod 60"
    unfolding assms(4) by (rule gmtime_bounds(7) [OF assms(2)] gmtime_fields)+
  show ?thesis
  proof (cases "t div 86400 < t' div 86400")
    case True
    then have y: "earlier ?l ?l'" by (intro locate_mono) (simp_all add: year_length_def)
    from y consider "fst ?l < fst ?l'" | "fst ?l = fst ?l'" "snd ?l < snd ?l'" by (auto simp: earlier_def)
    then show ?thesis
    proof cases
      case 1
      then show ?thesis unfolding a b by (rule disjI1)
    next
      case 2
      have "earlier ?m ?m'"
        unfolding 2(1) using 2(2) by (intro locate_mono) (simp_all add: month_length_def)
      then have "fst ?m < fst ?m' \<or> (fst ?m = fst ?m' \<and> snd ?m < snd ?m')" by (simp add: earlier_def)
      then show ?thesis unfolding a b 2(1) by (elim disjE conjE) simp_all
    qed
  next
    case False
    then have "t div 86400 = t' div 86400" using assms(1) by (meson div_le_mono le_neq_implies_less less_imp_le)
    moreover from this have "?s < ?s'" using assms(1) by (metis add_less_cancel_left div_mult_mod_eq)
    ultimately show ?thesis unfolding a b using clock_order [of ?s ?s'] by simp
  qed
qed

lemma stamps_sort:
  assumes "y < y' \<or> (y = y' \<and> (mo < mo' \<or> (mo = mo' \<and> (d < d' \<or> (d = d' \<and> (h < h' \<or> (h = h' \<and>
      (mi < mi' \<or> (mi = mi' \<and> s < s')))))))))"
    and b: "y < 10 ^ Suc 3" "mo < 10 ^ Suc 1" "d < 10 ^ Suc 1" "h < 10 ^ Suc 1" "mi < 10 ^ Suc 1" "s < 10 ^ Suc 1"
    and b': "y' < 10 ^ Suc 3" "mo' < 10 ^ Suc 1" "d' < 10 ^ Suc 1" "h' < 10 ^ Suc 1" "mi' < 10 ^ Suc 1" "s' < 10 ^ Suc 1"
  shows "sorts_before
    (zero_pad (Suc 3) (dec_nat y) @ zero_pad (Suc 1) (dec_nat mo) @ zero_pad (Suc 1) (dec_nat d) @ ''T'' @
     zero_pad (Suc 1) (dec_nat h) @ zero_pad (Suc 1) (dec_nat mi) @ zero_pad (Suc 1) (dec_nat s) @ [])
    (zero_pad (Suc 3) (dec_nat y') @ zero_pad (Suc 1) (dec_nat mo') @ zero_pad (Suc 1) (dec_nat d') @ ''T'' @
     zero_pad (Suc 1) (dec_nat h') @ zero_pad (Suc 1) (dec_nat mi') @ zero_pad (Suc 1) (dec_nat s') @ [])"
proof -
  let ?S = "zero_pad (Suc 1) (dec_nat s) @ []" and ?S' = "zero_pad (Suc 1) (dec_nat s') @ []"
  let ?I = "zero_pad (Suc 1) (dec_nat mi) @ ?S" and ?I' = "zero_pad (Suc 1) (dec_nat mi') @ ?S'"
  let ?H = "zero_pad (Suc 1) (dec_nat h) @ ?I" and ?H' = "zero_pad (Suc 1) (dec_nat h') @ ?I'"
  let ?D = "zero_pad (Suc 1) (dec_nat d) @ ''T'' @ ?H" and ?D' = "zero_pad (Suc 1) (dec_nat d') @ ''T'' @ ?H'"
  let ?M = "zero_pad (Suc 1) (dec_nat mo) @ ?D" and ?M' = "zero_pad (Suc 1) (dec_nat mo') @ ?D'"
  have s: "sorts_before ?S ?S'" if "s < s'" using that b(6) b'(6) by (intro field_order) simp_all
  have mi: "sorts_before ?I ?I'" if "mi < mi' \<or> (mi = mi' \<and> s < s')"
    using that s by (intro field_order [OF _ b(5) b'(5)]) blast
  have h: "sorts_before (''T'' @ ?H) (''T'' @ ?H')" if "h < h' \<or> (h = h' \<and> (mi < mi' \<or> (mi = mi' \<and> s < s')))"
    using that mi by (intro sorts_before_same field_order [OF _ b(4) b'(4)]) blast
  have d: "sorts_before ?D ?D'"
    if "d < d' \<or> (d = d' \<and> (h < h' \<or> (h = h' \<and> (mi < mi' \<or> (mi = mi' \<and> s < s')))))"
    using that h by (intro field_order [OF _ b(3) b'(3)]) blast
  have m: "sorts_before ?M ?M'"
    if "mo < mo' \<or> (mo = mo' \<and> (d < d' \<or> (d = d' \<and> (h < h' \<or> (h = h' \<and> (mi < mi' \<or> (mi = mi' \<and> s < s')))))))"
    using that d by (intro field_order [OF _ b(2) b'(2)]) blast
  show ?thesis using assms(1) m by (intro field_order [OF _ b(1) b'(1)]) blast
qed

text \<open>
  C34. Report names sort by time. Until the year 9994 the name of a report has fifteen characters, and
  of two reports saved at different seconds the name of the earlier sorts first, so that a directory
  listing shows the reports in the order of the runs and no two seconds share a name.
\<close>

theorem report_names_sort:
  assumes "t < t'" "t' < 253234080000"
  shows "length (utc_timestamp t) = 15 \<and> length (utc_timestamp t') = 15 \<and>
         sorts_before (utc_timestamp t) (utc_timestamp t')"
proof -
  let ?f = "\<lambda>a. zero_pad (Suc 3) (dec_nat (tm_year a + 1900)) @ zero_pad (Suc 1) (dec_nat (tm_mon a + 1)) @
    zero_pad (Suc 1) (dec_nat (tm_mday a)) @ ''T'' @ zero_pad (Suc 1) (dec_nat (tm_hour a)) @
    zero_pad (Suc 1) (dec_nat (tm_min a)) @ zero_pad (Suc 1) (dec_nat (tm_sec a)) @ []"
  have len: "length (?f (gmtime u)) = 15" if "u < 253234080000" for u
    using gmtime_bounds [OF that] by (simp add: length_zero_pad del: power_Suc)
  have u: "utc_timestamp u = ?f (gmtime u)" if "u < 253234080000" for u
    using len [OF that] by (simp add: utc_timestamp_def Let_def eval_nat_numeral)
  have t: "t < 253234080000" using assms by simp
  have "sorts_before (?f (gmtime t)) (?f (gmtime t'))"
    by (rule stamps_sort [OF gmtime_order [OF assms refl refl] gmtime_bounds(1-6) [OF t] gmtime_bounds(1-6) [OF assms(2)]])
  then show ?thesis using len [OF t] len [OF assms(2)] u [OF t] u [OF assms(2)] by simp
qed

theorem report_names_sort_witness:
  "utc_timestamp 68169599 = ''19720228T235959'' \<and> utc_timestamp 68169600 = ''19720229T000000'' \<and>
   sorts_before (utc_timestamp 68169599) (utc_timestamp 68169600)"
proof -
  have "gmtime 68169599 = \<lparr>tm_sec = 59, tm_min = 59, tm_hour = 23, tm_mday = 28, tm_mon = 1, tm_year = 72\<rparr>"
    "gmtime 68169600 = \<lparr>tm_sec = 0, tm_min = 0, tm_hour = 0, tm_mday = 29, tm_mon = 1, tm_year = 72\<rparr>"
    by (simp_all add: gmtime_def locate.simps month_length_def leap_year_def year_length_def)
  moreover have "zero_pad 4 (dec_nat 1972) = ''1972''" "zero_pad 2 (dec_nat (Suc (Suc 0))) = ''02''" "zero_pad 2 (dec_nat 0) = ''00''"
    "zero_pad 2 (dec_nat 59) = ''59''" "zero_pad 2 (dec_nat 23) = ''23''" "zero_pad 2 (dec_nat 28) = ''28''"
    "zero_pad 2 (dec_nat 29) = ''29''"
    by code_simp+
  ultimately have "utc_timestamp 68169599 = ''19720228T235959''" "utc_timestamp 68169600 = ''19720229T000000''"
    by (simp_all add: utc_timestamp_def)
  then show ?thesis using report_names_sort [of 68169599 68169600] by simp
qed

end
