(* ===== verification/Reports.thy ===== *)
theory Reports
  imports Pipeline Stats PMU Civil_Time
begin

text \<open>
  What the program prints: the latency report of \<open>src/instrument/stats.cpp\<close>, the tick sampler report,
  the trading and ring reports of \<open>src/pipeline_utils.cpp\<close>, and what \<open>run_pipeline\<close> in \<open>src/main.cpp\<close>
  writes when its loop has ended, to \<open>stderr\<close> and to a file. A report is its text; \<open>None\<close> is a
  conversion that does not fit, as in the statistics it prints.
\<close>

section \<open>Latency report\<close>

definition stats_header :: string where
  "stats_header =
     ''  '' @ pad_right 42 ''Segment'' @ '' '' @ pad_left 8 ''Samples'' @ '' '' @ pad_left 8 ''Min'' @ '' '' @
     pad_left 8 ''P50'' @ '' '' @ pad_left 8 ''P90'' @ '' '' @ pad_left 8 ''P99'' @ '' '' @ pad_left 8 ''P99.9'' @ '' '' @
     pad_left 8 ''Max'' @ '' '' @ pad_left 8 ''Mean'' @ '' '' @ pad_left 10 ''StdDev'' @ newline @
     ''  '' @ replicate 120 (CHR ''-'') @ newline"

definition num8 :: "u64 \<Rightarrow> string" where
  "num8 v = '' '' @ pad_left 8 (dec_nat (unat v))"

definition stats_line :: "string \<Rightarrow> latency_stats \<Rightarrow> string" where
  "stats_line name st =
     (if ls_samples st = 0 then ''  '' @ pad_right 42 name @ '' '' @ pad_left 8 ''(no data)'' @ newline
      else
        ''  '' @ pad_right 42 name @ num8 (ls_samples st) @ num8 (ls_min_ns st) @ num8 (ls_p50_ns st) @
        num8 (ls_p90_ns st) @ num8 (ls_p99_ns st) @ num8 (ls_p999_ns st) @ num8 (ls_max_ns st) @
        num8 (ls_mean_ns st) @ '' '' @ pad_left 10 (fmt_fixed 1 (ls_stddev_ns st)) @ newline)"

definition report_rule :: string where
  "report_rule = replicate 79 (CHR ''='')"

definition count_with :: "hop \<Rightarrow> hop_tracer \<Rightarrow> nat" where
  "count_with h t = length (filter (\<lambda>r. has_hop r h) (all_traces t))"

fun segment_lines :: "double \<Rightarrow> hop_tracer \<Rightarrow> segment list \<Rightarrow> string option" where
  "segment_lines v t [] = Some []"
| "segment_lines v t (seg # segs) =
     (case compute v t (sg_from seg) (sg_to seg) of
        None \<Rightarrow> None
      | Some st \<Rightarrow> map_option (\<lambda>rest. stats_line (sg_name seg) st @ rest) (segment_lines v t segs))"

definition latency_report :: "double \<Rightarrow> hop_tracer \<Rightarrow> string option" where
  "latency_report v t =
     map_option (\<lambda>lines.
       newline @ report_rule @ newline @
       ''              NANOSECOND TRADING STACK '' @ [CHR 0xE2, CHR 0x80, CHR 0x94] @ '' LATENCY REPORT'' @ newline @
       report_rule @ newline @ newline @
       ''  Traces recorded: '' @ dec_nat (unat (trace_count t)) @ '' / '' @ dec_nat (unat (ht_capacity t)) @
       (if wrapped t then ''  (ring buffer wrapped, '' @ dec_nat (unat (ht_total_count t)) @ '' total traces)'' else []) @
       newline @ newline @
       ''  Traces with market data:  '' @ dec_nat (count_with RecvDone t) @ newline @
       ''  Traces with orders:       '' @ dec_nat (count_with OrderSent t) @ newline @
       ''  Traces with acks:         '' @ dec_nat (count_with AckProcessed t) @ newline @ newline @
       ''Per-Hop Latency (nanoseconds):'' @ newline @ stats_header @ lines @ newline @
       newline @ report_rule @ newline @ newline)
     (segment_lines v t per_hop_segments)"

section \<open>Tick samplers and rings\<close>

definition sampler_reserve :: "tick_sampler \<Rightarrow> tick_sampler" where
  "sampler_reserve s = s"

definition num_llu :: "u64 \<Rightarrow> string" where
  "num_llu v = dec_nat (unat v)"

definition tick_sampler_report :: "double \<Rightarrow> string \<Rightarrow> tick_sampler \<Rightarrow> string option" where
  "tick_sampler_report v name s =
     (let st = compute_tick_stats s
      in if ts_samples st = 0
         then Some (''[profile] '' @ name @ '': no samples'' @
                    (if ts_dropped st > 0 then '' ('' @ num_llu (ts_dropped st) @ '' dropped)'' else []) @ newline)
         else
           (case (ticks_to_ns v (ts_p50_ticks st), ticks_to_ns v (ts_p99_ticks st), ticks_to_ns v (ts_max_ticks st)) of
              (Some p50, Some p99, Some mx) \<Rightarrow>
                Some (''[profile] '' @ name @ '': samples='' @ num_llu (ts_samples st) @ '' dropped='' @
                      num_llu (ts_dropped st) @ '' | ticks min='' @ num_llu (ts_min_ticks st) @ '' p50='' @
                      num_llu (ts_p50_ticks st) @ '' mean='' @ num_llu (ts_mean_ticks st) @ '' p99='' @
                      num_llu (ts_p99_ticks st) @ '' max='' @ num_llu (ts_max_ticks st) @ '' | ns p50='' @
                      num_llu p50 @ '' p99='' @ num_llu p99 @ '' max='' @ num_llu mx @ newline)
            | _ \<Rightarrow> None))"

definition order_tick_ring_report :: "string \<Rightarrow> tick_ring \<Rightarrow> string" where
  "order_tick_ring_report name ring =
     ''[profile] '' @ name @ '': collisions='' @ num_llu (rg_collisions ring) @ newline"

section \<open>Trading report\<close>

definition hit_rate :: "oms \<Rightarrow> double" where
  "hit_rate st =
     (if m_accepted_orders st > 0
      then fdiv (fmul (Fin False 100) (dbl_of_u64 (m_filled_orders st))) (dbl_of_u64 (m_accepted_orders st))
      else Fin False 0)"

definition realized_pnl :: "l1_book \<Rightarrow> oms \<Rightarrow> double" where
  "realized_pnl book st = fsub (total_pnl (mid_price book) st) (liquidation_pnl st)"

definition num_u32 :: "u32 \<Rightarrow> string" where
  "num_u32 v = dec_nat (unat v)"

definition trading_report ::
  "md_receiver \<Rightarrow> md_receiver \<Rightarrow> oms \<Rightarrow> l1_book \<Rightarrow> double \<Rightarrow> u64 \<Rightarrow> string"
where
  "trading_report ref_md target_md st book elapsed_s iterations =
     newline @ ''[pipeline] stopped after '' @ fmt_fixed 2 elapsed_s @ '' seconds, '' @ num_llu iterations @
     '' iterations'' @ newline @
     ''[pipeline] reference packets: '' @ num_llu (mr_packets ref_md) @ '' recv, '' @ num_llu (mr_drops ref_md) @
     '' gaps | refs: '' @ num_llu (mr_references ref_md) @ newline @
     ''[pipeline] target MD packets: '' @ num_llu (mr_packets target_md) @ '' recv, '' @ num_llu (mr_drops target_md) @
     '' gaps | quotes: '' @ num_llu (mr_quotes target_md) @ newline @
     ''[pipeline] Orders: '' @ num_llu (m_order_count st) @ '' total, '' @ num_llu (m_accepted_orders st) @
     '' accepted, '' @ num_llu (m_filled_orders st) @ '' filled, '' @ num_llu (m_missed_ioc st) @
     '' missed IOC, '' @ num_llu (m_rejects st) @ '' rejected ('' @ fmt_fixed 1 (hit_rate st) @ ''% hit)'' @ newline @
     ''[pipeline] Fills:  '' @ num_llu (m_fills st) @ '' events, '' @ num_u32 (m_total_filled_qty st) @ '' qty ('' @
     num_llu (m_buy_fills st) @ '' buys / '' @ num_u32 (m_buy_qty st) @ '' buy qty, '' @ num_llu (m_sell_fills st) @
     '' sells / '' @ num_u32 (m_sell_qty st) @ '' sell qty)'' @ newline @
     ''[pipeline] PnL:    realized '' @ fmt_fixed 4 (realized_pnl book st) @ '', liquidation '' @
     fmt_fixed 4 (liquidation_pnl st) @ '', total '' @ fmt_fixed 4 (total_pnl (mid_price book) st) @ newline"

section \<open>The end of a run\<close>

text \<open>
  The reports of a build: \<open>None\<close> where the build has no such report. \<open>NTS_ENABLE_TRACING\<close> adds the
  latency report, \<open>NTS_ENABLE_PMU_PROFILE\<close> the counters.
\<close>

record 'tr report_build =
  rb_latency :: "('tr \<Rightarrow> string option) option"
  rb_pmu :: "string option"

definition traced_build :: "double \<Rightarrow> hop_tracer report_build" where
  "traced_build v = \<lparr>rb_latency = Some (latency_report v), rb_pmu = None\<rparr>"

definition plain_build :: "unit report_build" where
  "plain_build = \<lparr>rb_latency = None, rb_pmu = None\<rparr>"

definition elapsed_seconds :: "u64 \<Rightarrow> u64 \<Rightarrow> double" where
  "elapsed_seconds start_ns end_ns = fdiv (dbl_of_u64 (end_ns - start_ns)) (Fin False 1000000000)"

definition run_report ::
  "'tr report_build \<Rightarrow> u64 \<Rightarrow> u64 \<Rightarrow> pipeline \<times> 'tr \<Rightarrow> u64 \<Rightarrow> string option"
where
  "run_report rb start_ns end_ns pt iterations =
     (let (p, tr) = pt;
          rest = (case rb_pmu rb of None \<Rightarrow> [] | Some r \<Rightarrow> r) @
            trading_report (pp_ref_md p) (pp_target_md p) (pp_oms p) (pp_book p)
              (elapsed_seconds start_ns end_ns) iterations @
            order_tick_ring_report ''order_sent_ticks ring'' (pp_order_sent_ticks p) @
            order_tick_ring_report ''ack_received_ticks ring'' (pp_ack_received_ticks p)
      in case rb_latency rb of
           None \<Rightarrow> Some rest
         | Some f \<Rightarrow> map_option (\<lambda>latency. latency @ rest) (f tr))"

text \<open>
  What the end of \<open>run_pipeline\<close> does: the text on \<open>stderr\<close>, the directories created, and the file
  written. The arguments are the time when the file is named and the error text when \<open>fopen\<close> fails.
\<close>

record run_output =
  ro_stderr :: string
  ro_mkdirs :: "string list"
  ro_file :: "(string \<times> string) option"

definition report_path :: "nat \<Rightarrow> string" where
  "report_path now = live_results_dir @ ''/'' @ utc_timestamp now @ ''.txt''"

definition finish_run :: "bool \<Rightarrow> nat \<Rightarrow> string option \<Rightarrow> string \<Rightarrow> run_output" where
  "finish_run save_report now fopen_error report =
     (if \<not> save_report then \<lparr>ro_stderr = report, ro_mkdirs = [], ro_file = None\<rparr>
      else
        let dirs = mkdirs live_results_dir; path = report_path now
        in case fopen_error of
             Some e \<Rightarrow>
               \<lparr>ro_stderr = report @ ''fopen save report: '' @ e @ newline, ro_mkdirs = dirs, ro_file = None\<rparr>
           | None \<Rightarrow>
               \<lparr>ro_stderr = report @ ''[pipeline] report saved to '' @ path @ newline, ro_mkdirs = dirs,
                ro_file = Some (path, report)\<rparr>)"

section \<open>The program\<close>

text \<open>
  \<open>running\<close> is cleared by the handler of \<open>SIGINT\<close> and \<open>SIGTERM\<close>; \<open>SIGPIPE\<close> is ignored, so that a
  write to a closed connection fails instead of ending the program.
\<close>

datatype signal_name = SIGINT | SIGTERM | SIGPIPE

datatype signal_action = DefaultAction | Ignored | OnSignal

definition signal_setup :: "signal_name \<Rightarrow> signal_action" where
  "signal_setup s = (case s of SIGINT \<Rightarrow> OnSignal | SIGTERM \<Rightarrow> OnSignal | SIGPIPE \<Rightarrow> Ignored)"

definition on_signal :: "bool \<Rightarrow> bool" where
  "on_signal running = False"

text \<open>
  What \<open>main\<close> meets: the results of opening a receiver on a port and a group and of connecting to a
  host and a port, the clock, the iterations until a signal arrives, and the end of the run.
\<close>

record market_world =
  mw_md_init :: "u16 \<Rightarrow> string \<Rightarrow> int \<times> int \<times> int \<times> bool \<times> int"
  mw_connect :: "string \<Rightarrow> u16 \<Rightarrow> int \<times> int"
  mw_ns_per_tick :: double
  mw_start_ns :: u64
  mw_iterations :: "iteration list"
  mw_end_ns :: u64
  mw_now :: nat
  mw_fopen_error :: "string option"

definition open_receiver :: "market_world \<Rightarrow> u16 \<Rightarrow> string \<Rightarrow> bool \<times> md_receiver" where
  "open_receiver w port grp =
     (case mw_md_init w port grp of (a, b, c, d, e) \<Rightarrow> md_init a b c d e init_receiver)"

definition open_gateway :: "market_world \<Rightarrow> string \<Rightarrow> u16 \<Rightarrow> bool \<times> gateway" where
  "open_gateway w host port = (case mw_connect w host port of (a, b) \<Rightarrow> gw_connect a b init_gateway)"

definition live_line :: "args \<Rightarrow> string" where
  "live_line a =
     ''[pipeline] LIVE mode '' @ [CHR 0xE2, CHR 0x80, CHR 0x94] @ '' exchange='' @ ar_exchange_host a @ '':'' @
     dec_nat (unat (ar_order_port a)) @ '', ref='' @ ar_ref_group a @ '':'' @ dec_nat (unat (ar_ref_port a)) @
     '', md='' @ ar_md_group a @ '':'' @ dec_nat (unat (ar_md_port a)) @ '', duration='' @
     dec_int (sint (ar_duration_sec a)) @ ''s'' @ newline"

text \<open>
  How the program ends: a failed start, or a completed run with the bytes it sent, the state after
  closing, and its output. The messages of a failed start come from the receiver and the gateway.
\<close>

datatype program_end =
    StartFailed
  | RunEnded "u8 list" pipeline string "string list" "(string \<times> string) option"

definition exit_status :: "program_end \<Rightarrow> int" where
  "exit_status e = (case e of StartFailed \<Rightarrow> 1 | RunEnded _ _ _ _ _ \<Rightarrow> 0)"

definition close_all :: "pipeline \<Rightarrow> pipeline" where
  "close_all p =
     p\<lparr>pp_gateway := gw_close (pp_gateway p), pp_target_md := md_close (pp_target_md p),
       pp_ref_md := md_close (pp_ref_md p)\<rparr>"

definition nts_main ::
  "'tr tracer_api \<Rightarrow> 'tr report_build \<Rightarrow> 'tr \<Rightarrow> market_world \<Rightarrow> string list \<Rightarrow> program_end option"
where
  "nts_main api rb tracer w argv =
     (let a = parse_args argv;
          (ref_ok, ref_md) = open_receiver w (ar_ref_port a) (ar_ref_group a)
      in if \<not> ref_ok then Some StartFailed
         else
           let (md_ok, target_md) = open_receiver w (ar_md_port a) (ar_md_group a)
           in if \<not> md_ok then Some StartFailed
              else
                let (gw_ok, gw) = open_gateway w (ar_exchange_host a) (ar_order_port a)
                in if \<not> gw_ok then Some StartFailed
                   else
                     (case run_pipeline api (mw_ns_per_tick w) default_params (mw_start_ns w) (ar_duration_sec a)
                             (mw_iterations w) ref_md target_md gw tracer of
                        None \<Rightarrow> None
                      | Some (pt, iterations, sent) \<Rightarrow>
                          (case run_report rb (mw_start_ns w) (mw_end_ns w) pt iterations of
                             None \<Rightarrow> None
                           | Some report \<Rightarrow>
                               let out = finish_run (ar_save_report a) (mw_now w) (mw_fopen_error w) report
                               in Some (RunEnded sent (close_all (fst pt)) (live_line a @ ro_stderr out)
                                          (ro_mkdirs out) (ro_file out)))))"

end
