(* ===== verification/Report_Properties.thy ===== *)
theory Report_Properties
  imports Reports
begin

text \<open>
  What the program does from its command line to its exit, and what its reports say.
\<close>

section \<open>Figures\<close>

text \<open>A number in a report is read back by the C library.\<close>

lemma num_llu_reads_back: "uint v < 2 ^ 63 \<Longrightarrow> strtol (num_llu v) = uint v"
proof -
  assume v: "uint v < 2 ^ 63"
  have "num_llu v = dec_int (uint v)" by (simp add: num_llu_def dec_int_def)
  moreover have "- (2 ^ 63) \<le> uint v" by (rule order_trans [OF _ uint_ge_0]) simp
  ultimately show ?thesis using strtol_dec_int(1) [of "uint v"] v by simp
qed

lemma fsub_zero:
  assumes "wf_double a"
  shows "fsub a (Fin False 0) = a"
proof (cases a)
  case (Fin s x)
  with assms have x: "0 \<le> x" "representable x" "x < max_finite_bound" by auto
  have "mk_double s x = Fin s x"
    using x rnd_exact [of x] by (simp add: mk_double_alt)
  with Fin x show ?thesis by (auto simp: fsub_def of_rat_double_def)
qed (simp_all add: fsub_def)

text \<open>The figure called realized is the total, open position included.\<close>

lemma realized_is_total: "realized_pnl book st = total_pnl (mid_price book) st"
  by (simp add: realized_pnl_def liquidation_pnl_def fsub_zero total_pnl_def)

lemma hit_rate_bounded:
  assumes "m_filled_orders st \<le> m_accepted_orders st" "uint (m_accepted_orders st) \<le> 2 ^ 46"
  shows "\<exists>x. hit_rate st = Fin False x \<and> 0 \<le> x \<and> x \<le> 100"
proof (cases "m_accepted_orders st = 0")
  case True
  then show ?thesis by (simp add: hit_rate_def)
next
  case False
  define f where "f = uint (m_filled_orders st)"
  define a where "a = uint (m_accepted_orders st)"
  have b: "0 \<le> f" "f \<le> a" "a \<le> 2 ^ 46" "0 < a"
    using assms False by (simp_all add: f_def a_def word_le_def) (metis uint_0_iff uint_nonnegative order_le_less)
  have ex: "dbl_of_int n = Fin False (of_int n)" if "0 \<le> n" "n \<le> 2 ^ 46" for n
    using dbl_of_nonneg [of n] mk_double_int [of n False] that by simp
  have h: "hit_rate st = fdiv (fmul (Fin False 100) (Fin False (of_int f))) (Fin False (of_int a))"
    using False b ex [of f] ex [of a] by (simp add: hit_rate_def f_def a_def word_gt_0 del: of_int_uint)
  have m: "fmul (Fin False 100) (Fin False (of_int f)) = Fin False (of_int (100 * f))"
    using mk_double_int [of "100 * f" False] b by simp
  define q where "q = (of_int (100 * f) / of_int a :: rat)"
  have q: "0 \<le> q" "q \<le> of_int 100" using b by (simp_all add: q_def divide_le_eq)
  have r: "rnd q \<le> of_int 100" "0 \<le> rnd q"
    using rnd_mono [OF q] rnd_exact [OF representable_int, of 100] rnd_nonneg [OF q(1)] by simp_all
  have "mk_double False q = Fin False (rnd q)"
    using r(1) q(1) max_finite_bound_ge by (simp add: mk_double_alt)
  then have "hit_rate st = Fin False (rnd q)" unfolding h m using b by (simp add: q_def)
  then show ?thesis using r by simp
qed

section \<open>From the command line to the exit\<close>

definition all_open :: "market_world \<Rightarrow> args \<Rightarrow> bool" where
  "all_open w a =
     (fst (open_receiver w (ar_ref_port a) (ar_ref_group a)) \<and>
      fst (open_receiver w (ar_md_port a) (ar_md_group a)) \<and>
      fst (open_gateway w (ar_exchange_host a) (ar_order_port a)))"

definition all_closed :: "pipeline \<Rightarrow> bool" where
  "all_closed p =
     (mr_sockfd (pp_ref_md p) < 0 \<and> mr_sockfd (pp_target_md p) < 0 \<and> gw_sockfd (pp_gateway p) < 0 \<and>
      gw_buf (pp_gateway p) = [])"

lemma close_all_closed: "all_closed (close_all p)"
  by (simp add: all_closed_def close_all_def md_close_def gw_close_def)

lemma result_dirs: "mkdirs live_results_dir = [''results/'', ''results/live/'', ''results/live/linux'']"
  by code_simp

text \<open>What the end of a run leaves, given the report it printed.\<close>

definition saved :: "args \<Rightarrow> market_world \<Rightarrow> string \<Rightarrow> string list \<Rightarrow> (string \<times> string) option \<Rightarrow> bool" where
  "saved a w report dirs file =
     (if ar_save_report a
      then dirs = [''results/'', ''results/live/'', ''results/live/linux''] \<and>
           file = (if mw_fopen_error w = None
                   then Some (''results/live/linux/'' @ utc_timestamp (mw_now w) @ ''.txt'', report) else None)
      else dirs = [] \<and> file = None)"

lemma finish_run_saved:
  fixes a w report
  defines "out \<equiv> finish_run (ar_save_report a) (mw_now w) (mw_fopen_error w) report"
  shows "saved a w report (ro_mkdirs out) (ro_file out)" "\<exists>tail. ro_stderr out = report @ tail"
proof -
  have path: "report_path (mw_now w) = ''results/live/linux/'' @ utc_timestamp (mw_now w) @ ''.txt''"
    by (simp add: report_path_def live_results_dir_def)
  show "saved a w report (ro_mkdirs out) (ro_file out)"
    unfolding out_def finish_run_def saved_def path result_dirs
    by (cases "mw_fopen_error w") (simp_all add: Let_def)
  show "\<exists>tail. ro_stderr out = report @ tail"
    unfolding out_def finish_run_def by (cases "mw_fopen_error w") (simp_all add: Let_def)
qed


text \<open>A world in which everything opens and a signal stops the program at once.\<close>

definition quiet_world :: market_world where
  "quiet_world =
     \<lparr>mw_md_init = (\<lambda>port grp. (3, 0, 0, True, 0)), mw_connect = (\<lambda>host port. (5, 0)),
      mw_ns_per_tick = Fin False 1, mw_start_ns = 0, mw_iterations = [], mw_end_ns = 0, mw_now = 59,
      mw_fopen_error = None\<rparr>"


end
