(* ===== verification/PMU_Properties.thy ===== *)
theory PMU_Properties
  imports PMU
begin

text \<open>
  What a profile scope measures. The kernel is described by what its manual promises
  (\<open>perf_kernel_laws\<close>); the main lemma brackets the value that a scope adds to each total.
\<close>

section \<open>What the kernel promises\<close>

text \<open>
  \<open>view k fd\<close> is the attribute of an open descriptor, whether it is enabled, and its count. \<open>occ k a\<close>
  is how often the event of \<open>a\<close> has occurred in this thread. While time passes, a disabled counter
  stands still and an enabled one counts the occurrences; descriptors stay open.
\<close>

type_synonym 'k counter_view = "'k \<Rightarrow> int \<Rightarrow> (perf_attr \<times> bool \<times> u64) option"
type_synonym 'k occurrences = "'k \<Rightarrow> perf_attr \<Rightarrow> nat"

definition elapses_on :: "'k counter_view \<Rightarrow> 'k occurrences \<Rightarrow> int \<Rightarrow> 'k \<Rightarrow> 'k \<Rightarrow> bool" where
  "elapses_on view occ fd k k' =
     (\<forall>a en c. view k fd = Some (a, en, c) \<longrightarrow>
        view k' fd = Some (a, en, if en then c + of_nat (occ k' a - occ k a) else c))"

definition no_rewind :: "'k occurrences \<Rightarrow> 'k \<Rightarrow> 'k \<Rightarrow> bool" where
  "no_rewind occ k k' = (\<forall>a. occ k a \<le> occ k' a)"

definition elapses :: "'k counter_view \<Rightarrow> 'k occurrences \<Rightarrow> 'k \<Rightarrow> 'k \<Rightarrow> bool" where
  "elapses view occ k k' = (no_rewind occ k k' \<and> (\<forall>fd. elapses_on view occ fd k k'))"

text \<open>
  \<open>perf_event_open\<close> returns a fresh descriptor whose counter is disabled if the attribute says so and
  then stands at zero. \<open>ioctl\<close> affects its descriptor only: reset clears, enable starts the counter and
  disable stops it, at some moment of the call. \<open>read\<close> returns the count of a counter that stands still.
\<close>

definition open_law :: "'k perf_kernel \<Rightarrow> 'k counter_view \<Rightarrow> 'k occurrences \<Rightarrow> bool" where
  "open_law K view occ =
     (\<forall>a k. elapses view occ k (snd (k_open K a k)) \<and>
        (fst (k_open K a k) \<noteq> - 1 \<longrightarrow>
           view k (fst (k_open K a k)) = None \<and>
           (\<exists>c. view (snd (k_open K a k)) (fst (k_open K a k)) = Some (a, \<not> at_disabled a, c) \<and>
                (at_disabled a \<longrightarrow> c = 0))))"

definition ioctl_law :: "'k perf_kernel \<Rightarrow> 'k counter_view \<Rightarrow> 'k occurrences \<Rightarrow> bool" where
  "ioctl_law K view occ =
     (\<forall>q fd k. no_rewind occ k (k_ioctl K q fd k) \<and>
        (\<forall>fd'. fd' \<noteq> fd \<longrightarrow> elapses_on view occ fd' k (k_ioctl K q fd k)))"

definition reset_law :: "'k perf_kernel \<Rightarrow> 'k counter_view \<Rightarrow> bool" where
  "reset_law K view =
     (\<forall>fd k a c. view k fd = Some (a, False, c) \<longrightarrow> view (k_ioctl K IocReset fd k) fd = Some (a, False, 0))"

definition enable_law :: "'k perf_kernel \<Rightarrow> 'k counter_view \<Rightarrow> 'k occurrences \<Rightarrow> bool" where
  "enable_law K view occ =
     (\<forall>fd k a c. view k fd = Some (a, False, c) \<longrightarrow>
        (\<exists>m. occ k a \<le> m \<and> m \<le> occ (k_ioctl K IocEnable fd k) a \<and>
             view (k_ioctl K IocEnable fd k) fd =
               Some (a, True, c + of_nat (occ (k_ioctl K IocEnable fd k) a - m))))"

definition disable_law :: "'k perf_kernel \<Rightarrow> 'k counter_view \<Rightarrow> 'k occurrences \<Rightarrow> bool" where
  "disable_law K view occ =
     (\<forall>fd k a c. view k fd = Some (a, True, c) \<longrightarrow>
        (\<exists>m. occ k a \<le> m \<and> m \<le> occ (k_ioctl K IocDisable fd k) a \<and>
             view (k_ioctl K IocDisable fd k) fd = Some (a, False, c + of_nat (m - occ k a))))"

definition read_law :: "'k perf_kernel \<Rightarrow> 'k counter_view \<Rightarrow> 'k occurrences \<Rightarrow> bool" where
  "read_law K view occ =
     (\<forall>fd k. elapses view occ k (snd (k_read K fd k)) \<and>
        (\<forall>a c. view k fd = Some (a, False, c) \<longrightarrow> fst (k_read K fd k) = Some c))"

definition perf_kernel_laws :: "'k perf_kernel \<Rightarrow> 'k counter_view \<Rightarrow> 'k occurrences \<Rightarrow> bool" where
  "perf_kernel_laws K view occ =
     (open_law K view occ \<and> ioctl_law K view occ \<and> reset_law K view \<and> enable_law K view occ \<and>
      disable_law K view occ \<and> read_law K view occ)"

section \<open>Groups\<close>

text \<open>The groups as the usage documentation lists them.\<close>

fun group_of :: "perf_event \<Rightarrow> string" where
  "group_of CpuCycles = ''core''"
| "group_of Instructions = ''core''"
| "group_of Branches = ''core''"
| "group_of BranchMisses = ''core''"
| "group_of PageFaults = ''core''"
| "group_of CacheReferences = ''cache''"
| "group_of CacheMisses = ''cache''"
| "group_of L1DLoads = ''l1d''"
| "group_of L1DLoadMisses = ''l1d''"
| "group_of L1DStores = ''l1d''"
| "group_of LLCLoads = ''llc''"
| "group_of LLCLoadMisses = ''llc''"
| "group_of LLCStores = ''llc''"
| "group_of LLCStoreMisses = ''llc''"

definition selected :: "string option \<Rightarrow> perf_event \<Rightarrow> bool" where
  "selected env e = (pmu_group_name env = ''all'' \<or> pmu_group_name env = group_of e)"

definition enabled_events :: "string option \<Rightarrow> perf_event list" where
  "enabled_events env =
     (if pmu_event_enabled env ''core'' then core_events else []) @
     (if pmu_event_enabled env ''cache'' then cache_events else []) @
     (if pmu_event_enabled env ''l1d'' then l1d_events else []) @
     (if pmu_event_enabled env ''llc'' then llc_events else [])"

lemmas group_defs = pmu_event_enabled_def pmu_group_is_def core_events_def cache_events_def
  l1d_events_def llc_events_def

lemma set_enabled_events: "e \<in> set (enabled_events env) \<longleftrightarrow> selected env e"
  by (cases e) (auto simp: enabled_events_def selected_def group_defs)

lemma distinct_enabled_events: "distinct (enabled_events env)"
  by (auto simp: enabled_events_def group_defs)

lemma reset_enabled_fold: "reset_enabled_pmu_counters K env s = fold (on_counter K perf_reset) (enabled_events env) s"
  by (simp add: reset_enabled_pmu_counters_def when_enabled_def enabled_events_def Let_def)

lemma enable_enabled_fold: "enable_enabled_pmu_counters K env s = fold (on_counter K perf_enable) (enabled_events env) s"
  by (simp add: enable_enabled_pmu_counters_def when_enabled_def enabled_events_def Let_def)

lemma disable_enabled_fold: "disable_enabled_pmu_counters K env s = fold (on_counter K perf_disable) (enabled_events env) s"
  by (simp add: disable_enabled_pmu_counters_def when_enabled_def enabled_events_def Let_def)

lemma accumulate_enabled_fold:
  "accumulate_enabled_pmu_counters K env (t, s) =
     fold (accumulate_counter K) (enabled_events env) (t\<lparr>pt_calls := pt_calls t + 1\<rparr>, s)"
  by (simp add: accumulate_enabled_pmu_counters_def when_enabled_def enabled_events_def Let_def)

lemma total_of_add_total [simp]: "total_of e (add_total e' v t) = (if e = e' then total_of e t + v else total_of e t)"
  by (cases e'; cases e) simp_all

lemma total_of_calls [simp]: "total_of e (t\<lparr>pt_calls := n\<rparr>) = total_of e t"
  by (cases e) simp_all

lemma calls_add_total [simp]: "pt_calls (add_total e v t) = pt_calls t"
  by (cases e) simp_all

section \<open>A pass over distinct events\<close>

text \<open>
  A step \<open>f e\<close> that takes \<open>e\<close> from phase \<open>P\<close> to phase \<open>Q\<close> and leaves the phases of the other events
  alone takes every event of a distinct list from \<open>P\<close> to \<open>Q\<close>.
\<close>

lemma fold_phases:
  assumes step: "\<And>e s. e \<in> set es \<Longrightarrow> I s \<Longrightarrow> P s e \<Longrightarrow> I (f e s) \<and> Q (f e s) e"
    and keepP: "\<And>e e' s. e \<in> set es \<Longrightarrow> I s \<Longrightarrow> P s e \<Longrightarrow> e' \<noteq> e \<Longrightarrow> P s e' \<Longrightarrow> P (f e s) e'"
    and keepQ: "\<And>e e' s. e \<in> set es \<Longrightarrow> I s \<Longrightarrow> P s e \<Longrightarrow> e' \<noteq> e \<Longrightarrow> Q s e' \<Longrightarrow> Q (f e s) e'"
    and init: "distinct es" "I s" "\<forall>e \<in> set es. P s e"
  shows "I (fold f es s) \<and> (\<forall>e \<in> set es. Q (fold f es s) e)"
proof -
  have other: "Q (fold f xs s) e'" if "distinct xs" "e' \<notin> set xs" "I s" "\<forall>e \<in> set xs. P s e" "Q s e'" "set xs \<subseteq> set es"
    for xs s e'
    using that
  proof (induction xs arbitrary: s)
    case (Cons x xs)
    then have "I (f x s)" "Q (f x s) e'" using step [of x s] keepQ [of x s e'] by auto
    moreover have "P (f x s) e" if "e \<in> set xs" for e using Cons.prems that by (intro keepP) auto
    ultimately show ?case using Cons by simp
  qed simp
  have "I (fold f xs s) \<and> (\<forall>e \<in> set xs. Q (fold f xs s) e)"
    if "distinct xs" "I s" "\<forall>e \<in> set xs. P s e" "set xs \<subseteq> set es" for xs s
    using that
  proof (induction xs arbitrary: s)
    case (Cons x xs)
    then have "I (f x s)" "Q (f x s) x" using step [of x s] by auto
    moreover have "P (f x s) e" if "e \<in> set xs" for e using Cons.prems that by (intro keepP) auto
    ultimately show ?case using Cons other [of xs x "f x s"] by auto
  qed simp
  then show ?thesis using init by blast
qed

section \<open>Invariant and phases of a counter\<close>

text \<open>Every counter that was opened is open in the kernel, with its own descriptor.\<close>

definition pmu_ok :: "'k counter_view \<Rightarrow> 'k pmu \<Rightarrow> bool" where
  "pmu_ok view s =
     ((\<forall>e c. pm_counters s e = Some c \<longrightarrow> pc_fd c \<noteq> - 1 \<longrightarrow>
         (\<exists>en n. view (pm_kernel s) (pc_fd c) = Some (event_attr e, en, n))) \<and>
      (\<forall>e e' c c'. pm_counters s e = Some c \<longrightarrow> pm_counters s e' = Some c' \<longrightarrow> pc_fd c \<noteq> - 1 \<longrightarrow>
         pc_fd c = pc_fd c' \<longrightarrow> e = e'))"

definition idle :: "'k counter_view \<Rightarrow> 'k pmu \<Rightarrow> perf_event \<Rightarrow> bool" where
  "idle view s e =
     (\<forall>c. pm_counters s e = Some c \<longrightarrow> pc_fd c \<noteq> - 1 \<longrightarrow>
        (\<exists>n. view (pm_kernel s) (pc_fd c) = Some (event_attr e, False, n)))"

definition stands :: "'k counter_view \<Rightarrow> 'k pmu \<Rightarrow> perf_event \<Rightarrow> u64 \<Rightarrow> bool" where
  "stands view s e n =
     (\<exists>c. pm_counters s e = Some c \<and>
        (pc_fd c \<noteq> - 1 \<longrightarrow> view (pm_kernel s) (pc_fd c) = Some (event_attr e, False, n)))"

definition counting :: "'k counter_view \<Rightarrow> 'k occurrences \<Rightarrow> 'k pmu \<Rightarrow> perf_event \<Rightarrow> nat \<Rightarrow> bool" where
  "counting view occ s e m =
     (m \<le> occ (pm_kernel s) (event_attr e) \<and>
      (\<exists>c. pm_counters s e = Some c \<and>
         (pc_fd c \<noteq> - 1 \<longrightarrow>
            view (pm_kernel s) (pc_fd c) =
              Some (event_attr e, True, of_nat (occ (pm_kernel s) (event_attr e) - m)))))"

text \<open>What a step leaves of an event it does not concern.\<close>

definition passes :: "'k counter_view \<Rightarrow> 'k occurrences \<Rightarrow> 'k pmu \<Rightarrow> 'k pmu \<Rightarrow> perf_event \<Rightarrow> bool" where
  "passes view occ s s' e =
     (pm_counters s' e = pm_counters s e \<and> no_rewind occ (pm_kernel s) (pm_kernel s') \<and>
      (\<forall>c. pm_counters s e = Some c \<longrightarrow> pc_fd c \<noteq> - 1 \<longrightarrow>
         elapses_on view occ (pc_fd c) (pm_kernel s) (pm_kernel s')))"

lemma passes_idle: "passes view occ s s' e \<Longrightarrow> idle view s e \<Longrightarrow> idle view s' e"
  by (fastforce simp: passes_def idle_def elapses_on_def)

lemma passes_stands: "passes view occ s s' e \<Longrightarrow> stands view s e n \<Longrightarrow> stands view s' e n"
  by (fastforce simp: passes_def stands_def elapses_on_def)

lemma passes_counting:
  assumes "passes view occ s s' e" "counting view occ s e m"
  shows "counting view occ s' e m"
proof -
  let ?o = "occ (pm_kernel s) (event_attr e)" and ?o' = "occ (pm_kernel s') (event_attr e)"
  have le: "?o \<le> ?o'" using assms(1) by (simp add: passes_def no_rewind_def)
  have m: "m \<le> ?o" using assms(2) by (simp add: counting_def)
  have "of_nat (?o - m) + of_nat (?o' - ?o) = (of_nat (?o' - m) :: u64)"
    using le m by (simp flip: of_nat_add)
  then show ?thesis using assms le by (fastforce simp: passes_def counting_def elapses_on_def)
qed

lemma passes_ok:
  assumes ok: "pmu_ok view s" and p: "\<And>e. passes view occ s s' e"
  shows "pmu_ok view s'"
proof -
  have "\<exists>en n. view (pm_kernel s') (pc_fd c) = Some (event_attr e, en, n)"
    if c: "pm_counters s e = Some c" "pc_fd c \<noteq> - 1" for e c
  proof -
    obtain en n where "view (pm_kernel s) (pc_fd c) = Some (event_attr e, en, n)"
      using ok c unfolding pmu_ok_def by blast
    moreover have "elapses_on view occ (pc_fd c) (pm_kernel s) (pm_kernel s')"
      using p [of e] c by (simp add: passes_def)
    ultimately show ?thesis by (auto simp: elapses_on_def)
  qed
  moreover have "pm_counters s' = pm_counters s" using p by (auto simp: passes_def)
  ultimately show ?thesis using ok unfolding pmu_ok_def by simp
qed

lemma passes_trans:
  assumes "passes view occ s s' e" "passes view occ s' s'' e"
  shows "passes view occ s s'' e"
proof -
  have c: "of_nat (occ k' a - occ k a) + of_nat (occ k'' a - occ k' a) = (of_nat (occ k'' a - occ k a) :: u64)"
    if "no_rewind occ k k'" "no_rewind occ k' k''" for k k' k'' a
  proof -
    have "occ k a \<le> occ k' a" "occ k' a \<le> occ k'' a" using that by (simp_all add: no_rewind_def)
    then show ?thesis by (simp flip: of_nat_add)
  qed
  have "no_rewind occ (pm_kernel s) (pm_kernel s'')"
    using assms unfolding passes_def no_rewind_def by (meson le_trans)
  moreover have "elapses_on view occ fd (pm_kernel s) (pm_kernel s'')"
    if "elapses_on view occ fd (pm_kernel s) (pm_kernel s')" "elapses_on view occ fd (pm_kernel s') (pm_kernel s'')" for fd
    using that assms c [of "pm_kernel s" "pm_kernel s'" "pm_kernel s''"]
    by (simp add: elapses_on_def passes_def add.assoc)
  ultimately show ?thesis using assms by (auto simp: passes_def)
qed

section \<open>Steps\<close>

lemma pmu_counter_opens:
  assumes "perf_kernel_laws K view occ" "pmu_ok view s" "pmu_counter K e s = (c, s')"
  shows "pmu_ok view s'" "pm_counters s' e = Some c" "\<forall>e'. e' \<noteq> e \<longrightarrow> passes view occ s s' e'"
    "no_rewind occ (pm_kernel s) (pm_kernel s')"
    "(pm_counters s e = Some c \<and> s' = s) \<or> stands view s' e 0"
proof -
  have refl: "passes view occ s s e'" for e'
    by (simp add: passes_def no_rewind_def elapses_on_def)
  have "pmu_ok view s' \<and> pm_counters s' e = Some c \<and> (\<forall>e'. e' \<noteq> e \<longrightarrow> passes view occ s s' e') \<and>
        no_rewind occ (pm_kernel s) (pm_kernel s') \<and> ((pm_counters s e = Some c \<and> s' = s) \<or> stands view s' e 0)"
  proof (cases "pm_counters s e")
    case (Some c0)
    with assms refl show ?thesis by (auto simp: pmu_counter_def no_rewind_def)
  next
    case None
    obtain fd k where o: "k_open K (event_attr e) (pm_kernel s) = (fd, k)" by fastforce
    have el: "elapses view occ (pm_kernel s) k"
      and new: "fd \<noteq> - 1 \<Longrightarrow> view (pm_kernel s) fd = None \<and> view k fd = Some (event_attr e, False, 0)"
      using assms(1) o by (auto simp: perf_kernel_laws_def open_law_def event_attr_def dest!: spec [of _ "event_attr e"] spec [of _ "pm_kernel s"])
    have c: "pc_fd c = fd" and s': "pm_kernel s' = k" "pm_counters s' = (pm_counters s)(e \<mapsto> c)"
      using assms(3) None o by (auto simp: pmu_counter_def perf_init_def Let_def)
    have "passes view occ s s' e'" if "e' \<noteq> e" for e'
      using el s' that by (simp add: passes_def elapses_def)
    moreover have "pmu_ok view s'"
      using assms(2) el new unfolding pmu_ok_def s' elapses_def elapses_on_def c [symmetric]
      by (fastforce split: if_splits)
    ultimately show ?thesis using el new s' c by (simp add: stands_def elapses_def)
  qed
  then show "pmu_ok view s'" "pm_counters s' e = Some c" "\<forall>e'. e' \<noteq> e \<longrightarrow> passes view occ s s' e'"
    "no_rewind occ (pm_kernel s) (pm_kernel s')" "(pm_counters s e = Some c \<and> s' = s) \<or> stands view s' e 0"
    by blast+
qed

definition control :: "perf_request \<Rightarrow> 'k perf_kernel \<Rightarrow> perf_counter \<Rightarrow> 'k \<Rightarrow> 'k" where
  "control q K c k = (if pc_fd c \<noteq> - 1 then k_ioctl K q (pc_fd c) k else k)"

lemma perf_control:
  "perf_reset = control IocReset" "perf_enable = control IocEnable" "perf_disable = control IocDisable"
  by (auto simp: fun_eq_iff control_def perf_reset_def perf_enable_def perf_disable_def)

text \<open>A control call on an event that stays open keeps the invariant and passes the other events by.\<close>

lemma control_step:
  assumes laws: "perf_kernel_laws K view occ" and ok: "pmu_ok view s"
    and c: "pmu_counter K e s = (c, s1)" and s': "s' = on_counter K (control q) e s"
    and open': "pc_fd c \<noteq> - 1 \<Longrightarrow> \<exists>en n. view (pm_kernel s') (pc_fd c) = Some (event_attr e, en, n)"
  shows "pmu_ok view s' \<and> (\<forall>e'. e' \<noteq> e \<longrightarrow> passes view occ s s' e') \<and>
         no_rewind occ (pm_kernel s) (pm_kernel s1) \<and> no_rewind occ (pm_kernel s1) (pm_kernel s')"
proof -
  note opens = pmu_counter_opens [OF laws ok c]
  have k': "pm_kernel s' = control q K c (pm_kernel s1)" and cs: "pm_counters s' = pm_counters s1"
    using c s' by (simp_all add: on_counter_def)
  have nr: "no_rewind occ (pm_kernel s1) (pm_kernel s')"
    and el: "fd \<noteq> pc_fd c \<or> pc_fd c = - 1 \<Longrightarrow> elapses_on view occ fd (pm_kernel s1) (pm_kernel s')" for fd
    using laws unfolding k'
    by (auto simp: control_def perf_kernel_laws_def ioctl_law_def no_rewind_def elapses_on_def)
  have own: "pc_fd d \<noteq> pc_fd c" if "e' \<noteq> e" "pm_counters s1 e' = Some d" "pc_fd d \<noteq> - 1" for e' d
    using opens(1,2) that unfolding pmu_ok_def by metis
  have p1: "passes view occ s1 s' e'" if "e' \<noteq> e" for e'
    using nr el own that cs by (auto simp: passes_def)
  have "\<exists>en n. view (pm_kernel s') (pc_fd d) = Some (event_attr e', en, n)"
    if "pm_counters s1 e' = Some d" "pc_fd d \<noteq> - 1" for e' d
  proof (cases "e' = e")
    case True
    with that opens(2) open' show ?thesis by simp
  next
    case False
    with that opens(1) el own show ?thesis by (fastforce simp: pmu_ok_def elapses_on_def)
  qed
  then have "pmu_ok view s'" using opens(1) unfolding pmu_ok_def cs by auto
  then show ?thesis using opens(3,4) p1 nr passes_trans by blast
qed

lemma reset_step:
  assumes laws: "perf_kernel_laws K view occ" and ok: "pmu_ok view s" and "idle view s e"
  shows "pmu_ok view (on_counter K perf_reset e s) \<and> stands view (on_counter K perf_reset e s) e 0 \<and>
         (\<forall>e'. e' \<noteq> e \<longrightarrow> passes view occ s (on_counter K perf_reset e s) e') \<and>
         no_rewind occ (pm_kernel s) (pm_kernel (on_counter K perf_reset e s))"
proof -
  obtain c s1 where c: "pmu_counter K e s = (c, s1)" by fastforce
  note opens = pmu_counter_opens [OF laws ok c]
  have "\<exists>n. view (pm_kernel s1) (pc_fd c) = Some (event_attr e, False, n)" if "pc_fd c \<noteq> - 1"
    using opens(2,5) assms(3) that by (auto simp: idle_def stands_def)
  then have z: "view (pm_kernel (on_counter K perf_reset e s)) (pc_fd c) = Some (event_attr e, False, 0)" if "pc_fd c \<noteq> - 1"
    using laws c that by (auto simp: on_counter_def perf_control control_def perf_kernel_laws_def reset_law_def)
  then have "stands view (on_counter K perf_reset e s) e 0"
    using opens(2) c by (auto simp: stands_def on_counter_def)
  then show ?thesis
    using control_step [OF laws ok c refl, of IocReset] z unfolding perf_control no_rewind_def by (meson le_trans)
qed

lemma enable_step:
  assumes laws: "perf_kernel_laws K view occ" and ok: "pmu_ok view s" and "stands view s e 0"
  shows "pmu_ok view (on_counter K perf_enable e s) \<and>
         (\<exists>m \<ge> occ (pm_kernel s) (event_attr e). counting view occ (on_counter K perf_enable e s) e m) \<and>
         (\<forall>e'. e' \<noteq> e \<longrightarrow> passes view occ s (on_counter K perf_enable e s) e') \<and>
         no_rewind occ (pm_kernel s) (pm_kernel (on_counter K perf_enable e s))"
proof -
  let ?s' = "on_counter K perf_enable e s"
  obtain c where c0: "pm_counters s e = Some c" "pc_fd c \<noteq> - 1 \<Longrightarrow> view (pm_kernel s) (pc_fd c) = Some (event_attr e, False, 0)"
    using assms(3) by (auto simp: stands_def)
  have c: "pmu_counter K e s = (c, s)" using c0(1) by (simp add: pmu_counter_def)
  have k': "pm_kernel ?s' = control IocEnable K c (pm_kernel s)" "pm_counters ?s' e = Some c"
    using c c0(1) by (simp_all add: on_counter_def perf_control)
  have "\<exists>m. occ (pm_kernel s) (event_attr e) \<le> m \<and> m \<le> occ (pm_kernel ?s') (event_attr e) \<and>
          view (pm_kernel ?s') (pc_fd c) = Some (event_attr e, True, of_nat (occ (pm_kernel ?s') (event_attr e) - m))"
    if "pc_fd c \<noteq> - 1"
    using laws c0(2) that unfolding k' by (force simp: control_def perf_kernel_laws_def enable_law_def)
  then have m: "\<exists>m \<ge> occ (pm_kernel s) (event_attr e). counting view occ ?s' e m"
    and z: "pc_fd c \<noteq> - 1 \<Longrightarrow> \<exists>en n. view (pm_kernel ?s') (pc_fd c) = Some (event_attr e, en, n)"
    using k' by (cases "pc_fd c = - 1"; auto simp: counting_def control_def)+
  show ?thesis using control_step [OF laws ok c refl, of IocEnable] z m unfolding perf_control by blast
qed

lemma disable_step:
  assumes laws: "perf_kernel_laws K view occ" and ok: "pmu_ok view s" and "counting view occ s e m"
  shows "pmu_ok view (on_counter K perf_disable e s) \<and>
         (\<exists>b. occ (pm_kernel s) (event_attr e) \<le> b \<and> b \<le> occ (pm_kernel (on_counter K perf_disable e s)) (event_attr e) \<and>
              stands view (on_counter K perf_disable e s) e (of_nat (b - m))) \<and>
         (\<forall>e'. e' \<noteq> e \<longrightarrow> passes view occ s (on_counter K perf_disable e s) e') \<and>
         no_rewind occ (pm_kernel s) (pm_kernel (on_counter K perf_disable e s))"
proof -
  let ?s' = "on_counter K perf_disable e s" and ?a = "event_attr e"
  obtain c where c0: "pm_counters s e = Some c"
    "m \<le> occ (pm_kernel s) ?a \<and> (pc_fd c \<noteq> - 1 \<longrightarrow> view (pm_kernel s) (pc_fd c) = Some (?a, True, of_nat (occ (pm_kernel s) ?a - m)))"
    using assms(3) by (auto simp: counting_def)
  have c: "pmu_counter K e s = (c, s)" using c0(1) by (simp add: pmu_counter_def)
  have k': "pm_kernel ?s' = control IocDisable K c (pm_kernel s)" "pm_counters ?s' e = Some c"
    using c c0(1) by (simp_all add: on_counter_def perf_control)
  have b: "\<exists>b. occ (pm_kernel s) ?a \<le> b \<and> b \<le> occ (pm_kernel ?s') ?a \<and>
             view (pm_kernel ?s') (pc_fd c) = Some (?a, False, of_nat (b - m))" if fd: "pc_fd c \<noteq> - 1"
  proof -
    from laws c0(2) fd obtain b where b: "occ (pm_kernel s) ?a \<le> b" "b \<le> occ (pm_kernel ?s') ?a"
      "view (pm_kernel ?s') (pc_fd c) = Some (?a, False, of_nat (occ (pm_kernel s) ?a - m) + of_nat (b - occ (pm_kernel s) ?a))"
      unfolding k' by (force simp: control_def perf_kernel_laws_def disable_law_def)
    moreover have "of_nat (occ (pm_kernel s) ?a - m) + of_nat (b - occ (pm_kernel s) ?a) = (of_nat (b - m) :: u64)"
      using c0(2) fd b(1) by (simp flip: of_nat_add)
    ultimately show ?thesis by auto
  qed
  have "\<exists>b. occ (pm_kernel s) ?a \<le> b \<and> b \<le> occ (pm_kernel ?s') ?a \<and> stands view ?s' e (of_nat (b - m))"
  proof (cases "pc_fd c = - 1")
    case True
    then show ?thesis using k' by (auto simp: stands_def control_def)
  next
    case False
    with b k'(2) show ?thesis by (fastforce simp: stands_def)
  qed
  moreover have "pc_fd c \<noteq> - 1 \<Longrightarrow> \<exists>en n. view (pm_kernel ?s') (pc_fd c) = Some (?a, en, n)" using b by blast
  ultimately show ?thesis using control_step [OF laws ok c refl, of IocDisable] unfolding perf_control by blast
qed

lemma accumulate_step:
  assumes laws: "perf_kernel_laws K view occ" and ok: "pmu_ok view s" and "stands view s e n"
    and "accumulate_counter K e (t, s) = (t', s')"
  shows "pmu_ok view s' \<and> stands view s' e n \<and> (\<forall>e'. passes view occ s s' e') \<and>
         t' = add_total e (if pc_fd (the (pm_counters s e)) = - 1 then 0 else n) t"
proof -
  obtain c where c0: "pm_counters s e = Some c"
    "pc_fd c \<noteq> - 1 \<Longrightarrow> view (pm_kernel s) (pc_fd c) = Some (event_attr e, False, n)"
    using assms(3) by (auto simp: stands_def)
  have c: "pmu_counter K e s = (c, s)" using c0(1) by (simp add: pmu_counter_def)
  obtain v k where v: "perf_read_value K c (pm_kernel s) = (v, k)" by fastforce
  have el: "elapses view occ (pm_kernel s) k"
    using v laws by (auto simp: perf_read_value_def perf_kernel_laws_def read_law_def elapses_def no_rewind_def elapses_on_def
        split: if_splits prod.splits option.splits) (metis snd_conv)+
  have val: "v = (if pc_fd c = - 1 then 0 else n)"
    using v laws c0(2) by (auto simp: perf_read_value_def perf_kernel_laws_def read_law_def split: if_splits prod.splits)
      (metis fst_conv option.simps(5))
  have s': "t' = add_total e v t" "s' = s\<lparr>pm_kernel := k\<rparr>"
    using assms(4) c v by (auto simp: accumulate_counter_def)
  have p: "passes view occ s s' e'" for e' using el s' by (simp add: passes_def elapses_def)
  have "pmu_ok view s'" using ok p by (rule passes_ok)
  then show ?thesis using p passes_stands [OF p assms(3)] s' val c0(1) by simp
qed

section \<open>Scopes\<close>

text \<open>
  In a scope entered from \<open>s\<close> whose entry ended in \<open>s1\<close>: the selected counters run since a moment of
  the entry, the others stand still.
\<close>

definition begun ::
  "'k counter_view \<Rightarrow> 'k occurrences \<Rightarrow> string option \<Rightarrow> 'k pmu \<Rightarrow> 'k pmu \<Rightarrow> 'k pmu \<Rightarrow> bool"
where
  "begun view occ env s s1 s2 =
     (pmu_ok view s2 \<and> no_rewind occ (pm_kernel s) (pm_kernel s2) \<and>
      (\<forall>e. \<not> selected env e \<longrightarrow> idle view s2 e) \<and>
      (\<forall>e. selected env e \<longrightarrow>
         (\<exists>m. occ (pm_kernel s) (event_attr e) \<le> m \<and> m \<le> occ (pm_kernel s1) (event_attr e) \<and>
              counting view occ s2 e m)))"

lemma no_rewind_trans: "no_rewind occ k k' \<Longrightarrow> no_rewind occ k' k'' \<Longrightarrow> no_rewind occ k k''"
  unfolding no_rewind_def by (meson le_trans)

lemma no_rewindD: "no_rewind occ k k' \<Longrightarrow> n \<le> occ k a \<Longrightarrow> n \<le> occ k' a"
  unfolding no_rewind_def by (meson le_trans)

lemma scope_begin_begun:
  assumes laws: "perf_kernel_laws K view occ" and ok: "pmu_ok view s" and idle: "\<forall>e. idle view s e"
  shows "begun view occ env s (scope_begin K env s) (scope_begin K env s)"
proof -
  let ?E = "enabled_events env" and ?s1 = "reset_enabled_pmu_counters K env s"
  define I where "I = (\<lambda>s'. pmu_ok view s' \<and> no_rewind occ (pm_kernel s) (pm_kernel s') \<and>
    (\<forall>e. e \<notin> set ?E \<longrightarrow> idle view s' e))"
  have I0: "I s" using ok idle by (simp add: I_def no_rewind_def)
  have 1: "I ?s1 \<and> (\<forall>e \<in> set ?E. stands view ?s1 e 0)"
    unfolding reset_enabled_fold
  proof (rule fold_phases [where P = "idle view"])
    fix e s' assume e: "e \<in> set ?E" "I s'" "idle view s' e"
    note st = reset_step [OF laws _ e(3)]
    show "I (on_counter K perf_reset e s') \<and> stands view (on_counter K perf_reset e s') e 0"
      using e st passes_idle no_rewind_trans unfolding I_def by metis
    fix e' assume "e' \<noteq> e"
    with e st have "passes view occ s' (on_counter K perf_reset e s') e'" by (simp add: I_def)
    then show "idle view s' e' \<Longrightarrow> idle view (on_counter K perf_reset e s') e'"
      "stands view s' e' 0 \<Longrightarrow> stands view (on_counter K perf_reset e s') e' 0"
      using passes_idle passes_stands by blast+
  qed (use I0 idle distinct_enabled_events in auto)
  define Q where "Q = (\<lambda>s' e. \<exists>m \<ge> occ (pm_kernel s) (event_attr e). counting view occ s' e m)"
  have "I (scope_begin K env s) \<and> (\<forall>e \<in> set ?E. Q (scope_begin K env s) e)"
    unfolding scope_begin_def enable_enabled_fold
  proof (rule fold_phases [where P = "\<lambda>s e. stands view s e 0"])
    fix e s' assume e: "e \<in> set ?E" "I s'" "stands view s' e 0"
    note st = enable_step [OF laws _ e(3)]
    have "occ (pm_kernel s) (event_attr e) \<le> occ (pm_kernel s') (event_attr e)"
      using e(2) by (simp add: I_def no_rewind_def)
    then show "I (on_counter K perf_enable e s') \<and> Q (on_counter K perf_enable e s') e"
      using e st passes_idle no_rewind_trans le_trans unfolding I_def Q_def by metis
    fix e' assume "e' \<noteq> e"
    with e st have "passes view occ s' (on_counter K perf_enable e s') e'" by (simp add: I_def)
    then show "stands view s' e' 0 \<Longrightarrow> stands view (on_counter K perf_enable e s') e' 0"
      "Q s' e' \<Longrightarrow> Q (on_counter K perf_enable e s') e'"
      using passes_counting passes_stands unfolding Q_def by blast+
  qed (use 1 distinct_enabled_events in auto)
  then show ?thesis by (auto simp: begun_def I_def Q_def set_enabled_events counting_def)
qed

lemma region_begun:
  assumes "begun view occ env s s1 s1" "elapses view occ (pm_kernel s1) k"
  shows "begun view occ env s s1 (s1\<lparr>pm_kernel := k\<rparr>)"
proof -
  let ?s2 = "s1\<lparr>pm_kernel := k\<rparr>"
  have p: "passes view occ s1 ?s2 e" for e using assms(2) by (simp add: passes_def elapses_def)
  have "pmu_ok view ?s2" using assms(1) passes_ok p by (auto simp: begun_def)
  moreover have "no_rewind occ (pm_kernel s) (pm_kernel ?s2)"
    using assms no_rewind_trans by (auto simp: begun_def elapses_def)
  ultimately show ?thesis
    using assms(1) passes_idle [OF p] passes_counting [OF p] unfolding begun_def by blast
qed

text \<open>A number of occurrences between a moment of the entry and a moment of the exit.\<close>

definition measured ::
  "'k occurrences \<Rightarrow> 'k pmu \<Rightarrow> 'k pmu \<Rightarrow> 'k pmu \<Rightarrow> 'k pmu \<Rightarrow> perf_event \<Rightarrow> u64 \<Rightarrow> bool"
where
  "measured occ s s1 s2 s3 e n =
     (\<exists>a b. occ (pm_kernel s) (event_attr e) \<le> a \<and> a \<le> occ (pm_kernel s1) (event_attr e) \<and>
            occ (pm_kernel s2) (event_attr e) \<le> b \<and> b \<le> occ (pm_kernel s3) (event_attr e) \<and> n = of_nat (b - a))"

lemma measured_later:
  assumes "measured occ s s1 s2 s3 e n" "no_rewind occ (pm_kernel s3) (pm_kernel s4)"
  shows "measured occ s s1 s2 s4 e n"
  using assms no_rewindD [OF assms(2)] unfolding measured_def by blast

lemma disable_measures:
  assumes laws: "perf_kernel_laws K view occ" and begun: "begun view occ env s s1 s2"
    and s3: "s3 = disable_enabled_pmu_counters K env s2"
  shows "pmu_ok view s3 \<and> (\<forall>e. \<not> selected env e \<longrightarrow> idle view s3 e) \<and>
         no_rewind occ (pm_kernel s2) (pm_kernel s3) \<and>
         (\<forall>e. selected env e \<longrightarrow> (\<exists>n. stands view s3 e n \<and> measured occ s s1 s2 s3 e n))"
proof -
  let ?E = "enabled_events env" and ?f = "on_counter K perf_disable"
  define I where "I = (\<lambda>s'. pmu_ok view s' \<and> no_rewind occ (pm_kernel s2) (pm_kernel s') \<and>
    (\<forall>e. e \<notin> set ?E \<longrightarrow> idle view s' e))"
  define P where "P = (\<lambda>s' e. \<exists>m. occ (pm_kernel s) (event_attr e) \<le> m \<and>
    m \<le> occ (pm_kernel s1) (event_attr e) \<and> counting view occ s' e m)"
  define Q where "Q = (\<lambda>s' e. \<exists>n. stands view s' e n \<and> measured occ s s1 s2 s' e n)"
  have "I s3 \<and> (\<forall>e \<in> set ?E. Q s3 e)"
    unfolding s3 disable_enabled_fold
  proof (rule fold_phases [where P = P])
    fix e s' assume e: "e \<in> set ?E" "I s'" "P s' e"
    obtain m where m: "occ (pm_kernel s) (event_attr e) \<le> m" "m \<le> occ (pm_kernel s1) (event_attr e)"
      "counting view occ s' e m" using e(3) by (auto simp: P_def)
    have ok: "pmu_ok view s'" using e(2) by (simp add: I_def)
    note st = disable_step [OF laws ok m(3)]
    have "occ (pm_kernel s2) (event_attr e) \<le> occ (pm_kernel s') (event_attr e)"
      using e(2) by (simp add: I_def no_rewind_def)
    then have "Q (?f e s') e" using st m(1,2) le_trans unfolding Q_def measured_def by metis
    moreover have "I (?f e s')" using e st passes_idle no_rewind_trans unfolding I_def by metis
    ultimately show "I (?f e s') \<and> Q (?f e s') e" by blast
    fix e' assume "e' \<noteq> e"
    with st have p: "passes view occ s' (?f e s') e'" by simp
    then show "P s' e' \<Longrightarrow> P (?f e s') e'" using passes_counting unfolding P_def by blast
    show "Q s' e' \<Longrightarrow> Q (?f e s') e'"
      using passes_stands [OF p] measured_later st unfolding Q_def by metis
  qed (use begun distinct_enabled_events in \<open>auto simp: begun_def I_def P_def no_rewind_def set_enabled_events\<close>)
  then show ?thesis by (auto simp: I_def Q_def set_enabled_events)
qed

text \<open>What reading the counters adds to the totals; \<open>D e n\<close> says what the counter of \<open>e\<close> stands at.\<close>

definition descriptor :: "'k pmu \<Rightarrow> perf_event \<Rightarrow> int" where
  "descriptor s e = (case pm_counters s e of None \<Rightarrow> - 1 | Some c \<Rightarrow> pc_fd c)"

lemma accumulate_adds:
  assumes laws: "perf_kernel_laws K view occ" and ok: "pmu_ok view s"
    and idle: "\<forall>e. \<not> selected env e \<longrightarrow> idle view s e" and stand: "\<forall>e. selected env e \<longrightarrow> stands view s e (D e)"
    and acc: "accumulate_enabled_pmu_counters K env (t, s) = (t', s')"
  shows "pmu_ok view s' \<and> (\<forall>e. idle view s' e) \<and> pm_counters s' = pm_counters s \<and>
         no_rewind occ (pm_kernel s) (pm_kernel s') \<and> pt_calls t' = pt_calls t + 1 \<and>
         (\<forall>e. total_of e t' =
            (if selected env e \<and> descriptor s e \<noteq> - 1 then total_of e t + D e else total_of e t))"
proof -
  let ?E = "enabled_events env" and ?f = "accumulate_counter K"
  define I where "I = (\<lambda>ts. pmu_ok view (snd ts) \<and> (\<forall>e. passes view occ s (snd ts) e) \<and>
    pt_calls (fst ts) = pt_calls t + 1 \<and> (\<forall>e. e \<notin> set ?E \<longrightarrow> total_of e (fst ts) = total_of e t))"
  define P where "P = (\<lambda>ts e. stands view (snd ts) e (D e) \<and> total_of e (fst ts) = total_of e t)"
  define Q where "Q = (\<lambda>ts e. stands view (snd ts) e (D e) \<and>
    total_of e (fst ts) = total_of e t + (if descriptor s e \<noteq> - 1 then D e else 0))"
  have "I (t', s') \<and> (\<forall>e \<in> set ?E. Q (t', s') e)"
    unfolding acc [symmetric] accumulate_enabled_fold
  proof (rule fold_phases [where P = P])
    fix e ts assume e: "e \<in> set ?E" "I ts" "P ts e"
    obtain t1 s1 t2 s2 where ts: "ts = (t1, s1)" "?f e ts = (t2, s2)" by (metis surj_pair)
    have st: "pmu_ok view s2 \<and> stands view s2 e (D e) \<and> (\<forall>e'. passes view occ s1 s2 e') \<and>
      t2 = add_total e (if pc_fd (the (pm_counters s1 e)) = - 1 then 0 else D e) t1"
      using e ts by (intro accumulate_step [OF laws]) (auto simp: I_def P_def)
    have "pm_counters s1 e = pm_counters s e" "pm_counters s1 e \<noteq> None"
      using e ts by (auto simp: I_def P_def passes_def stands_def)
    then have d: "(pc_fd (the (pm_counters s1 e)) = - 1) = (descriptor s e = - 1)"
      by (auto simp: descriptor_def)
    have "I (?f e ts)" using e(1,2) ts st passes_trans by (fastforce simp: I_def)
    moreover have "Q (?f e ts) e" using e(3) ts st d by (simp add: P_def Q_def)
    ultimately show "I (?f e ts) \<and> Q (?f e ts) e" ..
    fix e' assume ne: "e' \<noteq> e"
    then show "P ts e' \<Longrightarrow> P (?f e ts) e'" "Q ts e' \<Longrightarrow> Q (?f e ts) e'"
      using ts st passes_stands by (fastforce simp: P_def Q_def)+
  qed (use stand distinct_enabled_events ok in \<open>auto simp: I_def P_def passes_def no_rewind_def elapses_on_def set_enabled_events\<close>)
  then have I: "I (t', s')" and Q: "\<And>e. selected env e \<Longrightarrow> Q (t', s') e" by (auto simp: set_enabled_events)
  have p: "passes view occ s s' e" for e using I by (simp add: I_def)
  have "idle view s' e" for e
    using passes_idle [OF p] idle Q [of e] by (cases "selected env e") (auto simp: Q_def stands_def idle_def)
  moreover have "pm_counters s' = pm_counters s" "no_rewind occ (pm_kernel s) (pm_kernel s')"
    using p by (auto simp: passes_def)
  moreover have "total_of e t' = (if selected env e \<and> descriptor s e \<noteq> - 1 then total_of e t + D e else total_of e t)" for e
    using I Q [of e] by (cases "selected env e") (simp_all add: I_def Q_def set_enabled_events)
  ultimately show ?thesis using I by (simp add: I_def)
qed

text \<open>
  A profile scope measures its region. For every kernel that keeps the promises of the manual and
  every region of code, a scope adds to the total of each event of the selected group the number of
  occurrences between a moment of the scope's entry and a moment of its exit, so at least those of
  the region and at most those of the whole scope (modulo the 64-bit width); the totals of the other
  events, and of events the kernel refused to open, do not change; one call is counted; and all
  counters stand still again, each with a descriptor of its own, ready for the next scope.
\<close>

lemma scope_counts_region:
  assumes "perf_kernel_laws K view occ" "\<forall>k. elapses view occ k (w k)"
    "pmu_ok view s" "\<forall>e. idle view s e"
    "s1 = scope_begin K env s" "s2 = s1\<lparr>pm_kernel := w (pm_kernel s1)\<rparr>" "(t', s3) = scope_end K env (t, s2)"
  shows "pmu_ok view s3 \<and> (\<forall>e. idle view s3 e) \<and> pt_calls t' = pt_calls t + 1 \<and>
    no_rewind occ (pm_kernel s) (pm_kernel s3) \<and>
    (\<forall>e. if selected env e \<and> descriptor s3 e \<noteq> - 1
         then \<exists>a b. occ (pm_kernel s) (event_attr e) \<le> a \<and> a \<le> occ (pm_kernel s1) (event_attr e) \<and>
                    occ (pm_kernel s2) (event_attr e) \<le> b \<and> b \<le> occ (pm_kernel s3) (event_attr e) \<and>
                    total_of e t' = total_of e t + of_nat (b - a)
         else total_of e t' = total_of e t)"
proof -
  let ?d = "disable_enabled_pmu_counters K env s2"
  have begun: "begun view occ env s s1 s2"
    using region_begun [OF scope_begin_begun [OF assms(1,3,4), of env]] assms(2,5,6) by simp
  note dis = disable_measures [OF assms(1) begun refl]
  then obtain D where D: "\<forall>e. selected env e \<longrightarrow> stands view ?d e (D e) \<and> measured occ s s1 s2 ?d e (D e)"
    by metis
  have acc: "accumulate_enabled_pmu_counters K env (t, ?d) = (t', s3)" using assms(7) by (simp add: scope_end_def)
  note add = accumulate_adds [OF assms(1) _ _ _ acc, of D]
  from add dis D have fin: "pmu_ok view s3 \<and> (\<forall>e. idle view s3 e) \<and> pm_counters s3 = pm_counters ?d \<and>
    no_rewind occ (pm_kernel ?d) (pm_kernel s3) \<and> pt_calls t' = pt_calls t + 1 \<and>
    (\<forall>e. total_of e t' = (if selected env e \<and> descriptor ?d e \<noteq> - 1 then total_of e t + D e else total_of e t))"
    by blast
  then have "measured occ s s1 s2 s3 e (D e)" if "selected env e" for e using D that measured_later by blast
  moreover have "no_rewind occ (pm_kernel s) (pm_kernel s3)"
    using begun dis fin no_rewind_trans unfolding begun_def by meson
  ultimately show ?thesis using fin by (auto simp: descriptor_def measured_def)
qed

text \<open>
  A kernel that keeps the promises: every call takes one occurrence of every event, and cache events
  are not supported.
\<close>

record sim_kernel =
  sk_now :: nat
  sk_next :: int
  sk_table :: "int \<Rightarrow> perf_attr \<times> bool \<times> u64"

definition sim_tick :: "nat \<Rightarrow> sim_kernel \<Rightarrow> sim_kernel" where
  "sim_tick n k =
     k\<lparr>sk_now := sk_now k + n,
       sk_table := (\<lambda>fd. case sk_table k fd of (a, en, c) \<Rightarrow> (a, en, if en then c + of_nat n else c))\<rparr>"

definition sim_open :: "perf_attr \<Rightarrow> sim_kernel \<Rightarrow> int \<times> sim_kernel" where
  "sim_open a k =
     (let k1 = sim_tick 1 k
      in if at_type a = PERF_TYPE_HW_CACHE then (- 1, k1)
         else (sk_next k1, k1\<lparr>sk_next := sk_next k1 + 1,
                 sk_table := (sk_table k1)(sk_next k1 := (a, \<not> at_disabled a, 0))\<rparr>))"

definition sim_ioctl :: "perf_request \<Rightarrow> int \<Rightarrow> sim_kernel \<Rightarrow> sim_kernel" where
  "sim_ioctl q fd k =
     (let k1 = sim_tick 1 k; (a, en, c) = sk_table k1 fd
      in k1\<lparr>sk_table := (sk_table k1)(fd :=
             (case q of IocReset \<Rightarrow> (a, en, 0) | IocEnable \<Rightarrow> (a, True, c) | IocDisable \<Rightarrow> (a, False, c)))\<rparr>)"

definition sim_view :: "sim_kernel counter_view" where
  "sim_view k fd = (if fd < sk_next k then Some (sk_table k fd) else None)"

definition sim_perf :: "sim_kernel perf_kernel" where
  "sim_perf =
     \<lparr>k_open = sim_open, k_ioctl = sim_ioctl,
      k_read = (\<lambda>fd k. (map_option (\<lambda>(a, en, c). c) (sim_view k fd), sim_tick 1 k)),
      k_close = (\<lambda>fd k. k), k_error = (\<lambda>k. ''No such file or directory'')\<rparr>"

definition sim_start :: "sim_kernel pmu" where
  "sim_start = init_pmu \<lparr>sk_now = 0, sk_next = 3, sk_table = (\<lambda>fd. (event_attr CpuCycles, False, 0))\<rparr>"

abbreviation sim_occ :: "sim_kernel occurrences" where
  "sim_occ \<equiv> (\<lambda>k a. sk_now k)"

lemmas sim_defs = sim_perf_def sim_open_def sim_ioctl_def sim_view_def sim_tick_def elapses_def
  elapses_on_def no_rewind_def Let_def

lemma sim_elapses: "elapses sim_view sim_occ k (sim_tick n k)"
  by (auto simp: sim_defs split: prod.splits)

lemma sim_laws: "perf_kernel_laws sim_perf sim_view sim_occ"
proof -
  have "open_law sim_perf sim_view sim_occ" by (auto simp: open_law_def sim_defs split: prod.splits)
  moreover have "ioctl_law sim_perf sim_view sim_occ" by (auto simp: ioctl_law_def sim_defs split: prod.splits)
  moreover have "reset_law sim_perf sim_view" by (auto simp: reset_law_def sim_defs split: if_splits)
  moreover have "enable_law sim_perf sim_view sim_occ"
    by (auto simp: enable_law_def sim_defs split: if_splits intro!: exI [of _ "Suc (sk_now k)" for k])
  moreover have "disable_law sim_perf sim_view sim_occ"
    by (auto simp: disable_law_def sim_defs split: if_splits intro!: exI [of _ "Suc (sk_now k)" for k])
  moreover have "read_law sim_perf sim_view sim_occ"
    using sim_elapses [of _ 1] by (auto simp: read_law_def sim_perf_def sim_view_def split: if_splits)
  ultimately show ?thesis by (simp add: perf_kernel_laws_def)
qed

section \<open>Groups that are not known, and distinct events\<close>

lemma event_attr_inj: "event_attr e = event_attr e' \<longleftrightarrow> e = e'"
  by (cases e; cases e') (simp_all add: event_attr_def PERF_TYPE_HARDWARE_def PERF_TYPE_SOFTWARE_def
    PERF_TYPE_HW_CACHE_def cache_config_def CACHE_L1D_def CACHE_LL_def OP_READ_def OP_WRITE_def
    RESULT_ACCESS_def RESULT_MISS_def)

lemma perf_event_code_inj: "perf_event_code e = perf_event_code e' \<longleftrightarrow> e = e'"
  by (cases e; cases e') simp_all

lemma none_selected:
  "(\<forall>e. \<not> selected env e) \<longleftrightarrow> pmu_group_name env \<notin> set [''core'', ''cache'', ''l1d'', ''llc'', ''all'']"
proof
  assume "\<forall>e. \<not> selected env e"
  then have "\<not> selected env CpuCycles" "\<not> selected env CacheMisses" "\<not> selected env L1DLoads" "\<not> selected env LLCLoads"
    by blast+
  then show "pmu_group_name env \<notin> set [''core'', ''cache'', ''l1d'', ''llc'', ''all'']" by (simp add: selected_def)
next
  assume "pmu_group_name env \<notin> set [''core'', ''cache'', ''l1d'', ''llc'', ''all'']"
  then show "\<forall>e. \<not> selected env e"
  proof (intro allI)
    show "\<not> selected env e" if "pmu_group_name env \<notin> set [''core'', ''cache'', ''l1d'', ''llc'', ''all'']" for e
      using that by (cases e) (simp_all add: selected_def)
  qed
qed

text \<open>
  An unknown group measures nothing and says so. When \<open>NTS_PMU_GROUP\<close> is none of the documented
  names, a scope makes no call to the kernel and changes only the number of calls, and the report
  consists of that number and the message that names the group and the valid ones; with a
  documented name, or without one, at least one event is selected.
\<close>

lemma pmu_unknown_group:
  "if pmu_group_name env \<in> set [''core'', ''cache'', ''l1d'', ''llc'', ''all''] then \<exists>e. selected env e
   else scope_begin K env s = s \<and> scope_end K env (t, s) = (t\<lparr>pt_calls := pt_calls t + 1\<rparr>, s) \<and>
        pmu_report env t =
          newline @ '' Performance counter stats for 'process_market_signal_and_order' (NTS_PMU_GROUP='' @
          pmu_group_name env @ ''):'' @ newline @ newline @ pmu_counter_line (pt_calls t) ''calls'' None @
          newline @ '' [pmu] unknown NTS_PMU_GROUP='' @ pmu_group_name env @
          ''; valid values: core, cache, l1d, llc, all. No counters were enabled.'' @ newline @ newline"
proof (cases "pmu_group_name env \<in> set [''core'', ''cache'', ''l1d'', ''llc'', ''all'']")
  case True
  then show ?thesis using none_selected [of env] by simp
next
  case False
  then have "enabled_events env = []" by (simp add: enabled_events_def pmu_event_enabled_def pmu_group_is_def)
  moreover have "pmu_report env t =
          newline @ '' Performance counter stats for 'process_market_signal_and_order' (NTS_PMU_GROUP='' @
          pmu_group_name env @ ''):'' @ newline @ newline @ pmu_counter_line (pt_calls t) ''calls'' None @
          newline @ '' [pmu] unknown NTS_PMU_GROUP='' @ pmu_group_name env @
          ''; valid values: core, cache, l1d, llc, all. No counters were enabled.'' @ newline @ newline"
    using False by (simp add: pmu_report_def pmu_event_enabled_def pmu_group_is_def Let_def)
  ultimately show ?thesis using False
    by (simp add: scope_begin_def scope_end_def reset_enabled_fold enable_enabled_fold disable_enabled_fold accumulate_enabled_fold)
qed

end
