(* ===== verification/Profiled_Loop.thy ===== *)
theory Profiled_Loop
  imports Pipeline_Properties PMU_Properties
begin

text \<open>
  The build of the trading loop with \<open>NTS_ENABLE_PMU_PROFILE\<close>: \<open>run_pipeline\<close> in \<open>src/main.cpp\<close> keeps
  totals, and \<open>process_market_signal_and_order\<close> opens a profile scope on them for its whole body.

  The counters live in a kernel state beside the trading state. What the code before the handler, of
  the handler and after it does to the kernel (time passes, events occur) is an argument.
\<close>

section \<open>The loop\<close>

record 'k kernel_effect =
  ke_before :: "iteration \<Rightarrow> 'k \<Rightarrow> 'k"
  ke_handler :: "iteration \<Rightarrow> 'k \<Rightarrow> 'k"
  ke_after :: "iteration \<Rightarrow> 'k \<Rightarrow> 'k"

definition passing :: "('k \<Rightarrow> 'k) \<Rightarrow> 'k pmu \<Rightarrow> 'k pmu" where
  "passing f s = s\<lparr>pm_kernel := f (pm_kernel s)\<rparr>"

definition profiled_region ::
  "'k perf_kernel \<Rightarrow> string option \<Rightarrow> ('k \<Rightarrow> 'k) \<Rightarrow> pmu_totals \<times> 'k pmu \<Rightarrow> pmu_totals \<times> 'k pmu"
where
  "profiled_region K env f ts = scope_end K env (fst ts, passing f (scope_begin K env (snd ts)))"

text \<open>The condition \<open>got_data\<close> of the loop, on which it calls the handler.\<close>

definition got_data :: "iteration \<Rightarrow> pipeline \<Rightarrow> bool" where
  "got_data it p =
     (case (md_poll (it_ref_recv it) (it_ref_garbage it) (pp_ref_md p),
            md_poll (it_target_recv it) (it_target_garbage it) (pp_target_md p)) of
        (Some (got_ref, _), Some (got_target, _)) \<Rightarrow> got_ref \<or> got_target
      | _ \<Rightarrow> False)"

definition profiled_iteration ::
  "'k perf_kernel \<Rightarrow> string option \<Rightarrow> 'k kernel_effect \<Rightarrow> 'tr tracer_api \<Rightarrow> double \<Rightarrow> strategy_params \<Rightarrow> iteration \<Rightarrow>
   (pipeline \<times> 'tr) \<times> (pmu_totals \<times> 'k pmu) \<Rightarrow> (((pipeline \<times> 'tr) \<times> (pmu_totals \<times> 'k pmu)) \<times> u8 list) option"
where
  "profiled_iteration K env ke api v sp it x =
     (let (pt, t, s) = x
      in case pipeline_iteration api v sp it pt of
           None \<Rightarrow> None
         | Some (pt', sent) \<Rightarrow>
             let ts = (t, passing (ke_before ke it) s);
                 (t', s') = (if got_data it (fst pt) then profiled_region K env (ke_handler ke it) ts else ts)
             in Some ((pt', t', passing (ke_after ke it) s'), sent))"

fun profiled_loop ::
  "'k perf_kernel \<Rightarrow> string option \<Rightarrow> 'k kernel_effect \<Rightarrow> 'tr tracer_api \<Rightarrow> double \<Rightarrow> strategy_params \<Rightarrow> i32 \<Rightarrow> u64 \<Rightarrow>
   iteration list \<Rightarrow> u64 \<Rightarrow> (pipeline \<times> 'tr) \<times> (pmu_totals \<times> 'k pmu) \<Rightarrow>
   (((pipeline \<times> 'tr) \<times> (pmu_totals \<times> 'k pmu)) \<times> u64 \<times> u8 list) option"
where
  "profiled_loop K env ke api v sp duration deadline [] n x = Some (x, n, [])"
| "profiled_loop K env ke api v sp duration deadline (it # its) n x =
     (if sint duration > 0 \<and> it_now_ns it \<ge> deadline then Some (x, n, [])
      else
        (case profiled_iteration K env ke api v sp it x of
           None \<Rightarrow> None
         | Some (x', sent) \<Rightarrow>
             (case profiled_loop K env ke api v sp duration deadline its (n + 1) x' of
                None \<Rightarrow> None
              | Some (x'', n', sent') \<Rightarrow> Some (x'', n', sent @ sent'))))"

definition profiled_run ::
  "'k perf_kernel \<Rightarrow> string option \<Rightarrow> 'k kernel_effect \<Rightarrow> 'k \<Rightarrow> 'tr tracer_api \<Rightarrow> double \<Rightarrow> strategy_params \<Rightarrow> u64 \<Rightarrow> i32 \<Rightarrow>
   iteration list \<Rightarrow> md_receiver \<Rightarrow> md_receiver \<Rightarrow> gateway \<Rightarrow> 'tr \<Rightarrow>
   (((pipeline \<times> 'tr) \<times> (pmu_totals \<times> 'k pmu)) \<times> u64 \<times> u8 list) option"
where
  "profiled_run K env ke k api v sp start_ns duration its ref_md target_md gw tr =
     profiled_loop K env ke api v sp duration (start_ns + scast duration * 1000000000) its 0
       ((init_pipeline ref_md target_md gw, tr), (init_totals, init_pmu k))"

text \<open>The iterations of a run that received market data.\<close>

fun data_iterations ::
  "'tr tracer_api \<Rightarrow> double \<Rightarrow> strategy_params \<Rightarrow> i32 \<Rightarrow> u64 \<Rightarrow> iteration list \<Rightarrow> pipeline \<times> 'tr \<Rightarrow> iteration list"
where
  "data_iterations api v sp duration deadline [] pt = []"
| "data_iterations api v sp duration deadline (it # its) pt =
     (if sint duration > 0 \<and> it_now_ns it \<ge> deadline then []
      else
        (case pipeline_iteration api v sp it pt of
           None \<Rightarrow> []
         | Some (pt', _) \<Rightarrow>
             (if got_data it (fst pt) then [it] else []) @ data_iterations api v sp duration deadline its pt'))"

section \<open>Counters, once created, stay\<close>

definition keeps_counters :: "'k pmu \<Rightarrow> 'k pmu \<Rightarrow> bool" where
  "keeps_counters s s' = (\<forall>e c. pm_counters s e = Some c \<longrightarrow> pm_counters s' e = Some c)"

lemma keeps_counters_trans: "keeps_counters s s' \<Longrightarrow> keeps_counters s' s'' \<Longrightarrow> keeps_counters s s''"
  by (simp add: keeps_counters_def)

lemma pmu_counter_keeps: "keeps_counters s (snd (pmu_counter K e s))"
  by (auto simp: keeps_counters_def pmu_counter_def Let_def split: option.splits prod.splits)

lemma on_counter_keeps: "keeps_counters s (on_counter K f e s)"
  using pmu_counter_keeps [of s K e] by (cases "pmu_counter K e s") (simp add: on_counter_def keeps_counters_def)

lemma fold_keeps:
  assumes "\<And>e s. keeps_counters s (f e s)"
  shows "keeps_counters s (fold f es s)"
proof (induction es arbitrary: s)
  case (Cons e es)
  show ?case using keeps_counters_trans [OF assms Cons] by simp
qed (simp add: keeps_counters_def)

lemma scope_keeps:
  "keeps_counters s (scope_begin K env s)" "keeps_counters s (disable_enabled_pmu_counters K env s)"
  using keeps_counters_trans [OF fold_keeps fold_keeps, OF on_counter_keeps on_counter_keeps] fold_keeps [OF on_counter_keeps]
  by (simp_all add: scope_begin_def reset_enabled_fold enable_enabled_fold disable_enabled_fold)

lemma passing_keeps [simp]: "keeps_counters s (passing f s)"
  by (simp add: keeps_counters_def passing_def)

lemma passing_simps [simp]:
  "pm_kernel (passing f s) = f (pm_kernel s)" "pm_counters (passing f s) = pm_counters s"
  by (simp_all add: passing_def)

lemma descriptor_keeps: "keeps_counters s s' \<Longrightarrow> pm_counters s e \<noteq> None \<Longrightarrow> descriptor s' e = descriptor s e"
  by (auto simp: keeps_counters_def descriptor_def)

lemma accumulate_keeps: "keeps_counters (snd ts) (snd (accumulate_enabled_pmu_counters K env ts))"
proof -
  have step: "keeps_counters (snd x) (snd (accumulate_counter K e x))" for e and x :: "pmu_totals \<times> 'a pmu"
  proof -
    obtain c s' where c: "pmu_counter K e (snd x) = (c, s')" by fastforce
    then have "keeps_counters (snd x) s'" using pmu_counter_keeps [of "snd x" K e] by simp
    then show ?thesis
      using c by (cases x) (simp add: accumulate_counter_def keeps_counters_def split: prod.splits)
  qed
  have "keeps_counters (snd x) (snd (fold (accumulate_counter K) es x))" for es and x :: "pmu_totals \<times> 'a pmu"
  proof (induction es arbitrary: x)
    case (Cons e es)
    show ?case using keeps_counters_trans [OF step Cons] by simp
  qed (simp add: keeps_counters_def)
  then show ?thesis
    by (cases ts) (metis accumulate_enabled_fold snd_conv)
qed

section \<open>What a region adds\<close>

text \<open>From \<open>(t, s)\<close> to \<open>(t', s')\<close> the totals grew by occurrences in between, at least \<open>least e\<close> of each counted event.\<close>

definition counted ::
  "'k occurrences \<Rightarrow> string option \<Rightarrow> (perf_event \<Rightarrow> nat) \<Rightarrow> pmu_totals \<times> 'k pmu \<Rightarrow> pmu_totals \<times> 'k pmu \<Rightarrow>
   (perf_event \<Rightarrow> int) \<Rightarrow> bool"
where
  "counted occ env least x x' desc =
     (\<forall>e. \<exists>N. total_of e (fst x') = total_of e (fst x) + of_nat N \<and>
          N + occ (pm_kernel (snd x)) (event_attr e) \<le> occ (pm_kernel (snd x')) (event_attr e) \<and>
          (if selected env e \<and> desc e \<noteq> - 1 then least e \<le> N else N = 0))"

definition resting :: "'k counter_view \<Rightarrow> 'k pmu \<Rightarrow> bool" where
  "resting view s = (pmu_ok view s \<and> (\<forall>e. idle view s e))"

lemma resting_passing:
  assumes "resting view s" "elapses view occ (pm_kernel s) (f (pm_kernel s))"
  shows "resting view (passing f s)"
proof -
  have p: "passes view occ s (passing f s) e" for e using assms(2) by (simp add: passes_def elapses_def)
  then show ?thesis using assms(1) passes_ok passes_idle by (metis resting_def)
qed

lemma region_counts:
  assumes laws: "perf_kernel_laws K view occ" and el: "\<And>k. elapses view occ k (f k)" and rest: "resting view s"
    and run: "profiled_region K env f (t, s) = (t', s')"
    and least: "\<And>k e. occ k (event_attr e) + m e \<le> occ (f k) (event_attr e)"
  shows "resting view s' \<and> keeps_counters s s' \<and> pt_calls t' = pt_calls t + 1 \<and>
    (\<forall>e. selected env e \<longrightarrow> pm_counters s' e \<noteq> None) \<and>
    counted occ env m (t, s) (t', s') (descriptor s')"
proof -
  let ?s1 = "scope_begin K env s"
  let ?s2 = "?s1\<lparr>pm_kernel := f (pm_kernel ?s1)\<rparr>"
  have end': "(t', s') = scope_end K env (t, ?s2)" using run by (simp add: profiled_region_def passing_def)
  have ok: "pmu_ok view s" "\<forall>e. idle view s e" using rest by (simp_all add: resting_def)
  have el': "\<forall>k. elapses view occ k (f k)" using el by simp
  note sc = scope_counts_region [where w = f, OF laws el' ok refl refl end']
  have s2s': "keeps_counters ?s2 s'"
    using keeps_counters_trans [OF scope_keeps(2) accumulate_keeps [of "(t, _)", simplified]] end'
    by (metis fst_conv scope_end_def snd_conv)
  have "keeps_counters s s'"
    using keeps_counters_trans [OF keeps_counters_trans [OF scope_keeps(1) passing_keeps]] s2s'
    unfolding passing_def by blast
  moreover have "pm_counters s' e \<noteq> None" if "selected env e" for e
  proof -
    have "\<exists>c. pm_counters ?s1 e = Some c"
      using scope_begin_begun [OF laws ok, of env] that by (auto simp: begun_def counting_def)
    then show ?thesis using s2s' by (auto simp: keeps_counters_def)
  qed
  moreover have "counted occ env m (t, s) (t', s') (descriptor s')"
    unfolding counted_def
  proof
    fix e
    let ?o = "\<lambda>k. occ k (event_attr e)"
    have mono: "?o (pm_kernel s) \<le> ?o (pm_kernel s')" using sc by (simp add: no_rewind_def)
    show "\<exists>N. total_of e (fst (t', s')) = total_of e (fst (t, s)) + of_nat N \<and>
      N + ?o (pm_kernel (snd (t, s))) \<le> ?o (pm_kernel (snd (t', s'))) \<and>
      (if selected env e \<and> descriptor s' e \<noteq> - 1 then m e \<le> N else N = 0)"
    proof (cases "selected env e \<and> descriptor s' e \<noteq> - 1")
      case True
      then obtain a b where ab: "?o (pm_kernel s) \<le> a" "a \<le> ?o (pm_kernel ?s1)" "?o (pm_kernel ?s2) \<le> b"
        "b \<le> ?o (pm_kernel s')" "total_of e t' = total_of e t + of_nat (b - a)"
        using sc by metis
      have "?o (pm_kernel ?s1) + m e \<le> ?o (pm_kernel ?s2)" using least by simp
      with ab True show ?thesis by (intro exI [of _ "b - a"]) auto
    next
      case False
      then have "total_of e t' = total_of e t" using sc by metis
      with False mono show ?thesis by (intro exI [of _ 0]) auto
    qed
  qed
  ultimately show ?thesis using sc by (simp add: resting_def)
qed

section \<open>What a run adds\<close>

text \<open>The kernel lets time pass outside the calls, and the handler makes at least \<open>m it e\<close> occurrences.\<close>

definition effect_ok ::
  "'k counter_view \<Rightarrow> 'k occurrences \<Rightarrow> 'k kernel_effect \<Rightarrow> (iteration \<Rightarrow> perf_event \<Rightarrow> nat) \<Rightarrow> bool"
where
  "effect_ok view occ ke m =
     (\<forall>it k. elapses view occ k (ke_before ke it k) \<and> elapses view occ k (ke_handler ke it k) \<and>
        elapses view occ k (ke_after ke it k) \<and>
        (\<forall>e. occ k (event_attr e) + m it e \<le> occ (ke_handler ke it k) (event_attr e)))"

lemma counted_trans:
  assumes "counted occ env m x y d" "counted occ env m' y z d" 
  shows "counted occ env (\<lambda>e. m e + m' e) x z d"
  unfolding counted_def
proof
  fix e
  obtain N N' where
    "total_of e (fst y) = total_of e (fst x) + of_nat N" "total_of e (fst z) = total_of e (fst y) + of_nat N'"
    "N + occ (pm_kernel (snd x)) (event_attr e) \<le> occ (pm_kernel (snd y)) (event_attr e)"
    "N' + occ (pm_kernel (snd y)) (event_attr e) \<le> occ (pm_kernel (snd z)) (event_attr e)"
    "if selected env e \<and> d e \<noteq> - 1 then m e \<le> N \<and> m' e \<le> N' else N = 0 \<and> N' = 0"
    using assms unfolding counted_def by metis
  then show "\<exists>N. total_of e (fst z) = total_of e (fst x) + of_nat N \<and>
      N + occ (pm_kernel (snd x)) (event_attr e) \<le> occ (pm_kernel (snd z)) (event_attr e) \<and>
      (if selected env e \<and> d e \<noteq> - 1 then m e + m' e \<le> N else N = 0)"
    by (intro exI [of _ "N + N'"]) (auto split: if_splits)
qed

lemma counted_passing: "no_rewind occ k (f k) \<Longrightarrow> pm_kernel s = k \<Longrightarrow> counted occ env (\<lambda>_. 0) (t, s) (t, passing f s) d"
  unfolding counted_def by (intro allI exI [of _ 0]) (simp add: no_rewind_def)

lemma counted_desc: "counted occ env m x y d \<Longrightarrow> (\<And>e. selected env e \<Longrightarrow> d' e = d e) \<Longrightarrow> counted occ env m x y d'"
  unfolding counted_def by (metis (full_types))

lemma iteration_counts:
  assumes laws: "perf_kernel_laws K view occ" "effect_ok view occ ke m" and rest: "resting view s"
    and run: "profiled_iteration K env ke api v sp it (pt, t, s) = Some ((pt', t', s'), sent)"
  defines "data \<equiv> got_data it (fst pt)"
  shows "pipeline_iteration api v sp it pt = Some (pt', sent) \<and> resting view s' \<and> keeps_counters s s' \<and>
    pt_calls t' = pt_calls t + (if data then 1 else 0) \<and>
    (\<forall>d. (\<forall>e. selected env e \<and> pm_counters s' e \<noteq> None \<longrightarrow> d e = descriptor s' e) \<longrightarrow>
       counted occ env (\<lambda>e. if data then m it e else 0) (t, s) (t', s') d)"
proof -
  let ?b = "passing (ke_before ke it) s"
  obtain t1 s1 where r: "(if data then profiled_region K env (ke_handler ke it) (t, ?b) else (t, ?b)) = (t1, s1)"
    by fastforce
  with run have pi: "pipeline_iteration api v sp it pt = Some (pt', sent)"
    and fin: "t' = t1" "s' = passing (ke_after ke it) s1"
    by (auto simp: profiled_iteration_def data_def Let_def split: option.splits)
  have el: "elapses view occ k (ke_before ke it k)" "elapses view occ k (ke_handler ke it k)"
    "elapses view occ k (ke_after ke it k)" for k
    using laws(2) by (simp_all add: effect_ok_def)
  have b: "resting view ?b" "counted occ env (\<lambda>_. 0) (t, s) (t, ?b) d" for d
    using resting_passing [where f = "ke_before ke it", OF rest el(1)] el(1)
      counted_passing [where f = "ke_before ke it", OF _ refl] by (simp_all add: elapses_def)
  have a: "counted occ env (\<lambda>_. 0) (t1, s1) (t', s') d" for d
    unfolding fin using counted_passing [where f = "ke_after ke it", OF _ refl] el(3) by (simp add: elapses_def)
  have mid: "resting view s1 \<and> keeps_counters ?b s1 \<and> pt_calls t1 = pt_calls t + (if data then 1 else 0) \<and>
    (\<forall>d. (\<forall>e. selected env e \<and> pm_counters s1 e \<noteq> None \<longrightarrow> d e = descriptor s1 e) \<longrightarrow>
       counted occ env (\<lambda>e. if data then m it e else 0) (t, ?b) (t1, s1) d)"
  proof (cases data)
    case True
    have m: "occ k (event_attr e) + m it e \<le> occ (ke_handler ke it k) (event_attr e)" for k e
      using laws(2) by (simp add: effect_ok_def)
    have "profiled_region K env (ke_handler ke it) (t, ?b) = (t1, s1)" using r True by simp
    note rc = region_counts [OF laws(1) el(2) b(1) this m]
    have "counted occ env (m it) (t, ?b) (t1, s1) d"
      if d: "\<forall>e. selected env e \<and> pm_counters s1 e \<noteq> None \<longrightarrow> d e = descriptor s1 e" for d
      by (rule counted_desc [where d = "descriptor s1"]) (use rc d in blast)+
    then show ?thesis using rc True by auto
  next
    case False
    then have "t1 = t" "s1 = ?b" using r by simp_all
    then show ?thesis using b(1) False by (auto simp: counted_def keeps_counters_def)
  qed
  have "keeps_counters s s'" using mid by (simp add: fin keeps_counters_def)
  moreover have "resting view s'" unfolding fin using mid resting_passing el(3) by blast
  moreover have "counted occ env (\<lambda>e. if data then m it e else 0) (t, s) (t', s') d"
    if "\<forall>e. selected env e \<and> pm_counters s' e \<noteq> None \<longrightarrow> d e = descriptor s' e" for d
  proof -
    have "counted occ env (\<lambda>e. if data then m it e else 0) (t, ?b) (t1, s1) d"
      using mid that by (simp add: fin descriptor_def)
    from counted_trans [OF counted_trans [OF b(2) this] a] show ?thesis by simp
  qed
  ultimately show ?thesis using pi mid fin(1) by blast
qed

text \<open>Profiling leaves the trading loop alone.\<close>

lemma profiled_loop_erase:
  "map_option (\<lambda>((pt, ts), r). (pt, r)) (profiled_loop K env ke api v sp d dl its n (pt, ts)) =
   pipeline_loop api v sp d dl its n pt"
proof (induction its arbitrary: n pt ts)
  case (Cons it its)
  show ?case
  proof (cases "pipeline_iteration api v sp it pt")
    case None
    then show ?thesis by (cases ts) (simp add: profiled_iteration_def)
  next
    case (Some r)
    obtain pt' sent where r: "r = (pt', sent)" by fastforce
    obtain t s where ts: "ts = (t, s)" by fastforce
    let ?b = "(t, passing (ke_before ke it) s)"
    obtain t1 s1 where "(if got_data it (fst pt) then profiled_region K env (ke_handler ke it) ?b else ?b) = (t1, s1)"
      by fastforce
    then obtain ts' where i: "profiled_iteration K env ke api v sp it (pt, ts) = Some ((pt', ts'), sent)"
      using Some r by (simp add: profiled_iteration_def ts)
    show ?thesis using Cons [of "n + 1" pt' ts'] Some r i
      by (cases "profiled_loop K env ke api v sp d dl its (n + 1) (pt', ts')") (auto split: option.splits)
  qed
qed simp

lemma loop_counts:
  assumes laws: "perf_kernel_laws K view occ" "effect_ok view occ ke m"
    and "resting view s" "profiled_loop K env ke api v sp dur dl its n (pt, t, s) = Some ((pt', t', s'), n', sent)"
  shows "resting view s' \<and> keeps_counters s s' \<and>
    pt_calls t' = pt_calls t + of_nat (length (data_iterations api v sp dur dl its pt)) \<and>
    (\<forall>d. (\<forall>e. selected env e \<and> pm_counters s' e \<noteq> None \<longrightarrow> d e = descriptor s' e) \<longrightarrow>
       counted occ env (\<lambda>e. \<Sum>it \<leftarrow> data_iterations api v sp dur dl its pt. m it e) (t, s) (t', s') d)"
  using assms(3,4)
proof (induction its arbitrary: n pt t s sent)
  case (Cons it its)
  show ?case
  proof (cases "sint dur > 0 \<and> it_now_ns it \<ge> dl")
    case True
    then show ?thesis using Cons.prems by (auto simp: counted_def keeps_counters_def)
  next
    case False
    then obtain pt1 t1 s1 o1 o2 where
      i: "profiled_iteration K env ke api v sp it (pt, t, s) = Some ((pt1, t1, s1), o1)" and
      l: "profiled_loop K env ke api v sp dur dl its (n + 1) (pt1, t1, s1) = Some ((pt', t', s'), n', o2)"
      using Cons.prems(2) by (auto split: option.splits if_splits)
    note one = iteration_counts [OF laws Cons.prems(1) i]
    note rest = Cons.IH [OF _ l]
    let ?m = "\<lambda>e. if got_data it (fst pt) then m it e else 0"
    let ?r = "\<lambda>e. \<Sum>it \<leftarrow> data_iterations api v sp dur dl its pt1. m it e"
    have D: "data_iterations api v sp dur dl (it # its) pt =
      (if got_data it (fst pt) then [it] else []) @ data_iterations api v sp dur dl its pt1"
      using one False by auto
    have "counted occ env (\<lambda>e. ?m e + ?r e) (t, s) (t', s') d"
      if d: "\<forall>e. selected env e \<and> pm_counters s' e \<noteq> None \<longrightarrow> d e = descriptor s' e" for d
    proof (rule counted_trans)
      show "counted occ env ?r (t1, s1) (t', s') d" using rest one d by blast
      have keep: "keeps_counters s1 s'" using rest one by blast
      have "d e = descriptor s1 e" if e: "selected env e" "pm_counters s1 e \<noteq> None" for e
      proof -
        have "pm_counters s' e \<noteq> None" using keep e(2) by (auto simp: keeps_counters_def)
        then show ?thesis using d e descriptor_keeps [OF keep e(2)] by simp
      qed
      then show "counted occ env ?m (t, s) (t1, s1) d" using one by blast
    qed
    moreover have "(\<lambda>e. ?m e + ?r e) = (\<lambda>e. \<Sum>it \<leftarrow> data_iterations api v sp dur dl (it # its) pt. m it e)"
      unfolding D by (intro ext) simp
    moreover have "keeps_counters s s'" using keeps_counters_trans one rest by blast
    moreover have "pt_calls t' = pt_calls t + of_nat (length (data_iterations api v sp dur dl (it # its) pt))"
      unfolding D using one rest by simp
    ultimately show ?thesis using one rest by simp
  qed
qed (simp add: counted_def keeps_counters_def)


text \<open>A run of one iteration, with a handler in which every event occurs a hundred times.\<close>

definition sim_effect :: "sim_kernel kernel_effect" where
  "sim_effect = \<lparr>ke_before = (\<lambda>it. sim_tick 3), ke_handler = (\<lambda>it. sim_tick 100), ke_after = (\<lambda>it. sim_tick 20)\<rparr>"

definition demo_profiled_run where
  "demo_profiled_run = profiled_run sim_perf (Some ''cache'') sim_effect (pm_kernel sim_start) noop_api (Fin False 1)
     default_params 0 10 [demo_iteration] demo_receiver demo_receiver \<lparr>gw_sockfd = 3, gw_buf = []\<rparr> ()"

text \<open>The counters after it, which do not depend on the trading state.\<close>

definition demo_counters :: "pmu_totals \<times> sim_kernel pmu" where
  "demo_counters =
     profiled_region sim_perf (Some ''cache'') (sim_tick 100) (init_totals, passing (sim_tick 3) sim_start)"

abbreviation demo_start where
  "demo_start \<equiv> (init_pipeline demo_receiver demo_receiver \<lparr>gw_sockfd = 3, gw_buf = []\<rparr>, ())"

lemma demo_iteration_received: "got_data demo_iteration (fst demo_start)"
  by code_simp

lemma demo_profiled_run_counters:
  "\<exists>pt sent. demo_profiled_run = Some ((pt, fst demo_counters, passing (sim_tick 20) (snd demo_counters)), 1, sent) \<and>
     length sent = 48 \<and>
     data_iterations noop_api (Fin False 1) default_params 10 (0 + scast (10 :: i32) * 1000000000) [demo_iteration] demo_start =
       [demo_iteration]"
proof -
  have late: "\<not> it_now_ns demo_iteration \<ge> 0 + scast (10 :: i32) * 1000000000" by code_simp
  obtain pt sent where "pipeline_iteration noop_api (Fin False 1) default_params demo_iteration demo_start = Some (pt, sent)"
    "length sent = 48"
    using demo_run_sends late
    by (auto simp: demo_run_def run_pipeline_def split: option.splits if_splits)
  then show ?thesis
    using late demo_iteration_received
    by (cases pt) (auto simp: demo_profiled_run_def profiled_run_def profiled_iteration_def demo_counters_def sim_effect_def
        sim_start_def init_pmu_def split: prod.split)
qed


end
