(* ===== verification/TSC_Sync.thy ===== *)
theory TSC_Sync
  imports C_Text Clock
begin

text \<open>
  The TSC synchronisation check, \<open>tools/tsc_sync_check.cpp\<close>: its command line, the handshake of two
  threads pinned to two cores, the evaluation of the samples, and \<open>main\<close>.

  The threads are two state machines over one state. Each step makes at most one access to a shared
  variable or one reading of a time stamp counter, so every interleaving of the accesses is a
  sequence of steps; a step of a thread that spins or has ended changes nothing. Orderings of the
  accesses need no weaker model: \<open>target_tsc\<close> and \<open>target_aux\<close> are written only between a load of
  \<open>request\<close> (acquire) and a store of \<open>ack\<close> (release), and read only between a load of \<open>ack\<close> (acquire)
  and the next store of \<open>request\<close> (release). The counters are an argument, as a function of time.
  Signed arithmetic on cycles wraps here, where C++ leaves an overflow undefined; the theorems on the
  measurement bound the values so that none occurs.
\<close>

section \<open>Command line\<close>

record tsc_config =
  cf_reference_core :: i32
  cf_cores :: "i32 list"
  cf_samples :: i32
  cf_warmup :: i32
  cf_threshold_cycles :: i32

text \<open>An operation returns, throws a \<open>runtime_error\<close> with its message, or exits with status zero.\<close>

datatype 'a tsc_outcome = Returns 'a | Throws string | ExitsZero

fun and_then :: "'a tsc_outcome \<Rightarrow> ('a \<Rightarrow> 'b tsc_outcome) \<Rightarrow> 'b tsc_outcome" where
  "and_then (Returns x) f = f x"
| "and_then (Throws msg) f = Throws msg"
| "and_then ExitsZero f = ExitsZero"

text \<open>The argument is the result of \<open>sysconf(_SC_NPROCESSORS_ONLN)\<close>.\<close>

definition online_cores :: "int \<Rightarrow> i32 tsc_outcome" where
  "online_cores n =
     (if n \<le> 0 \<or> n > 2 ^ 31 - 1 then Throws ''failed to determine online CPU count'' else Returns (of_int n))"

fun split_commas :: "string \<Rightarrow> string list" where
  "split_commas [] = [[]]"
| "split_commas (c # cs) =
     (if c = CHR '','' then [] # split_commas cs
      else case split_commas cs of [] \<Rightarrow> [[c]] | t # ts \<Rightarrow> (c # t) # ts)"

fun parse_tokens :: "i32 \<Rightarrow> string list \<Rightarrow> i32 list tsc_outcome" where
  "parse_tokens n [] = Returns []"
| "parse_tokens n (token # ts) =
     (if token = [] then parse_tokens n ts
      else if strtol_erange token \<or> strtol_end token = token \<or> strtol_end token \<noteq> [] \<or> strtol token < 0 \<or>
              strtol token \<ge> sint n
      then Throws (''invalid core in --cores: '' @ token)
      else and_then (parse_tokens n ts) (\<lambda>cores. Returns (of_int (strtol token) # cores)))"

definition parse_cores :: "int \<Rightarrow> string \<Rightarrow> i32 list tsc_outcome" where
  "parse_cores nproc value =
     and_then (online_cores nproc) (\<lambda>n.
       if value = ''all'' then Returns (map of_nat [0..<nat (sint n)])
       else parse_tokens n (split_commas value))"

definition default_config :: "i32 list \<Rightarrow> tsc_config" where
  "default_config cores =
     \<lparr>cf_reference_core = 0, cf_cores = cores, cf_samples = 100000, cf_warmup = 1000, cf_threshold_cycles = 1000\<rparr>"

definition require_value :: "string \<Rightarrow> string list \<Rightarrow> (string \<times> string list) tsc_outcome" where
  "require_value name rest =
     (case rest of [] \<Rightarrow> Throws (''missing value for '' @ name) | v # vs \<Rightarrow> Returns (v, vs))"

function parse_options :: "int \<Rightarrow> string list \<Rightarrow> tsc_config \<Rightarrow> tsc_config tsc_outcome" where
  "parse_options nproc [] cfg = Returns cfg"
| "parse_options nproc (arg # rest) cfg =
     (if arg = ''--reference-core'' then
        (case require_value arg rest of
           Returns (v, vs) \<Rightarrow> parse_options nproc vs (cfg\<lparr>cf_reference_core := atoi v\<rparr>)
         | Throws m \<Rightarrow> Throws m | ExitsZero \<Rightarrow> ExitsZero)
      else if arg = ''--cores'' then
        (case require_value arg rest of
           Returns (v, vs) \<Rightarrow>
             (case parse_cores nproc v of
                Returns cores \<Rightarrow> parse_options nproc vs (cfg\<lparr>cf_cores := cores\<rparr>)
              | Throws m \<Rightarrow> Throws m | ExitsZero \<Rightarrow> ExitsZero)
         | Throws m \<Rightarrow> Throws m | ExitsZero \<Rightarrow> ExitsZero)
      else if arg = ''--samples'' then
        (case require_value arg rest of
           Returns (v, vs) \<Rightarrow> parse_options nproc vs (cfg\<lparr>cf_samples := atoi v\<rparr>)
         | Throws m \<Rightarrow> Throws m | ExitsZero \<Rightarrow> ExitsZero)
      else if arg = ''--warmup'' then
        (case require_value arg rest of
           Returns (v, vs) \<Rightarrow> parse_options nproc vs (cfg\<lparr>cf_warmup := atoi v\<rparr>)
         | Throws m \<Rightarrow> Throws m | ExitsZero \<Rightarrow> ExitsZero)
      else if arg = ''--threshold-cycles'' then
        (case require_value arg rest of
           Returns (v, vs) \<Rightarrow> parse_options nproc vs (cfg\<lparr>cf_threshold_cycles := atoi v\<rparr>)
         | Throws m \<Rightarrow> Throws m | ExitsZero \<Rightarrow> ExitsZero)
      else if arg = ''--help'' \<or> arg = ''-h'' then ExitsZero
      else Throws (''unknown argument: '' @ arg))"
  by pat_completeness auto

termination
  by (relation "measure (\<lambda>(n, xs, c). length xs)") (auto simp: require_value_def split: list.splits)

definition check_config :: "i32 \<Rightarrow> tsc_config \<Rightarrow> tsc_config tsc_outcome" where
  "check_config n cfg =
     (if sint (cf_reference_core cfg) < 0 \<or> sint (cf_reference_core cfg) \<ge> sint n
      then Throws ''invalid --reference-core''
      else if sint (cf_samples cfg) \<le> 0 \<or> sint (cf_warmup cfg) < 0 \<or> sint (cf_threshold_cycles cfg) < 0
      then Throws ''--samples must be positive; --warmup and --threshold-cycles non-negative''
      else Returns cfg)"

definition tsc_parse_args :: "int \<Rightarrow> string list \<Rightarrow> tsc_config tsc_outcome" where
  "tsc_parse_args nproc argv =
     and_then (parse_cores nproc ''all'') (\<lambda>cores.
       and_then (parse_options nproc (drop 1 argv) (default_config cores)) (\<lambda>cfg.
         and_then (online_cores nproc) (\<lambda>n. check_config n cfg)))"

section \<open>Samples\<close>

text \<open>The instruction returns the counter in two halves and the identifier of the core.\<close>

definition rdtscp :: "u32 \<Rightarrow> u32 \<Rightarrow> u32 \<Rightarrow> u64 \<times> u32" where
  "rdtscp lo hi cpu = (push_bit 32 (ucast hi) OR ucast lo, cpu)"

text \<open>\<open>int64_t\<close> values are 64-bit words read with \<open>sint\<close>.\<close>

definition tsc_delta :: "u64 \<Rightarrow> u64 \<Rightarrow> 64 word" where
  "tsc_delta lhs rhs = (if lhs \<ge> rhs then lhs - rhs else - (rhs - lhs))"

record sample =
  sa_offset_cycles :: "64 word"
  sa_roundtrip_cycles :: u64

definition first_best :: sample where
  "first_best = \<lparr>sa_offset_cycles = 0, sa_roundtrip_cycles = - 1\<rparr>"

definition sample_of :: "u64 \<Rightarrow> u64 \<Rightarrow> u64 \<Rightarrow> sample" where
  "sample_of start target_tsc end_tsc =
     (let roundtrip = end_tsc - start; midpoint = start + roundtrip div 2
      in \<lparr>sa_offset_cycles = tsc_delta target_tsc midpoint, sa_roundtrip_cycles = roundtrip\<rparr>)"

record pair_stats =
  ps_core :: i32
  ps_best_offset_cycles :: "64 word"
  ps_best_roundtrip_cycles :: u64
  ps_uncertainty_cycles :: u64
  ps_low_bound_cycles :: "64 word"
  ps_high_bound_cycles :: "64 word"
  ps_reference_aux :: u32
  ps_target_aux :: u32
  ps_pass :: bool

definition llabs :: "64 word \<Rightarrow> 64 word" where
  "llabs x = (if sint x < 0 then - x else x)"

definition pair_stats_of :: "tsc_config \<Rightarrow> i32 \<Rightarrow> sample \<Rightarrow> u32 \<Rightarrow> u32 \<Rightarrow> pair_stats" where
  "pair_stats_of cfg target_core best ref_aux target_aux =
     (let uncertainty = (sa_roundtrip_cycles best + 1) div 2
      in \<lparr>ps_core = target_core, ps_best_offset_cycles = sa_offset_cycles best,
          ps_best_roundtrip_cycles = sa_roundtrip_cycles best, ps_uncertainty_cycles = uncertainty,
          ps_low_bound_cycles = sa_offset_cycles best - uncertainty,
          ps_high_bound_cycles = sa_offset_cycles best + uncertainty,
          ps_reference_aux = ref_aux, ps_target_aux = target_aux,
          ps_pass = (sint (llabs (sa_offset_cycles best)) \<le> sint (scast (cf_threshold_cycles cfg) + uncertainty))\<rparr>)"

section \<open>The two threads\<close>

datatype target_pc = TPin | TReady | TStopCheck | TRequest | TRead | TStoreTsc | TStoreAux | TStoreAck | TDone

datatype ref_pc = RWaitReady | RPin | RHead | RStart | RRequest | RSpin | REnd | RLoad | RLoadAux | RStop | RBump | RJoin | RDone

record handshake =
  hs_request :: u64
  hs_ack :: u64
  hs_ready :: bool
  hs_stop :: bool
  hs_target_tsc :: u64
  hs_target_aux :: u32
  tg_pc :: target_pc
  tg_seen :: u64
  tg_seq :: u64
  tg_tsc :: u64
  tg_aux :: u32
  rf_pc :: ref_pc
  rf_i :: int
  rf_start :: u64
  rf_ref_aux :: u32
  rf_end :: u64
  rf_best :: sample
  rf_best_ref_aux :: u32
  rf_best_target_aux :: u32
  hs_terminated :: bool
  hs_now :: nat

text \<open>
  The machine: the counters of the two cores at a time, their identifiers, and whether pinning a
  thread to them succeeds. \<open>std::terminate\<close> ends the process when an exception leaves a thread, or
  destroys a thread that can still be joined.
\<close>

record tsc_machine =
  mc_ref_tsc :: "nat \<Rightarrow> u64"
  mc_target_tsc :: "nat \<Rightarrow> u64"
  mc_ref_aux :: u32
  mc_target_aux :: u32
  mc_ref_pins :: bool
  mc_target_pins :: bool

definition read_counter :: "u64 \<Rightarrow> u32 \<Rightarrow> u64 \<times> u32" where
  "read_counter v aux = rdtscp (ucast v) (ucast (drop_bit 32 v)) aux"

definition init_handshake :: handshake where
  "init_handshake =
     \<lparr>hs_request = 0, hs_ack = 0, hs_ready = False, hs_stop = False, hs_target_tsc = 0, hs_target_aux = 0,
      tg_pc = TPin, tg_seen = 0, tg_seq = 0, tg_tsc = 0, tg_aux = 0,
      rf_pc = RWaitReady, rf_i = 0, rf_start = 0, rf_ref_aux = 0, rf_end = 0, rf_best = first_best,
      rf_best_ref_aux = 0, rf_best_target_aux = 0, hs_terminated = False, hs_now = 0\<rparr>"

definition target_step :: "tsc_machine \<Rightarrow> handshake \<Rightarrow> handshake" where
  "target_step mc s =
     (case tg_pc s of
        TPin \<Rightarrow> if mc_target_pins mc then s\<lparr>tg_pc := TReady\<rparr> else s\<lparr>hs_terminated := True\<rparr>
      | TReady \<Rightarrow> s\<lparr>hs_ready := True, tg_seen := 0, tg_pc := TStopCheck\<rparr>
      | TStopCheck \<Rightarrow> s\<lparr>tg_pc := (if hs_stop s then TDone else TRequest)\<rparr>
      | TRequest \<Rightarrow>
          if hs_request s = tg_seen s then s\<lparr>tg_seq := hs_request s, tg_pc := TStopCheck\<rparr>
          else s\<lparr>tg_seq := hs_request s, tg_seen := hs_request s, tg_pc := TRead\<rparr>
      | TRead \<Rightarrow>
          let (tsc, aux) = read_counter (mc_target_tsc mc (hs_now s)) (mc_target_aux mc)
          in s\<lparr>tg_tsc := tsc, tg_aux := aux, tg_pc := TStoreTsc\<rparr>
      | TStoreTsc \<Rightarrow> s\<lparr>hs_target_tsc := tg_tsc s, tg_pc := TStoreAux\<rparr>
      | TStoreAux \<Rightarrow> s\<lparr>hs_target_aux := tg_aux s, tg_pc := TStoreAck\<rparr>
      | TStoreAck \<Rightarrow> s\<lparr>hs_ack := tg_seq s, tg_pc := TStopCheck\<rparr>
      | TDone \<Rightarrow> s)"

definition seq_of :: "int \<Rightarrow> u64" where
  "seq_of i = of_int (i + 1)"

text \<open>\<open>warmup\<close> and \<open>total_n\<close> (\<open>total_samples\<close>) are the numbers of samples of \<open>measure_pair\<close>.\<close>

definition ref_step :: "tsc_machine \<Rightarrow> int \<Rightarrow> int \<Rightarrow> handshake \<Rightarrow> handshake" where
  "ref_step mc warmup total_n s =
     (case rf_pc s of
        RWaitReady \<Rightarrow> if hs_ready s then s\<lparr>rf_pc := RPin\<rparr> else s
      | RPin \<Rightarrow> if mc_ref_pins mc then s\<lparr>rf_pc := RHead\<rparr> else s\<lparr>hs_terminated := True\<rparr>
      | RHead \<Rightarrow> s\<lparr>rf_pc := (if rf_i s < total_n then RStart else RStop)\<rparr>
      | RStart \<Rightarrow>
          let (tsc, aux) = read_counter (mc_ref_tsc mc (hs_now s)) (mc_ref_aux mc)
          in s\<lparr>rf_start := tsc, rf_ref_aux := aux, rf_pc := RRequest\<rparr>
      | RRequest \<Rightarrow> s\<lparr>hs_request := seq_of (rf_i s), rf_pc := RSpin\<rparr>
      | RSpin \<Rightarrow> if hs_ack s \<noteq> seq_of (rf_i s) then s else s\<lparr>rf_pc := REnd\<rparr>
      | REnd \<Rightarrow>
          let s' = s\<lparr>rf_end := fst (read_counter (mc_ref_tsc mc (hs_now s)) (mc_ref_aux mc))\<rparr>
          in if rf_i s < warmup then s'\<lparr>rf_i := rf_i s + 1, rf_pc := RHead\<rparr> else s'\<lparr>rf_pc := RLoad\<rparr>
      | RLoad \<Rightarrow>
          let x = sample_of (rf_start s) (hs_target_tsc s) (rf_end s)
          in if sa_roundtrip_cycles x < sa_roundtrip_cycles (rf_best s)
             then s\<lparr>rf_best := x, rf_best_ref_aux := rf_ref_aux s, rf_pc := RLoadAux\<rparr>
             else s\<lparr>rf_i := rf_i s + 1, rf_pc := RHead\<rparr>
      | RLoadAux \<Rightarrow> s\<lparr>rf_best_target_aux := hs_target_aux s, rf_i := rf_i s + 1, rf_pc := RHead\<rparr>
      | RStop \<Rightarrow> s\<lparr>hs_stop := True, rf_pc := RBump\<rparr>
      | RBump \<Rightarrow> s\<lparr>hs_request := hs_request s + 1, rf_pc := RJoin\<rparr>
      | RJoin \<Rightarrow> if tg_pc s = TDone then s\<lparr>rf_pc := RDone\<rparr> else s
      | RDone \<Rightarrow> s)"

text \<open>What the scheduler does next: a step of a thread, or some time passes.\<close>

datatype actor = Reference | Target | Elapse nat

fun act :: "tsc_machine \<Rightarrow> int \<Rightarrow> int \<Rightarrow> actor \<Rightarrow> handshake \<Rightarrow> handshake" where
  "act mc warmup total_n Reference s = (if hs_terminated s then s else ref_step mc warmup total_n s)"
| "act mc warmup total_n Target s = (if hs_terminated s then s else target_step mc s)"
| "act mc warmup total_n (Elapse n) s = s\<lparr>hs_now := hs_now s + n\<rparr>"

inductive tsc_step :: "tsc_machine \<Rightarrow> int \<Rightarrow> int \<Rightarrow> handshake \<Rightarrow> handshake \<Rightarrow> bool"
  for mc warmup total_n
where
  tsc_stepI: "tsc_step mc warmup total_n s (act mc warmup total_n a s)"

text \<open>
  \<open>measure_pair\<close> under a schedule: the statistics, \<open>Inr ()\<close> when the process was terminated, and
  \<open>None\<close> when the schedule ends too early or the number of samples overflows an \<open>int\<close>.
\<close>

definition total_samples :: "tsc_config \<Rightarrow> int option" where
  "total_samples cfg =
     (let n = sint (cf_warmup cfg) + sint (cf_samples cfg)
      in if n < 2 ^ 31 \<and> n \<ge> - (2 ^ 31) then Some n else None)"

definition finish_pair :: "tsc_config \<Rightarrow> i32 \<Rightarrow> handshake \<Rightarrow> (pair_stats + unit) option" where
  "finish_pair cfg target_core s =
     (if hs_terminated s then Some (Inr ())
      else if rf_pc s = RDone
      then Some (Inl (pair_stats_of cfg target_core (rf_best s) (rf_best_ref_aux s) (rf_best_target_aux s)))
      else None)"

definition measure_pair :: "tsc_machine \<Rightarrow> actor list \<Rightarrow> tsc_config \<Rightarrow> i32 \<Rightarrow> (pair_stats + unit) option" where
  "measure_pair mc sched cfg target_core =
     (case total_samples cfg of
        None \<Rightarrow> None
      | Some total_n \<Rightarrow>
          finish_pair cfg target_core (fold (act mc (sint (cf_warmup cfg)) total_n) sched init_handshake))"

section \<open>The program\<close>

definition usage_text :: "string \<Rightarrow> string" where
  "usage_text argv0 =
     ''usage: '' @ argv0 @ '' [--reference-core N] [--cores all|A,B,C]'' @ newline @
     ''       [--samples N] [--warmup N] [--threshold-cycles N]'' @ newline @ newline @
     ''Example:'' @ newline @
     ''  g++ -O2 -std=c++17 -pthread tools/tsc_sync_check.cpp -o /tmp/tsc_sync_check'' @ newline @
     ''  sudo /tmp/tsc_sync_check --reference-core 0 --cores all --samples 200000'' @ newline"

definition stats_row :: "i32 \<Rightarrow> pair_stats \<Rightarrow> string" where
  "stats_row core st =
     dec_int (sint core) @ ''  '' @ dec_int (sint (ps_best_offset_cycles st)) @ ''  '' @
     dec_nat (unat (ps_uncertainty_cycles st)) @ ''  '' @ dec_int (sint (ps_low_bound_cycles st)) @ ''  '' @
     dec_int (sint (ps_high_bound_cycles st)) @ ''  '' @ dec_nat (unat (ps_best_roundtrip_cycles st)) @ ''  '' @
     dec_nat (unat (ps_reference_aux st)) @ ''  '' @ dec_nat (unat (ps_target_aux st)) @ ''  '' @
     (if ps_pass st then ''ok'' else ''check'') @ newline"

text \<open>The loop over the cores: the verdict and the rows, or termination.\<close>

fun measure_cores ::
  "(i32 \<Rightarrow> (pair_stats + unit) option) \<Rightarrow> i32 \<Rightarrow> i32 list \<Rightarrow> bool \<Rightarrow> ((bool \<times> string) + unit) option"
where
  "measure_cores meas reference [] all_pass = Some (Inl (all_pass, []))"
| "measure_cores meas reference (core # cores) all_pass =
     (if core = reference then measure_cores meas reference cores all_pass
      else
        (case meas core of
           None \<Rightarrow> None
         | Some (Inr u) \<Rightarrow> Some (Inr u)
         | Some (Inl st) \<Rightarrow>
             (case measure_cores meas reference cores (all_pass \<and> ps_pass st) of
                Some (Inl (verdict, rows)) \<Rightarrow> Some (Inl (verdict, stats_row core st @ rows))
              | other \<Rightarrow> other)))"

definition config_line :: "tsc_config \<Rightarrow> string" where
  "config_line cfg =
     ''reference_core='' @ dec_int (sint (cf_reference_core cfg)) @ '' samples='' @ dec_int (sint (cf_samples cfg)) @
     '' warmup='' @ dec_int (sint (cf_warmup cfg)) @ '' threshold_cycles='' @
     dec_int (sint (cf_threshold_cycles cfg)) @ newline @ newline"

definition table_header :: string where
  "table_header =
     ''core  best_offset  uncertainty  bound_low  bound_high  roundtrip  ref_aux  target_aux  verdict'' @ newline @
     ''----  -----------  -----------  ---------  ----------  ---------  -------  ----------  -------'' @ newline"

definition interpretation_text :: string where
  "interpretation_text =
     newline @ ''Interpretation: best_offset is target_core_tsc - reference_core_tsc at the'' @ newline @
     ''midpoint of the lowest-latency ping-pong sample. If zero is inside the'' @ newline @
     ''[bound_low, bound_high] interval, the measurement did not prove skew.'' @ newline"

text \<open>How the program ends, with what it wrote to \<open>cout\<close> and \<open>cerr\<close>; \<open>Aborted\<close> is \<open>std::terminate\<close>.\<close>

datatype tsc_exit = Exited int string string | Aborted

definition tsc_main ::
  "int \<Rightarrow> (tsc_config \<Rightarrow> i32 \<Rightarrow> (pair_stats + unit) option) \<Rightarrow> string list \<Rightarrow> tsc_exit option"
where
  "tsc_main nproc meas argv =
     (case tsc_parse_args nproc argv of
        Throws msg \<Rightarrow> Some (Exited 1 [] (''error: '' @ msg @ newline @ usage_text (hd argv)))
      | ExitsZero \<Rightarrow> Some (Exited 0 [] (usage_text (hd argv)))
      | Returns cfg \<Rightarrow>
          (case measure_cores (meas cfg) (cf_reference_core cfg) (cf_cores cfg) True of
             None \<Rightarrow> None
           | Some (Inr u) \<Rightarrow> Some Aborted
           | Some (Inl (all_pass, rows)) \<Rightarrow>
               Some (Exited (if all_pass then 0 else 2)
                       (config_line cfg @ table_header @ rows @ interpretation_text) [])))"

end
