(* ===== verification/TSC_Handshake.thy ===== *)
theory TSC_Handshake
  imports TSC_Sync
begin

text \<open>
  The invariant of the handshake between the two threads of the TSC check, over every interleaving,
  and what it gives: each sample brackets the reading of the target, the best sample is one of them,
  and the handshake ends.
\<close>

section \<open>Counters\<close>

lemma read_counter_fst [simp]: "fst (read_counter v aux) = v"
  unfolding read_counter_def rdtscp_def fst_conv
  by (rule bit_eqI) (auto simp: bit_or_iff bit_push_bit_iff bit_ucast_iff bit_drop_bit_eq)

lemma read_counter_pair [simp]: "read_counter v aux = (v, aux)"
  using read_counter_fst [of v aux] by (simp add: prod_eq_iff) (simp add: read_counter_def rdtscp_def)

lemma seq_of_differs [simp]: "seq_of i \<noteq> of_int i" "of_int i \<noteq> seq_of i"
  by (simp_all add: seq_of_def)

lemma seq_of_next [simp]: "of_int (i + 1) = seq_of i" "of_int i + 1 = seq_of i"
  by (simp_all add: seq_of_def)

section \<open>Invariant\<close>

text \<open>A sample whose three readings were taken in order.\<close>

definition sampled :: "tsc_machine \<Rightarrow> nat \<Rightarrow> sample \<Rightarrow> bool" where
  "sampled mc now x =
     (\<exists>ts tt te. ts \<le> tt \<and> tt \<le> te \<and> te \<le> now \<and>
        x = sample_of (mc_ref_tsc mc ts) (mc_target_tsc mc tt) (mc_ref_tsc mc te))"

definition best_real :: "tsc_machine \<Rightarrow> handshake \<Rightarrow> bool" where
  "best_real mc s =
     (sampled mc (hs_now s) (rf_best s) \<and> rf_best_ref_aux s = mc_ref_aux mc \<and>
      (rf_pc s \<noteq> RLoadAux \<longrightarrow> rf_best_target_aux s = mc_target_aux mc))"

text \<open>Where the target stands: waiting for the request after \<open>q\<close>, or answering a request.\<close>

definition target_idle :: "handshake \<Rightarrow> u64 \<Rightarrow> bool" where
  "target_idle s q = ((tg_pc s = TStopCheck \<or> tg_pc s = TRequest) \<and> tg_seen s = q \<and> hs_ack s = q)"

definition target_busy :: "tsc_machine \<Rightarrow> handshake \<Rightarrow> nat \<Rightarrow> bool" where
  "target_busy mc s ts =
     (tg_seen s = seq_of (rf_i s) \<and> tg_seq s = seq_of (rf_i s) \<and> hs_ack s = of_int (rf_i s) \<and>
      (tg_pc s = TRead \<or>
       (\<exists>tt. ts \<le> tt \<and> tt \<le> hs_now s \<and> tg_tsc s = mc_target_tsc mc tt \<and> tg_aux s = mc_target_aux mc \<and>
          (tg_pc s = TStoreTsc \<or>
           tg_pc s = TStoreAux \<and> hs_target_tsc s = mc_target_tsc mc tt \<or>
           tg_pc s = TStoreAck \<and> hs_target_tsc s = mc_target_tsc mc tt \<and> hs_target_aux s = mc_target_aux mc))))"

definition answered :: "tsc_machine \<Rightarrow> handshake \<Rightarrow> nat \<Rightarrow> nat \<Rightarrow> bool" where
  "answered mc s ts t =
     (target_idle s (seq_of (rf_i s)) \<and> hs_target_aux s = mc_target_aux mc \<and>
      (\<exists>tt. ts \<le> tt \<and> tt \<le> t \<and> hs_target_tsc s = mc_target_tsc mc tt))"

definition started :: "tsc_machine \<Rightarrow> handshake \<Rightarrow> nat \<Rightarrow> bool" where
  "started mc s ts = (ts \<le> hs_now s \<and> rf_start s = mc_ref_tsc mc ts \<and> rf_ref_aux s = mc_ref_aux mc)"

text \<open>The part of the invariant that depends on where the reference thread is.\<close>

fun at_pc :: "tsc_machine \<Rightarrow> int \<Rightarrow> int \<Rightarrow> ref_pc \<Rightarrow> handshake \<Rightarrow> bool" where
  "at_pc mc warmup total_n RWaitReady s =
     (rf_i s = 0 \<and> hs_request s = 0 \<and> hs_ack s = 0 \<and> \<not> hs_stop s \<and>
      (if hs_ready s then target_idle s 0 else tg_pc s = TPin \<or> tg_pc s = TReady))"
| "at_pc mc warmup total_n RPin s =
     (rf_i s = 0 \<and> target_idle s 0 \<and> hs_request s = 0 \<and> \<not> hs_stop s)"
| "at_pc mc warmup total_n RHead s =
     (target_idle s (of_int (rf_i s)) \<and> hs_request s = of_int (rf_i s) \<and> \<not> hs_stop s)"
| "at_pc mc warmup total_n RStart s =
     (rf_i s < total_n \<and> target_idle s (of_int (rf_i s)) \<and> hs_request s = of_int (rf_i s) \<and> \<not> hs_stop s)"
| "at_pc mc warmup total_n RRequest s =
     (rf_i s < total_n \<and> target_idle s (of_int (rf_i s)) \<and> hs_request s = of_int (rf_i s) \<and> \<not> hs_stop s \<and>
      (\<exists>ts. started mc s ts))"
| "at_pc mc warmup total_n RSpin s =
     (rf_i s < total_n \<and> hs_request s = seq_of (rf_i s) \<and> \<not> hs_stop s \<and>
      (\<exists>ts. started mc s ts \<and>
         (target_idle s (of_int (rf_i s)) \<or> target_busy mc s ts \<or> answered mc s ts (hs_now s))))"
| "at_pc mc warmup total_n REnd s =
     (rf_i s < total_n \<and> hs_request s = seq_of (rf_i s) \<and> \<not> hs_stop s \<and>
      (\<exists>ts. started mc s ts \<and> answered mc s ts (hs_now s)))"
| "at_pc mc warmup total_n RLoad s =
     (rf_i s < total_n \<and> warmup \<le> rf_i s \<and> hs_request s = seq_of (rf_i s) \<and> \<not> hs_stop s \<and>
      (\<exists>ts te. started mc s ts \<and> te \<le> hs_now s \<and> rf_end s = mc_ref_tsc mc te \<and> answered mc s ts te))"
| "at_pc mc warmup total_n RLoadAux s =
     (rf_i s < total_n \<and> hs_request s = seq_of (rf_i s) \<and> \<not> hs_stop s \<and>
      target_idle s (seq_of (rf_i s)) \<and> hs_target_aux s = mc_target_aux mc \<and> best_real mc s)"
| "at_pc mc warmup total_n RStop s =
     (rf_i s \<ge> total_n \<and> target_idle s (of_int (rf_i s)) \<and> hs_request s = of_int (rf_i s) \<and> \<not> hs_stop s)"
| "at_pc mc warmup total_n RBump s =
     (rf_i s \<ge> total_n \<and> hs_stop s \<and> tg_pc s \<noteq> TPin \<and> tg_pc s \<noteq> TReady)"
| "at_pc mc warmup total_n RJoin s =
     (rf_i s \<ge> total_n \<and> hs_stop s \<and> tg_pc s \<noteq> TPin \<and> tg_pc s \<noteq> TReady)"
| "at_pc mc warmup total_n RDone s = (rf_i s \<ge> total_n \<and> tg_pc s = TDone)"

definition tsc_inv :: "tsc_machine \<Rightarrow> int \<Rightarrow> int \<Rightarrow> handshake \<Rightarrow> bool" where
  "tsc_inv mc warmup total_n s =
     (at_pc mc warmup total_n (rf_pc s) s \<and> 0 \<le> rf_i s \<and> (rf_best s = first_best \<or> best_real mc s) \<and>
      (warmup < rf_i s \<longrightarrow> best_real mc s))"

lemmas inv_defs = tsc_inv_def best_real_def sampled_def target_idle_def target_busy_def answered_def started_def

lemma init_inv: "0 \<le> warmup \<Longrightarrow> tsc_inv mc warmup total_n init_handshake"
  by (simp add: tsc_inv_def init_handshake_def)

lemma sampled_later: "sampled mc t x \<Longrightarrow> t \<le> t' \<Longrightarrow> sampled mc t' x"
  unfolding sampled_def by (elim exE conjE, intro exI conjI) (assumption | erule (1) le_trans | rule refl)+

text \<open>Time that passes only weakens the bounds.\<close>

lemma elapse_inv:
  assumes "tsc_inv mc warmup total_n s"
  shows "tsc_inv mc warmup total_n (s\<lparr>hs_now := hs_now s + n\<rparr>)"
proof -
  let ?s = "s\<lparr>hs_now := hs_now s + n\<rparr>"
  have b: "best_real mc s \<Longrightarrow> best_real mc ?s"
    using sampled_later [OF _ le_add1] by (simp add: best_real_def)
  have st: "started mc s ts \<Longrightarrow> started mc ?s ts" for ts by (simp add: started_def)
  have i: "target_idle ?s q = target_idle s q" for q by (simp add: target_idle_def)
  have a: "answered mc ?s ts te = answered mc s ts te" for ts te by (simp add: answered_def i)
  have a': "answered mc s ts t \<Longrightarrow> t \<le> t' \<Longrightarrow> answered mc s ts t'" for ts t t'
    unfolding answered_def by (meson le_trans)
  have bu: "target_busy mc s ts \<Longrightarrow> target_busy mc ?s ts" for ts
    unfolding target_busy_def by (auto intro: trans_le_add1)
  have "at_pc mc warmup total_n (rf_pc s) ?s"
    using assms b st bu a' [OF _ le_add1] i
    by (cases "rf_pc s") (auto simp: tsc_inv_def a intro: trans_le_add1; blast)+
  then show ?thesis using assms b by (auto simp: tsc_inv_def)
qed

text \<open>A step of the target changes none of what the reference thread owns.\<close>

lemma target_inv:
  assumes "tsc_inv mc warmup total_n s"
  shows "tsc_inv mc warmup total_n (target_step mc s)"
proof -
  let ?s = "target_step mc s"
  have rf: "rf_pc ?s = rf_pc s" "rf_i ?s = rf_i s" "rf_start ?s = rf_start s" "rf_ref_aux ?s = rf_ref_aux s"
    "rf_end ?s = rf_end s" "rf_best ?s = rf_best s" "rf_best_ref_aux ?s = rf_best_ref_aux s"
    "rf_best_target_aux ?s = rf_best_target_aux s" "hs_now ?s = hs_now s" "hs_request ?s = hs_request s"
    "hs_stop ?s = hs_stop s"
    by (simp_all add: target_step_def split: target_pc.split)
  have st: "started mc ?s = started mc s" by (simp add: started_def rf fun_eq_iff)
  have b: "best_real mc ?s = best_real mc s" by (simp add: best_real_def rf)
  have idle: "target_idle ?s q" if "target_idle s q" "hs_request s = q" "\<not> hs_stop s" for q
    using that by (auto simp: target_idle_def target_step_def)
  have aux: "hs_target_aux ?s = hs_target_aux s" "hs_target_tsc ?s = hs_target_tsc s" if "target_idle s q" for q
    using that by (auto simp: target_idle_def target_step_def)
  have ans: "answered mc ?s ts t" if "answered mc s ts t" "hs_request s = seq_of (rf_i s)" "\<not> hs_stop s" for ts t
    using that idle aux unfolding answered_def rf by metis
  have late: "tg_pc s \<noteq> TPin \<Longrightarrow> tg_pc s \<noteq> TReady \<Longrightarrow> tg_pc ?s \<noteq> TPin \<and> tg_pc ?s \<noteq> TReady"
    "tg_pc s = TDone \<Longrightarrow> tg_pc ?s = TDone"
    by (auto simp: target_step_def split: target_pc.split)
  have new: "target_idle ?s (of_int (rf_i s)) \<or> target_busy mc ?s ts"
    if "target_idle s (of_int (rf_i s))" "hs_request s = seq_of (rf_i s)" "\<not> hs_stop s" for ts
    using that by (auto simp: target_idle_def target_busy_def target_step_def rf)
  have busy: "target_busy mc ?s ts \<or> answered mc ?s ts (hs_now s)"
    if "target_busy mc s ts" "ts \<le> hs_now s" for ts
  proof (cases "tg_pc s = TRead")
    case True
    then have "target_busy mc ?s ts" using that by (auto simp: target_busy_def target_step_def)
    then show ?thesis ..
  next
    case False
    with that(1) obtain tt where "ts \<le> tt" "tt \<le> hs_now s" "tg_tsc s = mc_target_tsc mc tt"
      "tg_pc s = TStoreTsc \<or> tg_pc s = TStoreAux \<or> tg_pc s = TStoreAck"
      "tg_pc s \<noteq> TStoreTsc \<Longrightarrow> hs_target_tsc s = mc_target_tsc mc tt"
      "tg_pc s = TStoreAck \<Longrightarrow> hs_target_aux s = mc_target_aux mc"
      unfolding target_busy_def by force
    with that(1) show ?thesis
      by (elim disjE) (auto simp: target_busy_def answered_def target_idle_def target_step_def)
  qed
  have "at_pc mc warmup total_n (rf_pc s) ?s"
  proof (cases "rf_pc s")
    case RWaitReady
    with assms show ?thesis by (auto simp: tsc_inv_def target_idle_def target_step_def split: if_splits)
  next
    case RSpin
    with assms new busy ans show ?thesis
      by (simp add: tsc_inv_def rf st) (metis started_def)
  next
    case RPin
    with assms idle show ?thesis by (simp add: tsc_inv_def rf st b)
  next
    case RHead
    with assms idle show ?thesis by (simp add: tsc_inv_def rf st b)
  next
    case RStart
    with assms idle show ?thesis by (simp add: tsc_inv_def rf st b)
  next
    case RRequest
    with assms idle show ?thesis by (simp add: tsc_inv_def rf st b)
  next
    case RLoadAux
    with assms idle aux [of "seq_of (rf_i s)"] show ?thesis by (simp add: tsc_inv_def rf st b)
  next
    case RStop
    with assms idle show ?thesis by (simp add: tsc_inv_def rf st b)
  next
    case RBump
    with assms late show ?thesis by (simp add: tsc_inv_def rf st b)
  next
    case RJoin
    with assms late show ?thesis by (simp add: tsc_inv_def rf st b)
  next
    case RDone
    with assms late show ?thesis by (simp add: tsc_inv_def rf st b)
  next
    case REnd
    with assms ans show ?thesis by (simp add: tsc_inv_def rf st) blast
  next
    case RLoad
    with assms ans show ?thesis by (simp add: tsc_inv_def rf st) blast
  qed
  then show ?thesis using assms by (simp add: tsc_inv_def rf b)
qed

text \<open>
  A step of the reference thread, on a machine whose counter did not advance by its whole range
  between two readings up to now.
\<close>

definition no_lap :: "tsc_machine \<Rightarrow> nat \<Rightarrow> bool" where
  "no_lap mc now = (\<forall>ts te. ts \<le> te \<longrightarrow> te \<le> now \<longrightarrow> mc_ref_tsc mc te - mc_ref_tsc mc ts \<noteq> - 1)"

lemma no_lap_earlier: "no_lap mc t' \<Longrightarrow> t \<le> t' \<Longrightarrow> no_lap mc t"
  unfolding no_lap_def by (meson le_trans)

lemma load_inv:
  assumes inv: "tsc_inv mc warmup total_n s" and pc: "rf_pc s = RLoad" and "no_lap mc (hs_now s)"
  shows "tsc_inv mc warmup total_n (ref_step mc warmup total_n s)"
proof -
  define x where "x = sample_of (rf_start s) (hs_target_tsc s) (rf_end s)"
  from inv pc obtain ts te where t: "started mc s ts" "te \<le> hs_now s" "rf_end s = mc_ref_tsc mc te"
    "answered mc s ts te" and w: "warmup \<le> rf_i s" "0 \<le> rf_i s" "rf_i s < total_n" "hs_request s = seq_of (rf_i s)" "\<not> hs_stop s"
    and best: "rf_best s = first_best \<or> best_real mc s"
    by (auto simp: tsc_inv_def)
  from t(1,4) obtain tt where tt: "ts \<le> tt" "tt \<le> te" "hs_target_tsc s = mc_target_tsc mc tt"
    and st: "rf_start s = mc_ref_tsc mc ts" "rf_ref_aux s = mc_ref_aux mc"
    and idle: "target_idle s (seq_of (rf_i s))" "hs_target_aux s = mc_target_aux mc"
    by (auto simp: answered_def started_def)
  have x: "sampled mc (hs_now s) x" using t(2,3) tt st(1) unfolding sampled_def x_def by auto
  show ?thesis
  proof (cases "sa_roundtrip_cycles x < sa_roundtrip_cycles (rf_best s)")
    case True
    then have s': "ref_step mc warmup total_n s = s\<lparr>rf_best := x, rf_best_ref_aux := rf_ref_aux s, rf_pc := RLoadAux\<rparr>"
      using pc by (simp add: ref_step_def x_def)
    have "best_real mc (ref_step mc warmup total_n s)" using x st(2) by (simp add: s' best_real_def)
    then show ?thesis using w idle by (simp add: tsc_inv_def s' target_idle_def)
  next
    case False
    then have s': "ref_step mc warmup total_n s = s\<lparr>rf_i := rf_i s + 1, rf_pc := RHead\<rparr>"
      using pc by (simp add: ref_step_def x_def)
    have "sa_roundtrip_cycles x \<noteq> - 1"
      using assms(3) t(2,3) tt st(1) by (simp add: x_def sample_of_def Let_def no_lap_def)
    moreover have "\<not> (a :: u64) < - 1 \<Longrightarrow> a = - 1" for a by (simp add: not_less word_order.extremum_unique)
    ultimately have "rf_best s \<noteq> first_best" using False by (auto simp: first_best_def)
    then have "best_real mc (ref_step mc warmup total_n s)" using best pc by (simp add: s' best_real_def)
    then show ?thesis using w idle by (simp add: tsc_inv_def s' target_idle_def)
  qed
qed

lemma ref_inv:
  assumes inv: "tsc_inv mc warmup total_n s" and "no_lap mc (hs_now s)"
  shows "tsc_inv mc warmup total_n (ref_step mc warmup total_n s)"
proof (cases "rf_pc s")
  case RLoad
  with assms show ?thesis by (intro load_inv)
next
  case RLoadAux
  with inv show ?thesis by (auto simp: tsc_inv_def ref_step_def best_real_def target_idle_def)
next
  case REnd
  with inv obtain ts where ts: "started mc s ts" "answered mc s ts (hs_now s)"
    and w: "rf_i s < total_n" "0 \<le> rf_i s" "hs_request s = seq_of (rf_i s)" "\<not> hs_stop s"
    and best: "rf_best s = first_best \<or> best_real mc s" "warmup < rf_i s \<longrightarrow> best_real mc s"
    by (auto simp: tsc_inv_def)
  show ?thesis
  proof (cases "rf_i s < warmup")
    case True
    with REnd have "ref_step mc warmup total_n s = s\<lparr>rf_end := mc_ref_tsc mc (hs_now s), rf_i := rf_i s + 1, rf_pc := RHead\<rparr>"
      by (simp add: ref_step_def)
    with True REnd ts w best show ?thesis by (simp add: tsc_inv_def best_real_def answered_def target_idle_def)
  next
    case False
    with REnd have s': "ref_step mc warmup total_n s = s\<lparr>rf_end := mc_ref_tsc mc (hs_now s), rf_pc := RLoad\<rparr>"
      by (simp add: ref_step_def)
    have "started mc (ref_step mc warmup total_n s) ts" "answered mc (ref_step mc warmup total_n s) ts (hs_now s)"
      using ts by (simp_all add: s' started_def answered_def target_idle_def)
    moreover have "best_real mc (ref_step mc warmup total_n s) = best_real mc s" using REnd by (simp add: s' best_real_def)
    ultimately show ?thesis using False w best
      unfolding tsc_inv_def s' by (simp del: ex_simps) (metis order_refl)
  qed
next
  case RSpin
  with inv show ?thesis
    by (auto simp: tsc_inv_def ref_step_def best_real_def target_idle_def answered_def started_def target_busy_def)
qed (use inv in \<open>auto simp: tsc_inv_def ref_step_def best_real_def target_idle_def started_def\<close>)

lemma step_now [simp]:
  "hs_now (ref_step mc warmup total_n s) = hs_now s" "hs_now (target_step mc s) = hs_now s"
  by (simp_all add: ref_step_def target_step_def Let_def split: ref_pc.split target_pc.split)

lemma reachable_inv:
  assumes "(tsc_step mc warmup total_n)\<^sup>*\<^sup>* init_handshake s" "no_lap mc (hs_now s)" "0 \<le> warmup"
  shows "tsc_inv mc warmup total_n s"
  using assms(1,2)
proof (induction rule: rtranclp_induct)
  case base
  show ?case using assms(3) by (rule init_inv)
next
  case (step s s')
  then obtain a where a: "s' = act mc warmup total_n a s" by (auto elim: tsc_step.cases)
  then have "hs_now s \<le> hs_now s'" by (cases a) auto
  then have nl: "no_lap mc (hs_now s)" using no_lap_earlier [OF step.prems] by blast
  show ?case using a step.IH [OF nl] nl ref_inv target_inv elapse_inv by (cases a) simp_all
qed

lemma fold_reachable: "(tsc_step mc warmup total_n)\<^sup>*\<^sup>* s (fold (act mc warmup total_n) sched s)"
proof (induction sched arbitrary: s)
  case (Cons a sched)
  have "tsc_step mc warmup total_n s (act mc warmup total_n a s)" by (rule tsc_stepI)
  then show ?case using Cons [of "act mc warmup total_n a s"] by (simp add: converse_rtranclp_into_rtranclp)
qed simp

section \<open>The handshake ends\<close>

text \<open>What the reference thread waits for, and how many steps of the target away it is.\<close>

definition waits :: "handshake \<Rightarrow> bool" where
  "waits s =
     (case rf_pc s of
        RWaitReady \<Rightarrow> \<not> hs_ready s | RSpin \<Rightarrow> hs_ack s \<noteq> seq_of (rf_i s) | RJoin \<Rightarrow> tg_pc s \<noteq> TDone | _ \<Rightarrow> False)"

definition target_dist :: "handshake \<Rightarrow> nat" where
  "target_dist s =
     (if rf_pc s = RJoin
      then (case tg_pc s of TRequest \<Rightarrow> 6 | TRead \<Rightarrow> 5 | TStoreTsc \<Rightarrow> 4 | TStoreAux \<Rightarrow> 3 | TStoreAck \<Rightarrow> 2 | TStopCheck \<Rightarrow> 1 | _ \<Rightarrow> 0)
      else (case tg_pc s of TPin \<Rightarrow> 2 | TReady \<Rightarrow> 1 | TStopCheck \<Rightarrow> 6 | TRequest \<Rightarrow> 5 | TRead \<Rightarrow> 4 | TStoreTsc \<Rightarrow> 3
            | TStoreAux \<Rightarrow> 2 | TStoreAck \<Rightarrow> 1 | TDone \<Rightarrow> 0))"

definition ref_rank :: "int \<Rightarrow> handshake \<Rightarrow> nat" where
  "ref_rank total_n s =
     (let k = 7 * nat (total_n - rf_i s)
      in case rf_pc s of
           RWaitReady \<Rightarrow> k + 6 | RPin \<Rightarrow> k + 5 | RHead \<Rightarrow> k + 4 | RStart \<Rightarrow> k + 3 | RRequest \<Rightarrow> k + 2 | RSpin \<Rightarrow> k + 1
         | REnd \<Rightarrow> k | RLoad \<Rightarrow> k - 1 | RLoadAux \<Rightarrow> k - 2 | RStop \<Rightarrow> 3 | RBump \<Rightarrow> 2 | RJoin \<Rightarrow> 1 | RDone \<Rightarrow> 0)"

lemma target_dist_bound: "target_dist s \<le> 6"
  by (simp add: target_dist_def split: target_pc.split)

lemma target_keeps_ref [simp]:
  "rf_pc (target_step mc s) = rf_pc s" "rf_i (target_step mc s) = rf_i s"
  by (simp_all add: target_step_def split: target_pc.split)

lemma target_unblocks:
  assumes inv: "tsc_inv mc warmup total_n s" and pins: "mc_target_pins mc"
  shows "if waits s then 0 < target_dist s \<and> (waits (target_step mc s) \<longrightarrow> target_dist (target_step mc s) < target_dist s)
         else \<not> waits (target_step mc s)"
proof (cases "rf_pc s")
  case RWaitReady
  with inv pins show ?thesis
    by (auto simp: tsc_inv_def waits_def target_dist_def target_step_def target_idle_def split: if_splits)
next
  case RSpin
  with inv obtain ts where "target_idle s (of_int (rf_i s)) \<and> hs_request s = seq_of (rf_i s) \<and> \<not> hs_stop s \<or>
    target_busy mc s ts \<or> answered mc s ts (hs_now s)" by (auto simp: tsc_inv_def)
  then show ?thesis using RSpin
    by (elim disjE) (auto simp: waits_def target_dist_def target_step_def target_idle_def target_busy_def answered_def)
next
  case RJoin
  with inv have "tg_pc s \<noteq> TPin" "tg_pc s \<noteq> TReady" "hs_stop s" by (auto simp: tsc_inv_def)
  with RJoin show ?thesis
    by (cases "tg_pc s") (auto simp: waits_def target_dist_def target_step_def)
qed (simp_all add: waits_def)

lemma target_step_alive: "mc_target_pins mc \<Longrightarrow> hs_terminated (target_step mc s) = hs_terminated s"
  by (simp add: target_step_def split: target_pc.split)

lemma ref_step_alive: "mc_ref_pins mc \<Longrightarrow> hs_terminated (ref_step mc warmup total_n s) = hs_terminated s"
  by (simp add: ref_step_def Let_def split: ref_pc.split)

lemma targets_unblock:
  assumes "tsc_inv mc warmup total_n s" "mc_target_pins mc" "\<not> hs_terminated s" "waits s \<Longrightarrow> target_dist s \<le> n"
  shows "let s' = fold (act mc warmup total_n) (replicate n Target) s
         in tsc_inv mc warmup total_n s' \<and> \<not> hs_terminated s' \<and> \<not> waits s' \<and> rf_pc s' = rf_pc s \<and> rf_i s' = rf_i s \<and> hs_now s' = hs_now s"
  using assms
proof (induction n arbitrary: s)
  case 0
  then show ?case using target_unblocks [OF "0.prems"(1,2)] by (auto split: if_splits)
next
  case (Suc n)
  let ?s = "target_step mc s"
  have "waits ?s \<Longrightarrow> target_dist ?s \<le> n"
    using target_unblocks [OF Suc.prems(1,2)] Suc.prems(4) by (auto split: if_splits)
  then have "let s' = fold (act mc warmup total_n) (replicate n Target) ?s
         in tsc_inv mc warmup total_n s' \<and> \<not> hs_terminated s' \<and> \<not> waits s' \<and> rf_pc s' = rf_pc ?s \<and> rf_i s' = rf_i ?s \<and> hs_now s' = hs_now ?s"
    using Suc.prems target_inv target_step_alive by (intro Suc.IH) auto
  then show ?case using Suc.prems(3) by (simp add: Let_def)
qed

lemma ref_progress:
  assumes "tsc_inv mc warmup total_n s" "mc_ref_pins mc" "\<not> waits s" "rf_pc s \<noteq> RDone"
  shows "ref_rank total_n (ref_step mc warmup total_n s) < ref_rank total_n s"
proof -
  have k: "rf_i s < total_n \<Longrightarrow> 7 * nat (total_n - rf_i s) = 7 * nat (total_n - (rf_i s + 1)) + 7" by simp
  show ?thesis using assms k
    by (cases "rf_pc s") (auto simp: tsc_inv_def ref_rank_def ref_step_def waits_def Let_def)
qed

text \<open>A round gives the target six steps and the reference thread one.\<close>

definition fair_round :: "actor list" where
  "fair_round = replicate 6 Target @ [Reference]"

lemma round_progress:
  assumes "tsc_inv mc warmup total_n s" "no_lap mc (hs_now s)" "mc_ref_pins mc" "mc_target_pins mc" "\<not> hs_terminated s"
  shows "let s' = fold (act mc warmup total_n) fair_round s
         in tsc_inv mc warmup total_n s' \<and> \<not> hs_terminated s' \<and> hs_now s' = hs_now s \<and>
            (rf_pc s' = RDone \<or> ref_rank total_n s' < ref_rank total_n s)"
proof -
  define u where "u = fold (act mc warmup total_n) (replicate 6 Target) s"
  have u: "tsc_inv mc warmup total_n u" "\<not> hs_terminated u" "\<not> waits u" "rf_pc u = rf_pc s" "rf_i u = rf_i s"
    "hs_now u = hs_now s"
    using targets_unblock [OF assms(1,4,5) target_dist_bound] by (simp_all add: u_def Let_def)
  then have rank: "ref_rank total_n u = ref_rank total_n s" by (simp add: ref_rank_def)
  have s': "fold (act mc warmup total_n) fair_round s = ref_step mc warmup total_n u"
    using u(2) by (simp only: fair_round_def fold_append comp_apply u_def [symmetric]) simp
  have "rf_pc (ref_step mc warmup total_n u) = RDone" if "rf_pc u = RDone" using that by (simp add: ref_step_def)
  then show ?thesis
    using ref_inv [OF u(1)] assms(2) u(6) ref_step_alive [OF assms(3)] u(2) ref_progress [OF u(1) assms(3) u(3)] rank
    by (auto simp: s' Let_def)
qed

lemma rounds_finish:
  assumes "tsc_inv mc warmup total_n s" "no_lap mc (hs_now s)" "mc_ref_pins mc" "mc_target_pins mc" "\<not> hs_terminated s"
    "ref_rank total_n s \<le> n"
  shows "let s' = fold (act mc warmup total_n) (concat (replicate n fair_round)) s
         in \<not> hs_terminated s' \<and> rf_pc s' = RDone"
  using assms
proof (induction n arbitrary: s)
  case 0
  then show ?case
    by (cases "rf_pc s") (auto simp: ref_rank_def tsc_inv_def Let_def)
next
  case (Suc n)
  let ?s = "fold (act mc warmup total_n) fair_round s"
  have p: "tsc_inv mc warmup total_n ?s" "\<not> hs_terminated ?s" "hs_now ?s = hs_now s" "rf_pc ?s = RDone \<or> ref_rank total_n ?s < ref_rank total_n s"
    using round_progress [OF Suc.prems(1-5)] by (simp_all add: Let_def)
  have "ref_rank total_n ?s \<le> n" using p(4) Suc.prems(6) by (auto simp: ref_rank_def Let_def)
  with Suc.IH [OF p(1) _ Suc.prems(3,4) p(2)] Suc.prems(2) p(3) show ?case by simp
qed

end
