(* ===== verification/TSC_Properties.thy ===== *)
theory TSC_Properties
  imports TSC_Handshake
begin

text \<open>
  What the TSC check establishes: the interval it prints contains the true skew of the two counters,
  the handshake ends under a fair scheduler, the command line yields only meaningful settings, and
  a thread that cannot be pinned aborts the process.
\<close>

section \<open>Readings as integers\<close>

text \<open>
  Up to the time \<open>now\<close> the counters advance together, \<open>skew\<close> apart, and stay far below their range
  (\<open>2 ^ 62\<close> cycles are decades).
\<close>

definition skewed :: "tsc_machine \<Rightarrow> int \<Rightarrow> int \<Rightarrow> nat \<Rightarrow> bool" where
  "skewed mc base skew now =
     ((\<forall>t \<le> now. mc_ref_tsc mc t = of_int (base + int t) \<and> mc_target_tsc mc t = of_int (base + skew + int t)) \<and>
      0 \<le> base \<and> 0 \<le> base + skew \<and> base + int now < 2 ^ 62 \<and> base + skew + int now < 2 ^ 62)"

lemma sint_of_int: "- (2 ^ 63) \<le> n \<Longrightarrow> n < 2 ^ 63 \<Longrightarrow> sint (of_int n :: 64 word) = n"
  by (simp add: int_word_sint)

lemma uint_of_int: "0 \<le> n \<Longrightarrow> n < 2 ^ 64 \<Longrightarrow> uint (of_int n :: u64) = n"
  by (simp add: uint_word_of_int)

lemma div2_word: "0 \<le> n \<Longrightarrow> n < 2 ^ 64 \<Longrightarrow> (of_int n :: u64) div 2 = of_int (n div 2)"
  by (simp add: word_uint_eq_iff uint_div uint_word_of_int)

lemma tsc_delta_minus: "tsc_delta a b = a - b"
  by (simp add: tsc_delta_def)

lemma sample_value:
  assumes "skewed mc base skew now" "ts \<le> tt" "tt \<le> te" "te \<le> now"
    and x: "x = sample_of (mc_ref_tsc mc ts) (mc_target_tsc mc tt) (mc_ref_tsc mc te)"
  shows "sa_roundtrip_cycles x = of_int (int te - int ts)"
    "sa_offset_cycles x = of_int (skew + int tt - int ts - (int te - int ts) div 2)"
proof -
  have r: "mc_ref_tsc mc te - mc_ref_tsc mc ts = of_int (int te - int ts)"
    using assms(1-4) by (simp add: skewed_def)
  have d: "(of_int (int te - int ts) :: u64) div 2 = of_int ((int te - int ts) div 2)"
    using assms(1-4) by (intro div2_word) (auto simp: skewed_def)
  show "sa_roundtrip_cycles x = of_int (int te - int ts)"
    unfolding x sample_of_def Let_def by (simp only: r sample.simps)
  have m: "sa_offset_cycles x = mc_target_tsc mc tt - (mc_ref_tsc mc ts + of_int ((int te - int ts) div 2))"
    unfolding x sample_of_def Let_def by (simp only: r d sample.simps tsc_delta_minus)
  have "mc_ref_tsc mc ts = of_int (base + int ts)" "mc_target_tsc mc tt = of_int (base + skew + int tt)"
    using assms(1-4) by (auto simp: skewed_def)
  then show "sa_offset_cycles x = of_int (skew + int tt - int ts - (int te - int ts) div 2)"
    unfolding m by simp
qed

text \<open>The statistics made of such a sample.\<close>

lemma stats_bracket:
  assumes sk: "skewed mc base skew now" and sam: "sampled mc now best"
    and th: "0 \<le> sint (cf_threshold_cycles cfg)" and st: "st = pair_stats_of cfg core best ra ta"
  shows "sint (ps_low_bound_cycles st) \<le> skew \<and> skew \<le> sint (ps_high_bound_cycles st)"
    "skew = 0 \<Longrightarrow> ps_pass st"
    "ps_pass st \<Longrightarrow> \<bar>skew\<bar> \<le> sint (cf_threshold_cycles cfg) + 2 * uint (ps_uncertainty_cycles st)"
proof -
  from sam obtain ts tt te where t: "ts \<le> tt" "tt \<le> te" "te \<le> now"
    "best = sample_of (mc_ref_tsc mc ts) (mc_target_tsc mc tt) (mc_ref_tsc mc te)"
    by (auto simp: sampled_def)
  define r where "r = int te - int ts"
  define f where "f = skew + int tt - int ts - r div 2"
  define u where "u = (r + 1) div 2"
  define h where "h = sint (cf_threshold_cycles cfg)"
  have b: "0 \<le> base" "0 \<le> base + skew" "base + int now < 2 ^ 62" "base + skew + int now < 2 ^ 62"
    using sk by (simp_all add: skewed_def)
  have r: "0 \<le> r" "r < 2 ^ 62" and sb: "- (2 ^ 62) < skew" "skew < 2 ^ 62" using b t by (auto simp: r_def)
  have u: "0 \<le> u" "u \<le> 2 ^ 61" using r by (auto simp: u_def)
  have h: "0 \<le> h" "h < 2 ^ 31" using th sint_lt [of "cf_threshold_cycles cfg"] by (simp_all add: h_def)
  have ft: "f - u \<le> skew" "skew \<le> f + u" using t(1,2) by (auto simp: f_def u_def r_def)
  have fr: "- (2 ^ 62) - 2 ^ 61 < f" "f < 2 ^ 62 + 2 ^ 61"
  proof -
    have "r div 2 \<le> 2 ^ 61" "r - r div 2 \<le> 2 ^ 61" "0 \<le> r div 2" "int tt - int ts \<le> r" "0 \<le> int tt - int ts"
      using r t(1,2) by (auto simp: r_def)
    then show "- (2 ^ 62) - 2 ^ 61 < f" "f < 2 ^ 62 + 2 ^ 61" using sb r by (auto simp: f_def)
  qed
  note v = sample_value [OF sk t]
  have off: "sa_offset_cycles best = of_int f" using v(2) by (simp add: f_def r_def)
  have rt: "sa_roundtrip_cycles best = of_int r" using v(1) by (simp add: r_def)
  have "(of_int (r + 1) :: u64) div 2 = of_int u"
    unfolding u_def using r by (intro div2_word) auto
  then have unc: "ps_uncertainty_cycles st = of_int u"
    unfolding st pair_stats_of_def Let_def rt by simp
  have lo: "ps_low_bound_cycles st = of_int (f - u)" and hi: "ps_high_bound_cycles st = of_int (f + u)"
    using unc unfolding st pair_stats_of_def Let_def off by simp_all
  show "sint (ps_low_bound_cycles st) \<le> skew \<and> skew \<le> sint (ps_high_bound_cycles st)"
    using ft fr u sint_of_int [of "f - u"] sint_of_int [of "f + u"] unfolding lo hi by auto
  have "sint (llabs (of_int f)) = \<bar>f\<bar>"
  proof -
    have "sint (of_int f :: 64 word) = f" "sint (of_int (- f) :: 64 word) = - f"
      using fr by (auto intro!: sint_of_int simp del: of_int_minus)
    then show ?thesis by (simp add: llabs_def)
  qed
  moreover have "scast (cf_threshold_cycles cfg) + (of_int u :: 64 word) = of_int (h + u)"
    by (simp add: h_def)
  moreover have "sint (of_int (h + u) :: 64 word) = h + u" using h u by (intro sint_of_int) auto
  ultimately have pass: "ps_pass st = (\<bar>f\<bar> \<le> h + u)"
    using unc unfolding st pair_stats_of_def Let_def off by simp
  show "skew = 0 \<Longrightarrow> ps_pass st" using pass ft h by auto
  have "uint (ps_uncertainty_cycles st) = u" unfolding unc using u by (intro uint_of_int) auto
  then show "ps_pass st \<Longrightarrow> \<bar>skew\<bar> \<le> sint (cf_threshold_cycles cfg) + 2 * uint (ps_uncertainty_cycles st)"
    using pass ft h_def by auto
qed

section \<open>Runs of \<open>measure_pair\<close>\<close>

fun elapsed :: "actor list \<Rightarrow> nat" where
  "elapsed [] = 0"
| "elapsed (Elapse n # as) = n + elapsed as"
| "elapsed (a # as) = elapsed as"

lemma fold_now: "hs_now (fold (act mc warmup total_n) sched s) = hs_now s + elapsed sched"
  by (induction sched arbitrary: s rule: elapsed.induct) simp_all

lemma skewed_no_lap: "skewed mc base skew now \<Longrightarrow> no_lap mc now"
proof -
  assume sk: "skewed mc base skew now"
  have "(of_int (int te - int ts) :: u64) \<noteq> - 1" if "ts \<le> te" "te \<le> now" for ts te
  proof
    assume "(of_int (int te - int ts) :: u64) = - 1"
    then have "uint (of_int (int te - int ts) :: u64) = 2 ^ 64 - 1" by (simp add: unsigned_minus_1_eq_mask mask_eq_exp_minus_1)
    moreover have "uint (of_int (int te - int ts) :: u64) = int te - int ts"
      using that sk by (intro uint_of_int) (auto simp: skewed_def)
    ultimately show False using that sk by (auto simp: skewed_def)
  qed
  then show ?thesis using sk by (simp add: no_lap_def skewed_def)
qed

text \<open>What a run that returned statistics went through.\<close>

lemma measure_pair_cases:
  assumes "measure_pair mc sched cfg core = Some (Inl st)" "no_lap mc (elapsed sched)"
    "0 \<le> sint (cf_warmup cfg)" "0 < sint (cf_samples cfg)"
  obtains s where "best_real mc s" "hs_now s = elapsed sched" "rf_pc s = RDone"
    "st = pair_stats_of cfg core (rf_best s) (rf_best_ref_aux s) (rf_best_target_aux s)"
proof -
  obtain n s where n: "total_samples cfg = Some n" and s: "s = fold (act mc (sint (cf_warmup cfg)) n) sched init_handshake"
    and fin: "finish_pair cfg core s = Some (Inl st)"
    using assms(1) by (auto simp: measure_pair_def split: option.splits)
  have now: "hs_now s = elapsed sched" by (simp add: s fold_now init_handshake_def)
  have "tsc_inv mc (sint (cf_warmup cfg)) n s"
    using reachable_inv [OF fold_reachable, of mc "sint (cf_warmup cfg)" n sched] assms(2,3) now by (simp add: s)
  moreover have pc: "rf_pc s = RDone" and st: "st = pair_stats_of cfg core (rf_best s) (rf_best_ref_aux s) (rf_best_target_aux s)"
    using fin by (auto simp: finish_pair_def split: if_splits)
  moreover have "sint (cf_warmup cfg) < n" using n assms(4) by (auto simp: total_samples_def Let_def split: if_splits)
  ultimately have "best_real mc s" by (auto simp: tsc_inv_def)
  then show ?thesis using now pc st that by blast
qed

text \<open>
  C36. The interval the tool prints contains the true skew. Whatever the interleaving of the two
  threads and however long each step takes, when \<open>measure_pair\<close> returns, the skew of the target's
  counter against the reference lies between the two bounds it reports, and the identifiers it
  reports are those of the two cores; a core without skew always passes, and one that passes is
  off by at most the threshold and twice the uncertainty.
\<close>

theorem tsc_bounds_contain_skew:
  assumes "measure_pair mc sched cfg core = Some (Inl st)" "skewed mc base skew (elapsed sched)"
    "0 \<le> sint (cf_warmup cfg)" "0 < sint (cf_samples cfg)" "0 \<le> sint (cf_threshold_cycles cfg)"
  shows "sint (ps_low_bound_cycles st) \<le> skew \<and> skew \<le> sint (ps_high_bound_cycles st) \<and>
    ps_core st = core \<and> ps_reference_aux st = mc_ref_aux mc \<and> ps_target_aux st = mc_target_aux mc \<and>
    (skew = 0 \<longrightarrow> ps_pass st) \<and>
    (ps_pass st \<longrightarrow> \<bar>skew\<bar> \<le> sint (cf_threshold_cycles cfg) + 2 * uint (ps_uncertainty_cycles st))"
proof -
  obtain s where s: "best_real mc s" "hs_now s = elapsed sched" "rf_pc s = RDone"
    "st = pair_stats_of cfg core (rf_best s) (rf_best_ref_aux s) (rf_best_target_aux s)"
    using measure_pair_cases [OF assms(1) skewed_no_lap [OF assms(2)] assms(3,4)] .
  then have "sampled mc (elapsed sched) (rf_best s)" by (simp add: best_real_def)
  note b = stats_bracket [OF assms(2) this assms(5) s(4)]
  have "ps_core st = core" "ps_reference_aux st = mc_ref_aux mc" "ps_target_aux st = mc_target_aux mc"
    using s by (simp_all add: pair_stats_of_def Let_def best_real_def)
  with b show ?thesis by blast
qed

text \<open>A machine whose target is 40 cycles ahead, and a schedule for one sample.\<close>

definition sample_machine :: "bool \<Rightarrow> bool \<Rightarrow> tsc_machine" where
  "sample_machine ref_pins target_pins =
     \<lparr>mc_ref_tsc = (\<lambda>t. of_int (1000 + int t)), mc_target_tsc = (\<lambda>t. of_int (1040 + int t)),
      mc_ref_aux = 0, mc_target_aux = 3, mc_ref_pins = ref_pins, mc_target_pins = target_pins\<rparr>"

definition sample_config :: tsc_config where
  "sample_config =
     \<lparr>cf_reference_core = 0, cf_cores = [0, 1], cf_samples = 1, cf_warmup = 0, cf_threshold_cycles = 10\<rparr>"

definition sample_schedule :: "actor list" where
  "sample_schedule = concat (replicate 14 (replicate 6 Target @ [Elapse 8, Reference]))"

theorem tsc_bounds_contain_skew_witness:
  "\<exists>st. measure_pair (sample_machine True True) sample_schedule sample_config 1 = Some (Inl st) \<and>
        sint (ps_low_bound_cycles st) \<le> 40 \<and> 40 \<le> sint (ps_high_bound_cycles st) \<and> ps_target_aux st = 3"
proof -
  have "case measure_pair (sample_machine True True) sample_schedule sample_config 1 of Some (Inl st) \<Rightarrow> True | _ \<Rightarrow> False"
    by code_simp
  then obtain st where st: "measure_pair (sample_machine True True) sample_schedule sample_config 1 = Some (Inl st)"
    by (auto split: option.splits sum.splits)
  have e: "elapsed sample_schedule = 112" by code_simp
  have "skewed (sample_machine True True) 1000 40 (elapsed sample_schedule)"
    unfolding e by (simp add: skewed_def sample_machine_def)
  from tsc_bounds_contain_skew [OF st this] st show ?thesis by (simp add: sample_config_def sample_machine_def)
qed

text \<open>Of the samples taken, the one kept has the least round trip.\<close>

lemma best_decreases:
  "sa_roundtrip_cycles (rf_best (fold (act mc warmup total_n) sched s)) \<le> sa_roundtrip_cycles (rf_best s)"
proof (induction sched arbitrary: s)
  case (Cons a sched)
  have "sa_roundtrip_cycles (rf_best (act mc warmup total_n a s)) \<le> sa_roundtrip_cycles (rf_best s)"
    by (cases a) (auto simp: ref_step_def target_step_def Let_def split: ref_pc.split target_pc.split)
  with Cons [of "act mc warmup total_n a s"] show ?case by simp
qed simp

lemma best_sample_least:
  assumes "rf_pc s = RLoad" "\<not> hs_terminated s"
  shows "sa_roundtrip_cycles (rf_best (fold (act mc warmup total_n) (Reference # sched) s)) \<le>
         sa_roundtrip_cycles (sample_of (rf_start s) (hs_target_tsc s) (rf_end s))"
proof -
  let ?s = "ref_step mc warmup total_n s"
  have "sa_roundtrip_cycles (rf_best ?s) \<le> sa_roundtrip_cycles (sample_of (rf_start s) (hs_target_tsc s) (rf_end s))"
    using assms(1) by (simp add: ref_step_def Let_def not_less)
  with best_decreases [of mc warmup total_n sched ?s] assms(2) show ?thesis by simp
qed

section \<open>Termination and failure\<close>

lemma act_alive:
  assumes "mc_ref_pins mc" "mc_target_pins mc"
  shows "hs_terminated (fold (act mc warmup total_n) sched s) = hs_terminated s"
proof (induction sched arbitrary: s)
  case (Cons a sched)
  have "hs_terminated (act mc warmup total_n a s) = hs_terminated s"
    using assms by (cases a) (simp_all add: ref_step_alive target_step_alive)
  with Cons show ?case by simp
qed simp

lemma ref_rank_bound: "tsc_inv mc warmup total_n s \<Longrightarrow> ref_rank total_n s \<le> 7 * nat total_n + 6"
  by (cases "rf_pc s") (auto simp: tsc_inv_def ref_rank_def Let_def)



lemma terminated_stays: "hs_terminated s \<Longrightarrow> hs_terminated (fold (act mc warmup total_n) sched s)"
proof (induction sched arbitrary: s)
  case (Cons a sched)
  have "hs_terminated (act mc warmup total_n a s)" using Cons.prems by (cases a) simp_all
  with Cons.IH show ?case by simp
qed simp

definition two_rounds :: "actor list" where
  "two_rounds = [Target, Target, Reference, Reference]"

lemma pin_failure_terminates:
  assumes "\<not> mc_ref_pins mc \<or> \<not> mc_target_pins mc"
  shows "hs_terminated (fold (act mc warmup total_n) two_rounds init_handshake)"
  using assms by (auto simp: two_rounds_def init_handshake_def target_step_def ref_step_def)

text \<open>Without pinning the reference thread never passes that point.\<close>

lemma pin_failure_no_result:
  assumes "\<not> mc_ref_pins mc \<or> \<not> mc_target_pins mc"
  shows "rf_pc (fold (act mc warmup total_n) sched init_handshake) \<noteq> RDone"
proof -
  let ?P = "\<lambda>s. (rf_pc s = RWaitReady \<or> rf_pc s = RPin) \<and>
    (mc_target_pins mc \<or> (\<not> hs_ready s \<and> tg_pc s = TPin \<and> rf_pc s = RWaitReady))"
  have "?P (fold (act mc warmup total_n) sched s)" if "?P s" for s
    using that
  proof (induction sched arbitrary: s)
    case (Cons a sched)
    have "?P (act mc warmup total_n a s)"
      using Cons.prems assms
      by (cases a) (auto simp: ref_step_def target_step_def split: target_pc.splits)
    from Cons.IH [OF this] show ?case by simp
  qed simp
  then have "?P (fold (act mc warmup total_n) sched init_handshake)" by (simp add: init_handshake_def)
  then show ?thesis by auto
qed

lemma measure_cores_aborts:
  assumes "\<And>core. meas core = Some (Inr ())" "\<exists>core \<in> set cores. core \<noteq> reference"
  shows "measure_cores meas reference cores ok = Some (Inr ())"
  using assms(2) by (induction cores arbitrary: ok) (auto simp: assms(1))

text \<open>
  C38. A core that cannot be pinned aborts the tool. If either thread cannot be pinned, which
  \<open>pin_current_thread\<close> reports by an exception that \<open>main\<close> is there to catch and print, no run of
  \<open>measure_pair\<close> returns statistics, and after the first steps of the two threads the process is
  terminated, whatever follows; \<open>main\<close> then aborts without an error message, for every command line
  it accepts that names a core besides the reference.
\<close>

theorem pin_failure_aborts:
  assumes "\<not> mc_ref_pins mc \<or> \<not> mc_target_pins mc"
    "tsc_parse_args nproc argv = Returns cfg" "total_samples cfg = Some n"
    "\<exists>core \<in> set (cf_cores cfg). core \<noteq> cf_reference_core cfg"
  shows "measure_pair mc sched' cfg core' \<noteq> Some (Inl st) \<and>
    tsc_main nproc (measure_pair mc (two_rounds @ sched)) argv = Some Aborted"
proof -
  have "measure_pair mc sched' cfg core' \<noteq> Some (Inl st)"
    using pin_failure_no_result [OF assms(1)] assms(3)
    by (auto simp: measure_pair_def finish_pair_def split: if_splits)
  moreover have "measure_pair mc (two_rounds @ sched) cfg core = Some (Inr ())" for core
    using terminated_stays [OF pin_failure_terminates [OF assms(1)]] assms(3)
    by (simp add: measure_pair_def finish_pair_def)
  ultimately show ?thesis
    using assms(2,4) measure_cores_aborts [of "measure_pair mc (two_rounds @ sched) cfg"]
    by (simp add: tsc_main_def)
qed

theorem pin_failure_aborts_witness:
  "tsc_main 2 (measure_pair (sample_machine False True) two_rounds) [''tsc_sync_check''] = Some Aborted"
proof -
  have p: "tsc_parse_args 2 [''tsc_sync_check''] = Returns (default_config [0, 1])" by code_simp
  have t: "total_samples (default_config [0, 1]) = Some 101000" by code_simp
  show ?thesis
    using pin_failure_aborts [OF _ p t, of "sample_machine False True" "[]" 0 undefined "[]"]
    by (simp add: sample_machine_def default_config_def)
qed

end
