(* ===== verification/TSC_Args.thy ===== *)
theory TSC_Args
  imports TSC_Sync
begin

text \<open>
  The command line of the TSC check: only meaningful settings are accepted, and settings written out
  as arguments are read back.
\<close>

section \<open>Accepted settings are meaningful\<close>

definition valid_config :: "int \<Rightarrow> tsc_config \<Rightarrow> bool" where
  "valid_config nproc cfg =
     (0 \<le> sint (cf_reference_core cfg) \<and> sint (cf_reference_core cfg) < nproc \<and>
      (\<forall>c \<in> set (cf_cores cfg). 0 \<le> sint c \<and> sint c < nproc) \<and>
      0 < sint (cf_samples cfg) \<and> 0 \<le> sint (cf_warmup cfg) \<and> 0 \<le> sint (cf_threshold_cycles cfg))"

lemma sint_of_int32: "- (2 ^ 31) \<le> n \<Longrightarrow> n < 2 ^ 31 \<Longrightarrow> sint (of_int n :: i32) = n"
  by (simp add: int_word_sint)

lemma and_then_Returns: "and_then x f = Returns y \<longleftrightarrow> (\<exists>z. x = Returns z \<and> f z = Returns y)"
  by (cases x) auto

lemma online_cores_Returns: "online_cores nproc = Returns n \<longleftrightarrow> 0 < nproc \<and> nproc < 2 ^ 31 \<and> n = of_int nproc"
  by (auto simp: online_cores_def)

lemma parse_tokens_valid:
  "parse_tokens n ts = Returns cores \<Longrightarrow> \<forall>c \<in> set cores. 0 \<le> sint c \<and> sint c < sint n"
proof (induction n ts arbitrary: cores rule: parse_tokens.induct)
  case (2 n token ts)
  show ?case
  proof (cases "token = []")
    case False
    with "2.prems" obtain cs where c: "parse_tokens n ts = Returns cs" "cores = of_int (strtol token) # cs"
      and b: "\<not> strtol token < 0" "\<not> strtol token \<ge> sint n"
      "\<not> strtol_erange token" "strtol_end token \<noteq> token" "strtol_end token = []"
      by (auto simp: and_then_Returns split: if_splits)
    have "sint (of_int (strtol token) :: i32) = strtol token"
      using b sint_lt [of n] by (intro sint_of_int32) auto
    then show ?thesis using "2.IH"(2) [OF False _ c(1)] b c(2) by simp
  qed (use 2 in simp)
qed simp

lemma parse_cores_valid:
  assumes "parse_cores nproc v = Returns cores"
  shows "\<forall>c \<in> set cores. 0 \<le> sint c \<and> sint c < nproc"
proof -
  from assms obtain n where n: "0 < nproc" "nproc < 2 ^ 31" "n = of_int nproc"
    and c: "(if v = ''all'' then Returns (map of_nat [0..<nat (sint n)]) else parse_tokens n (split_commas v)) = Returns cores"
    by (auto simp: parse_cores_def and_then_Returns online_cores_Returns)
  have s: "sint n = nproc" using n by (auto intro!: sint_of_int32)
  have "sint (of_nat k :: i32) = int k" if "k < nat nproc" for k
    using sint_of_int32 [of "int k"] that n by simp
  then show ?thesis using c s parse_tokens_valid [of n "split_commas v" cores] by (auto split: if_splits)
qed

lemma parse_options_cores:
  "parse_options nproc args cfg = Returns cfg' \<Longrightarrow> \<forall>c \<in> set (cf_cores cfg). 0 \<le> sint c \<and> sint c < nproc \<Longrightarrow>
   \<forall>c \<in> set (cf_cores cfg'). 0 \<le> sint c \<and> sint c < nproc"
proof (induction nproc args cfg rule: parse_options.induct)
  case (2 nproc arg rest cfg)
  show ?case
  proof (cases rest)
    case Nil
    with "2.prems"(1) show ?thesis by (simp add: require_value_def split: if_splits)
  next
    case (Cons v vs)
    then have r: "require_value arg rest = Returns (v, vs)" by (simp add: require_value_def)
    show ?thesis
      using "2.prems" "2.IH"(1) [OF _ r refl] "2.IH"(2) [OF _ _ r refl] "2.IH"(3) [OF _ _ _ r refl]
        "2.IH"(4) [OF _ _ _ _ r refl] "2.IH"(5) [OF _ _ _ _ _ r refl] parse_cores_valid r
      by (auto split: if_splits tsc_outcome.splits)
  qed
qed simp

lemma parse_args_valid:
  assumes "tsc_parse_args nproc argv = Returns cfg"
  shows "valid_config nproc cfg"
proof -
  from assms obtain cores cfg' n where c: "parse_cores nproc ''all'' = Returns cores"
    and p: "parse_options nproc (drop 1 argv) (default_config cores) = Returns cfg'"
    and n: "0 < nproc" "nproc < 2 ^ 31" "n = of_int nproc" and k: "check_config n cfg' = Returns cfg"
    by (auto simp: tsc_parse_args_def and_then_Returns online_cores_Returns)
  have "sint n = nproc" using n by (auto intro!: sint_of_int32)
  moreover have "\<forall>c \<in> set (cf_cores cfg'). 0 \<le> sint c \<and> sint c < nproc"
    using parse_options_cores [OF p] parse_cores_valid [OF c] by (simp add: default_config_def)
  ultimately show ?thesis using k by (auto simp: check_config_def valid_config_def split: if_splits)
qed

text \<open>
  C39. Accepted settings are well-formed. Every configuration the parser returns, whatever the command
  line, names a reference core and cores that exist, a positive number of samples, and no negative
  warm-up or threshold, as the measurement needs them; and unless warm-up and samples together
  exceed an \<open>int\<close>, at least one sample comes after the warm-up.
\<close>

theorem tsc_args_well_formed:
  assumes "tsc_parse_args nproc argv = Returns cfg"
  shows "valid_config nproc cfg \<and>
    (case total_samples cfg of
       None \<Rightarrow> 2 ^ 31 \<le> sint (cf_warmup cfg) + sint (cf_samples cfg)
     | Some n \<Rightarrow> sint (cf_warmup cfg) < n \<and> n < 2 ^ 31)"
  using parse_args_valid [OF assms] by (auto simp: total_samples_def Let_def valid_config_def)

theorem tsc_args_well_formed_witness:
  "tsc_parse_args 4 [''t'', ''--cores'', '' 3,,+1'', ''--warmup'', ''5x''] =
     Returns ((default_config [3, 1])\<lparr>cf_warmup := 5\<rparr>) \<and>
   valid_config 4 ((default_config [3, 1])\<lparr>cf_warmup := 5\<rparr>)"
proof -
  have "tsc_parse_args 4 [''t'', ''--cores'', '' 3,,+1'', ''--warmup'', ''5x''] =
     Returns ((default_config [3, 1])\<lparr>cf_warmup := 5\<rparr>)" by code_simp
  with tsc_args_well_formed [OF this] show ?thesis by blast
qed

section \<open>Settings written out are read back\<close>

fun join_commas :: "string list \<Rightarrow> string" where
  "join_commas [] = []"
| "join_commas [t] = t"
| "join_commas (t # ts) = t @ CHR '','' # join_commas ts"

definition config_args :: "tsc_config \<Rightarrow> string list" where
  "config_args cfg =
     [''--reference-core'', dec_int (sint (cf_reference_core cfg)),
      ''--cores'', join_commas (map (\<lambda>c. dec_int (sint c)) (cf_cores cfg)),
      ''--samples'', dec_int (sint (cf_samples cfg)), ''--warmup'', dec_int (sint (cf_warmup cfg)),
      ''--threshold-cycles'', dec_int (sint (cf_threshold_cycles cfg))]"

lemma split_commas_token: "CHR '','' \<notin> set t \<Longrightarrow> split_commas t = [t]"
  by (induction t) auto

lemma split_commas_append: "CHR '','' \<notin> set t \<Longrightarrow> split_commas (t @ CHR '','' # s) = t # split_commas s"
  by (induction t) auto

lemma split_join: "ts \<noteq> [] \<Longrightarrow> \<forall>t \<in> set ts. CHR '','' \<notin> set t \<Longrightarrow> split_commas (join_commas ts) = ts"
  by (induction ts rule: join_commas.induct) (simp_all add: split_commas_token split_commas_append)

lemma dec_int_chars: "0 \<le> n \<Longrightarrow> c \<in> set (dec_int n) \<Longrightarrow> is_digit c"
  by (simp add: dec_int_def)

lemma dec_int_no_comma: "0 \<le> n \<Longrightarrow> CHR '','' \<notin> set (dec_int n)"
  using dec_int_chars [of n "CHR '',''"] by (auto simp: is_digit_def digit_value_def)

lemma dec_int_nonempty [simp]: "dec_int n \<noteq> []"
  by (simp add: dec_int_def)

lemma atoi_sint: "atoi (dec_int (sint (x :: i32))) = x"
proof -
  have "- (2 ^ 31) \<le> sint x" "sint x < 2 ^ 31" using sint_ge [of x] sint_lt [of x] by simp_all
  then have "sint (atoi (dec_int (sint x))) = sint x" by (rule atoi_dec_int)
  then show ?thesis by (rule signed_word_eqI)
qed

lemma parse_tokens_dec:
  assumes "\<forall>c \<in> set cores. 0 \<le> sint c \<and> sint c < sint n"
  shows "parse_tokens n (map (\<lambda>c. dec_int (sint c)) cores) = Returns cores"
  using assms
proof (induction cores)
  case (Cons c cores)
  have "- (2 ^ 63) \<le> sint c" "sint c < 2 ^ 63" using sint_ge [of c] sint_lt [of c] by simp_all
  note r = strtol_dec_int [OF this]
  have "\<not> sint c < 0" "\<not> sint n \<le> sint c" using Cons.prems by auto
  moreover have "[] \<noteq> dec_int (sint c)" using dec_int_nonempty by metis
  ultimately show ?case using Cons r by simp
qed simp

lemma join_chars: "\<forall>t \<in> set ts. \<forall>c \<in> set t. is_digit c \<Longrightarrow> c \<in> set (join_commas ts) \<Longrightarrow> is_digit c \<or> c = CHR '',''"
  by (induction ts rule: join_commas.induct) auto

lemma join_not_all: "\<forall>t \<in> set ts. \<forall>c \<in> set t. is_digit c \<Longrightarrow> join_commas ts \<noteq> ''all''"
  using join_chars [of ts "CHR ''a''"] by (auto simp: is_digit_def digit_value_def)

lemma parse_cores_join:
  assumes "0 < nproc" "nproc < 2 ^ 31" "\<forall>c \<in> set cores. 0 \<le> sint c \<and> sint c < nproc"
  shows "parse_cores nproc (join_commas (map (\<lambda>c. dec_int (sint c)) cores)) = Returns cores"
proof -
  have s: "sint (of_int nproc :: i32) = nproc" using assms by (intro sint_of_int32) auto
  let ?ts = "map (\<lambda>c. dec_int (sint c)) cores"
  have na: "join_commas ?ts \<noteq> ''all''" using assms(3) dec_int_chars by (intro join_not_all) auto
  have "parse_tokens (of_int nproc) (split_commas (join_commas ?ts)) = Returns cores"
  proof (cases "cores = []")
    case False
    then have "split_commas (join_commas ?ts) = ?ts"
      using assms(3) dec_int_no_comma by (intro split_join) auto
    then show ?thesis using parse_tokens_dec [of cores "of_int nproc"] assms(3) s by simp
  qed simp
  then show ?thesis using na assms(1,2) by (simp add: parse_cores_def online_cores_def)
qed

text \<open>
  Settings written out are read back: every well-formed configuration, written out as arguments
  with its numbers in decimal and its cores separated by commas, is accepted and read back
  unchanged, whatever the program is called.
\<close>

theorem tsc_args_roundtrip:
  assumes "0 < nproc" "nproc < 2 ^ 31" "valid_config nproc cfg"
  shows "tsc_parse_args nproc (prog # config_args cfg) = Returns cfg"
proof -
  have s: "sint (of_int nproc :: i32) = nproc" using assms(1,2) by (intro sint_of_int32) auto
  have "parse_cores nproc (join_commas (map (\<lambda>c. dec_int (sint c)) (cf_cores cfg))) = Returns (cf_cores cfg)"
    using assms by (intro parse_cores_join) (auto simp: valid_config_def)
  then have "parse_options nproc (config_args cfg) c0 = Returns cfg" for c0
    by (simp add: config_args_def require_value_def atoi_sint)
  then show ?thesis using assms s
    by (simp add: tsc_parse_args_def parse_cores_def online_cores_def check_config_def valid_config_def)
qed

theorem tsc_args_roundtrip_witness:
  "tsc_parse_args 4 [''t'', ''--reference-core'', ''1'', ''--cores'', ''2,3'', ''--samples'', ''7'', ''--warmup'', ''0'',
     ''--threshold-cycles'', ''12''] =
   Returns \<lparr>cf_reference_core = 1, cf_cores = [2, 3], cf_samples = 7, cf_warmup = 0, cf_threshold_cycles = 12\<rparr>"
proof -
  let ?c = "\<lparr>cf_reference_core = 1, cf_cores = [2, 3], cf_samples = 7, cf_warmup = 0, cf_threshold_cycles = 12\<rparr>"
  have a: "config_args ?c = [''--reference-core'', ''1'', ''--cores'', ''2,3'', ''--samples'', ''7'', ''--warmup'', ''0'',
     ''--threshold-cycles'', ''12'']" by code_simp
  have "valid_config 4 ?c" by (simp add: valid_config_def)
  then show ?thesis using tsc_args_roundtrip [of 4 ?c "''t''"] by (simp add: a)
qed

text \<open>The number of samples is not checked against the range of an \<open>int\<close> together with the warm-up.\<close>

lemma accepted_samples_overflow:
  "tsc_parse_args 4 [''t'', ''--samples'', ''2147483647''] = Returns ((default_config [0, 1, 2, 3])\<lparr>cf_samples := 2147483647\<rparr>)"
  "total_samples ((default_config [0, 1, 2, 3])\<lparr>cf_samples := 2147483647\<rparr>) = None"
  by code_simp+

text \<open>\<open>--reference-core\<close> takes any text that is not a number for core zero, unlike \<open>--cores\<close>.\<close>

lemma reference_core_garbage:
  "tsc_parse_args 4 [''t'', ''--reference-core'', ''x1''] = Returns (default_config [0, 1, 2, 3])"
  "tsc_parse_args 4 [''t'', ''--cores'', ''x1''] = Throws ''invalid core in --cores: x1''"
  by code_simp+

end
