(* ===== verification/Bench.thy ===== *)
theory Bench
  imports Matching_Tests Matching_Properties Tick_Ring Civil_Time Clock
begin

text \<open>
  The benchmark of the matching book, \<open>benchmarks/matching_bench.cpp\<close>: its histograms and number
  formats, the seeding of books, and the eight workloads with their timed loops. What the clock reads
  before and after the timed part of each iteration is an argument.
\<close>

definition MID :: u64 where "MID = 10000"
definition SPREAD :: u64 where "SPREAD = 50"
definition WARMUP :: nat where "WARMUP = 2000"
definition ITERS :: nat where "ITERS = 200000"
definition SWEEP_ITERS :: nat where "SWEEP_ITERS = 50000"

section \<open>Histograms\<close>

record histogram =
  hg_values :: "u64 list"
  hg_sorted :: bool

definition empty_histogram :: histogram where
  "empty_histogram = \<lparr>hg_values = [], hg_sorted = False\<rparr>"

definition hg_record :: "u64 \<Rightarrow> histogram \<Rightarrow> histogram" where
  "hg_record v h = h\<lparr>hg_values := hg_values h @ [v], hg_sorted := False\<rparr>"

definition hg_len :: "histogram \<Rightarrow> u64" where
  "hg_len h = of_nat (length (hg_values h))"

definition ensure_sorted :: "histogram \<Rightarrow> histogram" where
  "ensure_sorted h = (if \<not> hg_sorted h then h\<lparr>hg_values := sort (hg_values h), hg_sorted := True\<rparr> else h)"

text \<open>The percentile of the sorted values; \<open>None\<close> is an index that does not fit a \<open>size_t\<close>.\<close>

definition hg_percentile :: "double \<Rightarrow> histogram \<Rightarrow> u64 option" where
  "hg_percentile p h =
     (let xs = hg_values (ensure_sorted h)
      in if xs = [] then Some 0
         else
           (case dbl_to_u64 (fmul (fdiv p (Fin False 100)) (dbl_of_u64 (of_nat (length xs) - 1))) of
              None \<Rightarrow> None
            | Some idx \<Rightarrow> Some (xs ! unat (min idx (of_nat (length xs) - 1)))))"

definition min_val :: "histogram \<Rightarrow> u64" where
  "min_val h = (let xs = hg_values (ensure_sorted h) in if xs = [] then 0 else hd xs)"

definition max_val :: "histogram \<Rightarrow> u64" where
  "max_val h = (let xs = hg_values (ensure_sorted h) in if xs = [] then 0 else last xs)"

definition hg_add :: "histogram \<Rightarrow> histogram \<Rightarrow> histogram" where
  "hg_add other h = h\<lparr>hg_values := hg_values h @ hg_values other, hg_sorted := False\<rparr>"

section \<open>Formatting\<close>

text \<open>The loop over the digits from the last one, with the number of digits already placed.\<close>

fun commas :: "nat \<Rightarrow> string \<Rightarrow> string \<Rightarrow> string" where
  "commas placed [] res = res"
| "commas placed (c # cs) res =
     commas (placed + 1) cs (c # (if placed > 0 \<and> placed mod 3 = 0 then CHR '','' # res else res))"

definition fmt_ns :: "u64 \<Rightarrow> string" where
  "fmt_ns n = commas 0 (rev (dec_nat (unat n))) []"

definition fmt_depth :: "u64 \<Rightarrow> string" where
  "fmt_depth n =
     (if n \<ge> 1000000 then dec_nat (unat (n div 1000000)) @ ''M''
      else if n \<ge> 1000 then dec_nat (unat (n div 1000)) @ ''K''
      else dec_nat (unat n))"

section \<open>Seeding\<close>

text \<open>The book with the next identifier and the fills of the last call.\<close>

record fresh_book =
  fb_book :: order_book
  fb_next_id :: u64
  fb_fills :: "fill list"

definition seed_price :: "side \<Rightarrow> nat \<Rightarrow> u64" where
  "seed_price s i =
     (if s = Buy then MID - SPREAD - (of_nat i mod 200) else MID + SPREAD + (of_nat i mod 200))"

definition seed_order :: "side \<Rightarrow> u64 \<Rightarrow> u64 \<Rightarrow> fresh_book \<Rightarrow> fresh_book" where
  "seed_order s price qty fb =
     (let (b, fills) = add_order (limit_order (fb_next_id fb) s price qty) [] (fb_book fb)
      in \<lparr>fb_book = b, fb_next_id = fb_next_id fb + 1, fb_fills = fills\<rparr>)"

definition seed_one_side :: "side \<Rightarrow> nat \<Rightarrow> fresh_book \<Rightarrow> fresh_book" where
  "seed_one_side s n fb = fold (\<lambda>i. seed_order s (seed_price s i) 10) [0..<n] fb"

definition seed_both :: "nat \<Rightarrow> fresh_book \<Rightarrow> fresh_book" where
  "seed_both n fb =
     fold (\<lambda>i. let s = (if even i then Buy else Sell) in seed_order s (seed_price s i) 10) [0..<n] fb"

definition new_book :: "u64 \<Rightarrow> fresh_book" where
  "new_book oid = \<lparr>fb_book = empty_book, fb_next_id = oid, fb_fills = []\<rparr>"

definition fresh_book_both :: "u64 \<Rightarrow> fresh_book" where
  "fresh_book_both depth = seed_both (unat depth) (new_book 1)"

definition fresh_book_asks :: "u64 \<Rightarrow> fresh_book" where
  "fresh_book_asks depth = seed_one_side Sell (unat depth) (new_book 1)"

section \<open>Workloads\<close>

text \<open>
  Each scenario is a loop with the same shape: an untimed part (refilling the book, clearing the
  fills), the operation between two readings of the clock, and an untimed end. \<open>wl_rounds\<close> counts the
  iterations after the warm-up. \<open>None\<close> is the undefined behaviour of \<open>cancel\<close>.
\<close>

record bench_state =
  bn_fb :: fresh_book
  bn_cancel_id :: u64
  bn_ring :: "u64 list"
  bn_ring_idx :: u64

record workload =
  wl_init :: bench_state
  wl_before :: "bench_state \<Rightarrow> bench_state"
  wl_timed :: "bench_state \<Rightarrow> bench_state option"
  wl_after :: "bench_state \<Rightarrow> bench_state"
  wl_rounds :: nat

definition bench_start :: "fresh_book \<Rightarrow> bench_state" where
  "bench_start fb = \<lparr>bn_fb = fb, bn_cancel_id = 0, bn_ring = [], bn_ring_idx = 0\<rparr>"

definition clear_fills :: "bench_state \<Rightarrow> bench_state" where
  "clear_fills w = w\<lparr>bn_fb := (bn_fb w)\<lparr>fb_fills := []\<rparr>\<rparr>"

definition next_id :: "bench_state \<Rightarrow> bench_state" where
  "next_id w = w\<lparr>bn_fb := (bn_fb w)\<lparr>fb_next_id := fb_next_id (bn_fb w) + 1\<rparr>\<rparr>"

definition next_cancel :: "bench_state \<Rightarrow> bench_state" where
  "next_cancel w = w\<lparr>bn_cancel_id := bn_cancel_id w + 1\<rparr>"

definition timed_add :: "(u64 \<Rightarrow> order) \<Rightarrow> bench_state \<Rightarrow> bench_state option" where
  "timed_add ord w =
     (let fb = bn_fb w; (b, fills) = add_order (ord (fb_next_id fb)) (fb_fills fb) (fb_book fb)
      in Some (w\<lparr>bn_fb := fb\<lparr>fb_book := b, fb_fills := fills\<rparr>\<rparr>))"

definition timed_cancel :: "bench_state \<Rightarrow> bench_state option" where
  "timed_cancel w =
     (case cancel (bn_cancel_id w) (fb_book (bn_fb w)) of
        None \<Rightarrow> None
      | Some (b, _) \<Rightarrow> Some (w\<lparr>bn_fb := (bn_fb w)\<lparr>fb_book := b\<rparr>\<rparr>))"

definition id_side :: "u64 \<Rightarrow> side" where
  "id_side oid = (if oid mod 2 = 0 then Buy else Sell)"

definition passive_order :: "u64 \<Rightarrow> order" where
  "passive_order oid =
     limit_order oid (id_side oid)
       (if oid mod 2 = 0 then MID - SPREAD - 200 - (oid mod 100) else MID + SPREAD + 200 + (oid mod 100)) 10"

definition passive_insert :: "u64 \<Rightarrow> workload" where
  "passive_insert depth =
     \<lparr>wl_init = bench_start (fresh_book_both depth), wl_before = clear_fills,
      wl_timed = timed_add passive_order, wl_after = next_id, wl_rounds = ITERS\<rparr>"

definition refill_at :: "u64 \<Rightarrow> u64" where
  "refill_at depth = max (depth div 4) 10"

definition refill_asks :: "u64 \<Rightarrow> bench_state \<Rightarrow> bench_state" where
  "refill_asks depth w =
     clear_fills (if book_len (fb_book (bn_fb w)) < refill_at depth then w\<lparr>bn_fb := fresh_book_asks depth\<rparr> else w)"

definition aggressive_fill :: "u64 \<Rightarrow> workload" where
  "aggressive_fill depth =
     \<lparr>wl_init = bench_start (fresh_book_asks depth), wl_before = refill_asks depth,
      wl_timed = timed_add (\<lambda>oid. limit_order oid Buy (MID + SPREAD + 200) 1), wl_after = next_id,
      wl_rounds = ITERS\<rparr>"

definition market_order_bench :: "u64 \<Rightarrow> workload" where
  "market_order_bench depth =
     \<lparr>wl_init = bench_start (fresh_book_asks depth), wl_before = refill_asks depth,
      wl_timed = timed_add (\<lambda>oid. market_order oid Buy 1), wl_after = next_id, wl_rounds = ITERS\<rparr>"

text \<open>A new book with one ask at each of \<open>n\<close> prices, and one with \<open>n\<close> asks at one price.\<close>

definition ladder :: "u64 \<Rightarrow> bench_state \<Rightarrow> bench_state" where
  "ladder levels w =
     clear_fills (w\<lparr>bn_fb := fold (\<lambda>l. seed_order Sell (MID + 1 + of_nat l) 10) [0..<unat levels]
       (new_book (fb_next_id (bn_fb w)))\<rparr>)"

definition multi_level_sweep :: "u64 \<Rightarrow> workload" where
  "multi_level_sweep levels =
     \<lparr>wl_init = bench_start (new_book 1), wl_before = ladder levels,
      wl_timed = timed_add (\<lambda>oid. limit_order oid Buy (MID + levels) (levels * 10)), wl_after = next_id,
      wl_rounds = SWEEP_ITERS\<rparr>"

definition hot_level :: "u64 \<Rightarrow> u64 \<Rightarrow> u64 \<Rightarrow> fresh_book" where
  "hot_level qty orders first_id = fold (\<lambda>_. seed_order Sell (MID + SPREAD) qty) [0..<unat orders] (new_book first_id)"

definition drain_single_level :: "u64 \<Rightarrow> workload" where
  "drain_single_level orders =
     \<lparr>wl_init = bench_start (new_book 1),
      wl_before = (\<lambda>w. clear_fills (w\<lparr>bn_fb := hot_level 1 orders (fb_next_id (bn_fb w))\<rparr>)),
      wl_timed = timed_add (\<lambda>oid. limit_order oid Buy (MID + SPREAD) orders), wl_after = next_id,
      wl_rounds = SWEEP_ITERS\<rparr>"

definition cancel_bench :: "u64 \<Rightarrow> workload" where
  "cancel_bench depth =
     (let reseed = (\<lambda>w. let fb = fresh_book_both depth in w\<lparr>bn_fb := fb, bn_cancel_id := fb_next_id fb - depth\<rparr>)
      in \<lparr>wl_init = reseed (bench_start (new_book 1)),
          wl_before = (\<lambda>w. if bn_cancel_id w \<ge> fb_next_id (bn_fb w) then reseed w else w),
          wl_timed = timed_cancel, wl_after = next_cancel, wl_rounds = ITERS\<rparr>)"

definition cancel_hot_level :: "u64 \<Rightarrow> workload" where
  "cancel_hot_level orders =
     (let reseed = (\<lambda>w. let first = fb_next_id (bn_fb w) in w\<lparr>bn_fb := hot_level 10 orders first, bn_cancel_id := first\<rparr>)
      in \<lparr>wl_init = reseed (bench_start (new_book 1)),
          wl_before = (\<lambda>w. if bn_cancel_id w \<ge> fb_next_id (bn_fb w) then reseed w else w),
          wl_timed = timed_cancel, wl_after = next_cancel, wl_rounds = min ITERS (unat orders)\<rparr>)"

definition seed_mixed :: "u64 \<Rightarrow> bench_state" where
  "seed_mixed depth =
     (bench_start (fresh_book_both depth))\<lparr>bn_ring := map of_nat [1..<unat depth + 1]\<rparr>"

definition ring_cap :: "u64 \<Rightarrow> u64" where
  "ring_cap depth = max depth 4096"

definition mixed_cancel :: "bench_state \<Rightarrow> bench_state option" where
  "mixed_cancel w =
     (if bn_ring w = [] then Some w
      else
        map_option (\<lambda>w'. w'\<lparr>bn_ring_idx := bn_ring_idx w' + 1\<rparr>)
          (timed_cancel (w\<lparr>bn_cancel_id := bn_ring w ! unat (bn_ring_idx w mod of_nat (length (bn_ring w)))\<rparr>)))"

definition ring_put :: "u64 \<Rightarrow> u64 \<Rightarrow> bench_state \<Rightarrow> bench_state" where
  "ring_put cap oid w =
     (if of_nat (length (bn_ring w)) < cap then w\<lparr>bn_ring := bn_ring w @ [oid]\<rparr>
      else w\<lparr>bn_ring := (bn_ring w)[unat (bn_ring_idx w mod cap) := oid]\<rparr>)"

definition mixed_step :: "u64 \<Rightarrow> bench_state \<Rightarrow> bench_state option" where
  "mixed_step depth w =
     (let oid = fb_next_id (bn_fb w); roll = oid mod 20
      in if roll < 13 then mixed_cancel w
         else if roll < 18 then
           map_option (ring_put (ring_cap depth) oid) (timed_add passive_order (clear_fills w))
         else
           timed_add (\<lambda>i. limit_order i (id_side i)
             (if i mod 2 = 0 then MID + SPREAD + 200 else MID - SPREAD - 200) 1) (clear_fills w))"

definition mixed_workload :: "u64 \<Rightarrow> workload" where
  "mixed_workload depth =
     \<lparr>wl_init = seed_mixed depth,
      wl_before = (\<lambda>w. if book_len (fb_book (bn_fb w)) < 50 then seed_mixed depth else w),
      wl_timed = mixed_step depth, wl_after = next_id, wl_rounds = ITERS\<rparr>"

text \<open>The timed loop: \<open>clock i\<close> gives the readings around the operation of iteration \<open>i\<close>.\<close>

fun bench_loop ::
  "double \<Rightarrow> (nat \<Rightarrow> u64 \<times> u64) \<Rightarrow> workload \<Rightarrow> nat list \<Rightarrow> bench_state \<Rightarrow> histogram \<Rightarrow> histogram option"
where
  "bench_loop v clock wl [] w h = Some h"
| "bench_loop v clock wl (i # is) w h =
     (case wl_timed wl (wl_before wl w) of
        None \<Rightarrow> None
      | Some w' \<Rightarrow>
          let (t0, t1) = clock i
          in case (if i \<ge> WARMUP then map_option (\<lambda>ns. hg_record ns h) (ticks_to_ns v (t1 - t0)) else Some h) of
               None \<Rightarrow> None
             | Some h' \<Rightarrow> bench_loop v clock wl is (wl_after wl w') h')"

definition run_bench :: "double \<Rightarrow> (nat \<Rightarrow> u64 \<times> u64) \<Rightarrow> workload \<Rightarrow> histogram option" where
  "run_bench v clock wl = bench_loop v clock wl [0..<WARMUP + wl_rounds wl] (wl_init wl) empty_histogram"

text \<open>The profile versions run the same iterations without the clock.\<close>

fun profile_loop :: "workload \<Rightarrow> nat \<Rightarrow> bench_state \<Rightarrow> bench_state option" where
  "profile_loop wl 0 w = Some w"
| "profile_loop wl (Suc n) w =
     (case wl_timed wl (wl_before wl w) of None \<Rightarrow> None | Some w' \<Rightarrow> profile_loop wl n (wl_after wl w'))"

definition run_profile :: "workload \<Rightarrow> bench_state option" where
  "run_profile wl = profile_loop wl (WARMUP + wl_rounds wl) (wl_init wl)"

end
