(* ===== verification/Bench_Report.thy ===== *)
theory Bench_Report
  imports Bench Reports
begin

text \<open>
  The rest of \<open>benchmarks/matching_bench.cpp\<close>: its tests, the reporter that prints the histograms and
  saves them, the command line, and \<open>main\<close>. The output of \<open>git\<close>, the clock, the time of day and which
  files can be opened are arguments. \<open>None\<close> is an undefined conversion or a failed assertion.
\<close>

section \<open>Tests\<close>

definition run_tests :: "bool list" where
  "run_tests =
     (let add = (\<lambda>ord fs b. add_order ord fs b);
          (w1, f1) = add (limit_order 1 Buy 100 10) [] empty_book;
          (w2, f2) = add (limit_order 2 Sell 110 10) f1 w1;
          (e1, g1) = add (limit_order 1 Sell 100 10) [] empty_book;
          (e2, g2) = add (limit_order 2 Buy 100 10) g1 e1;
          (p1, _) = add (limit_order 1 Sell 100 20) [] empty_book;
          (p2, h2) = add (limit_order 2 Buy 100 5) [] p1;
          (i1, _) = add (limit_order 1 Sell 95 10) [] empty_book;
          (i2, j2) = add (limit_order 2 Buy 100 10) [] i1;
          (q1, k1) = add (limit_order 1 Sell 100 5) [] empty_book;
          (q2, _) = add (limit_order 2 Sell 100 5) k1 q1;
          (q3, k3) = add (limit_order 3 Buy 100 7) [] q2;
          (l1, m1) = add (limit_order 1 Sell 100 5) [] empty_book;
          (l2, m2) = add (limit_order 2 Sell 101 5) m1 l1;
          (l3, _) = add (limit_order 3 Sell 102 5) m2 l2;
          (l4, m4) = add (limit_order 4 Buy 102 12) [] l3;
          (r1, s1) = add (limit_order 1 Sell 100 10) [] empty_book;
          (r2, _) = add (limit_order 2 Sell 105 10) s1 r1;
          (r3, s3) = add (market_order 3 Buy 15) [] r2;
          (c1, _) = add (limit_order 1 Buy 100 10) [] empty_book;
          (t1, u1) = add (limit_order 1 Buy 100 10) [] empty_book;
          (t2, _) = add (limit_order 2 Buy 99 10) u1 t1;
          (t3, u3) = add (market_order 3 Sell 15) [] t2
      in [f1 = [] \<and> f2 = [] \<and> best_bid w2 = Some 100 \<and> best_ask w2 = Some 110 \<and> spread w2 = Some 10 \<and> book_len w2 = 2,
          length g2 = 1 \<and> maker_id (g2 ! 0) = 1 \<and> f_qty (g2 ! 0) = 10 \<and> is_empty e2,
          length h2 = 1 \<and> f_qty (h2 ! 0) = 5 \<and> depth_at Sell 100 p2 = 15,
          f_price (j2 ! 0) = 95,
          length k3 = 2 \<and> maker_id (k3 ! 0) = 1 \<and> maker_id (k3 ! 1) = 2 \<and> f_qty (k3 ! 0) = 5 \<and> f_qty (k3 ! 1) = 2 \<and>
            depth_at Sell 100 q3 = 3,
          length m4 = 3 \<and> f_price (m4 ! 0) = 100 \<and> f_price (m4 ! 1) = 101 \<and> f_price (m4 ! 2) = 102 \<and>
            f_qty (m4 ! 2) = 2 \<and> depth_at Sell 102 l4 = 3,
          length s3 = 2 \<and> f_qty (s3 ! 0) = 10 \<and> f_qty (s3 ! 1) = 5 \<and> book_len r3 = 1,
          (case cancel 1 c1 of
             None \<Rightarrow> False
           | Some (c2, cancelled) \<Rightarrow>
               cancelled \<and> book_len c2 = 0 \<and> best_bid c2 = None \<and> map_option snd (cancel 1 c2) = Some False),
          map_option snd (cancel 999 empty_book) = Some False,
          length u3 = 2 \<and> f_price (u3 ! 0) = 100 \<and> f_price (u3 ! 1) = 99])"

lemma run_tests_pass: "list_all id run_tests"
  by code_simp

section \<open>Reporter\<close>

record reporter =
  rp_output :: string
  rp_combined :: histogram
  rp_total_ops :: u64
  rp_section :: string
  rp_histograms :: "(string \<times> histogram) list"

definition new_reporter :: reporter where
  "new_reporter =
     \<lparr>rp_output = [], rp_combined = empty_histogram, rp_total_ops = 0, rp_section = [], rp_histograms = []\<rparr>"

text \<open>A text printed and collected; \<open>snprintf\<close> into a buffer of \<open>n\<close> characters; \<open>fgets\<close> likewise.\<close>

definition say :: "string \<Rightarrow> reporter \<Rightarrow> reporter" where
  "say s r = r\<lparr>rp_output := rp_output r @ s\<rparr>"

definition into_buf :: "nat \<Rightarrow> string \<Rightarrow> string" where
  "into_buf n s = take (n - 1) s"

definition fgets_buf :: "nat \<Rightarrow> string \<Rightarrow> string" where
  "fgets_buf n s = take (n - 1) (takeWhile (\<lambda>c. c \<noteq> CHR 0x0A) s @ (if CHR 0x0A \<in> set s then newline else []))"

definition reporter_header :: "string \<Rightarrow> reporter \<Rightarrow> reporter" where
  "reporter_header line r = say (line @ newline) r"

text \<open>What the two \<open>git\<close> commands print; \<open>None\<close> when the command could not be started.\<close>

definition git_version :: "string option \<Rightarrow> string option \<Rightarrow> reporter \<Rightarrow> reporter" where
  "git_version rev_parse status r =
     (let line = (case rev_parse of None \<Rightarrow> [] | Some out \<Rightarrow> fgets_buf 64 out);
          hash = (if line \<noteq> [] \<and> last line = CHR 0x0A then butlast line else line);
          dirty = (case status of None \<Rightarrow> [] | Some out \<Rightarrow> if fgets_buf 8 out \<noteq> [] then '' (dirty)'' else [])
      in reporter_header (into_buf 128 (''    git: '' @ hash @ dirty)) r)"

definition bar_char :: string where
  "bar_char = [CHR 0xE2, CHR 0x94, CHR 0x80]"

definition bars :: "nat \<Rightarrow> string" where
  "bars n = concat (replicate n bar_char)"

definition table_columns :: "string list \<Rightarrow> string" where
  "table_columns xs = concat (map (\<lambda>c. '' '' @ pad_left 10 c) xs)"

definition begin_section :: "string \<Rightarrow> reporter \<Rightarrow> reporter" where
  "begin_section title r =
     (let prefix_len = 4 + length title + 6;
          title_bar = newline @ bars 2 @ '' '' @ title @ '' (ns) '' @ bars (94 - prefix_len) @ newline;
          hdr_line = into_buf 512 (''  '' @ pad_right 22 [] @
            table_columns [''p50'', ''p99'', ''p99.9'', ''p99.99'', ''min'', ''max'']);
          sep = ''  '' @ bars 88
      in say (title_bar @ hdr_line @ newline @ sep @ newline) (r\<lparr>rp_section := title\<rparr>))"

definition pct :: "rat \<Rightarrow> double" where
  "pct q = of_rat_double False q"

definition row_name :: "string \<Rightarrow> string \<Rightarrow> string" where
  "row_name title label = title @ '' '' @ [CHR 0xE2, CHR 0x80, CHR 0x94] @ '' '' @ label"

definition row_line :: "string \<Rightarrow> histogram \<Rightarrow> string option" where
  "row_line label h =
     (case (hg_percentile (pct 50) h, hg_percentile (pct 99) h, hg_percentile (pct (999 / 10)) h,
            hg_percentile (pct (9999 / 100)) h) of
        (Some a, Some b, Some c, Some d) \<Rightarrow>
          Some (into_buf 256 (''  '' @ pad_right 22 label @ table_columns (map fmt_ns [a, b, c, d, min_val h, max_val h])))
      | _ \<Rightarrow> None)"

definition report_row :: "string \<Rightarrow> histogram \<Rightarrow> reporter \<Rightarrow> reporter option" where
  "report_row label h r =
     map_option (\<lambda>line.
       say (line @ newline)
         (r\<lparr>rp_combined := hg_add h (rp_combined r), rp_total_ops := rp_total_ops r + hg_len h,
            rp_histograms := rp_histograms r @ [(row_name (rp_section r) label, h)]\<rparr>))
       (row_line label h)"

definition report_summary :: "double \<Rightarrow> reporter \<Rightarrow> reporter option" where
  "report_summary elapsed_s r =
     (let h = rp_combined r
      in case (dbl_to_u64 (fdiv (dbl_of_u64 (rp_total_ops r)) elapsed_s), hg_percentile (pct 50) h,
               hg_percentile (pct 99) h, hg_percentile (pct (999 / 10)) h) of
           (Some throughput, Some a, Some b, Some c) \<Rightarrow>
             Some (say
               (newline @ bars 2 @ '' Summary '' @ bars 51 @ newline @
                ''  Total ops:          '' @ fmt_ns (rp_total_ops r) @ newline @
                ''  Throughput:         '' @ fmt_ns throughput @ '' ops/sec'' @ newline @
                ''  Latency (all ops):  p50='' @ fmt_ns a @ '' ns  p99='' @ fmt_ns b @ '' ns  p99.9='' @ fmt_ns c @
                '' ns  max='' @ fmt_ns (max_val h) @ '' ns'' @ newline @
                ''  Benchmark time:     '' @ fmt_fixed 2 elapsed_s @ ''s'' @ newline) r)
         | _ \<Rightarrow> None)"

section \<open>Saving\<close>

definition safe_char :: "char \<Rightarrow> bool" where
  "safe_char c =
     (let k = of_char c :: nat
      in 97 \<le> k \<and> k \<le> 122 \<or> 65 \<le> k \<and> k \<le> 90 \<or> 48 \<le> k \<and> k \<le> 57 \<or> c = CHR ''-'' \<or> c = CHR ''_'')"

definition safe_name :: "string \<Rightarrow> string" where
  "safe_name label = map (\<lambda>c. if safe_char c then c else CHR ''_'') label"

text \<open>The percentiles of the saved histogram, as the four loops compute them.\<close>

definition csv_points :: "double list" where
  "csv_points =
     map dbl_of_int [0..90] @ map (\<lambda>p. fdiv (dbl_of_int p) (Fin False 10)) [900..990] @
     map (\<lambda>p. fdiv (dbl_of_int p) (Fin False 100)) [9900..9990] @
     map (\<lambda>p. fdiv (dbl_of_int p) (Fin False 1000)) [99900..99990]"

fun csv_lines :: "histogram \<Rightarrow> double list \<Rightarrow> string option" where
  "csv_lines h [] = Some []"
| "csv_lines h (p # ps) =
     (case (hg_percentile p h, csv_lines h ps) of
        (Some ns, Some rest) \<Rightarrow> Some (into_buf 64 (fmt_fixed 4 p @ '','' @ num_llu ns @ newline) @ rest)
      | _ \<Rightarrow> None)"

definition histogram_csv :: "histogram \<Rightarrow> string option" where
  "histogram_csv h =
     (case (csv_lines h csv_points, hg_percentile (pct (99999 / 1000)) h) of
        (Some body, Some ns) \<Rightarrow>
          Some (''percentile,latency_ns'' @ newline @ body @ ''99.9990,'' @ num_llu ns @ newline @
                ''100.0000,'' @ num_llu (max_val h) @ newline)
      | _ \<Rightarrow> None)"

definition bench_results_dir :: string where
  "bench_results_dir = ''results/matching/linux''"

definition bench_stem :: "nat \<Rightarrow> string" where
  "bench_stem now = bench_results_dir @ ''/'' @ utc_timestamp now"

text \<open>What \<open>save\<close> leaves: the directories it creates, the files it writes, and the two outputs.\<close>

record saved =
  sv_stdout :: string
  sv_stderr :: string
  sv_mkdirs :: "string list"
  sv_files :: "(string \<times> string) list"

definition csv_path :: "string \<Rightarrow> string \<Rightarrow> string" where
  "csv_path hist_dir label = hist_dir @ ''/'' @ safe_name label @ ''.csv''"

fun save_histograms ::
  "(string \<Rightarrow> bool) \<Rightarrow> string \<Rightarrow> (string \<times> histogram) list \<Rightarrow> (string \<times> string) list option"
where
  "save_histograms can_open dir [] = Some []"
| "save_histograms can_open dir ((label, h) # hs) =
     (case (histogram_csv h, save_histograms can_open dir hs) of
        (Some csv, Some rest) \<Rightarrow>
          Some (if can_open (csv_path dir label) then (csv_path dir label, csv) # rest else rest)
      | _ \<Rightarrow> None)"

definition report_save :: "(string \<Rightarrow> bool) \<Rightarrow> nat \<Rightarrow> reporter \<Rightarrow> saved option" where
  "report_save can_open now r =
     (let dirs = mkdirs bench_results_dir; path = bench_stem now @ ''.txt''; hist_dir = bench_stem now @ ''_histograms''
      in if \<not> can_open path then
           Some \<lparr>sv_stdout = [], sv_stderr = ''  Warning: could not save results to '' @ path @ newline,
                 sv_mkdirs = dirs, sv_files = []\<rparr>
         else
           map_option (\<lambda>csvs.
             \<lparr>sv_stdout = ''  Results saved to '' @ path @ newline @ ''  Histograms saved to '' @ hist_dir @ ''/'' @ newline,
              sv_stderr = [], sv_mkdirs = dirs @ mkdirs hist_dir, sv_files = (path, rp_output r) # csvs\<rparr>)
             (save_histograms can_open hist_dir (rp_histograms r)))"

end
