(* ===== verification/Bench_Main.thy ===== *)
theory Bench_Main
  imports Bench_Report
begin

text \<open>
  The command line and \<open>main\<close> of \<open>benchmarks/matching_bench.cpp\<close>: scenarios by name, their parameters,
  the benchmark and the profile mode.
\<close>

section \<open>Scenarios\<close>

datatype scenario_kind =
    PassiveInsert | AggressiveFill | MultiLevelSweep | MarketOrder | CancelScenario | CancelHotLevel
  | DrainSingleLevel | MixedWorkload

definition scenario_table :: "(string \<times> scenario_kind) list" where
  "scenario_table =
     [(''passive-insert'', PassiveInsert), (''aggressive-fill'', AggressiveFill),
      (''multi-level-sweep'', MultiLevelSweep), (''market-order'', MarketOrder), (''cancel'', CancelScenario),
      (''cancel-hot-level'', CancelHotLevel), (''drain-single-level'', DrainSingleLevel),
      (''mixed-workload'', MixedWorkload)]"

definition parse_scenario :: "string \<Rightarrow> scenario_kind option" where
  "parse_scenario name = map_of scenario_table name"

definition param_values :: "u64 \<Rightarrow> u64 list \<Rightarrow> u64 list" where
  "param_values custom defaults = (if custom \<noteq> 0 then [custom] else defaults)"

text \<open>The title of a scenario and its rows: a label and the workload it times.\<close>

definition depth_rows :: "(u64 \<Rightarrow> workload) \<Rightarrow> u64 list \<Rightarrow> (string \<times> workload) list" where
  "depth_rows wl ds = map (\<lambda>d. (into_buf 32 (''depth='' @ fmt_depth d), wl d)) ds"

definition number_rows :: "(u64 \<Rightarrow> workload) \<Rightarrow> string \<Rightarrow> u64 list \<Rightarrow> (string \<times> workload) list" where
  "number_rows wl unit_name ns = map (\<lambda>n. (into_buf 32 (num_llu n @ unit_name), wl n)) ns"

fun scenario_title :: "scenario_kind \<Rightarrow> string" where
  "scenario_title PassiveInsert = ''Passive Insert''"
| "scenario_title AggressiveFill = ''Aggressive Fill (1 lot)''"
| "scenario_title MultiLevelSweep = ''Multi-Level Sweep''"
| "scenario_title MarketOrder = ''Market Order (1 lot)''"
| "scenario_title CancelScenario = ''Cancel''"
| "scenario_title CancelHotLevel = ''Cancel Hot Level (single price)''"
| "scenario_title DrainSingleLevel = ''Drain Single Level''"
| "scenario_title MixedWorkload = ''Mixed Workload (65% cancel, 25% insert, 10% fill)''"

fun scenario_rows :: "scenario_kind \<Rightarrow> u64 \<Rightarrow> u64 \<Rightarrow> u64 \<Rightarrow> (string \<times> workload) list" where
  "scenario_rows PassiveInsert depth levels orders =
     depth_rows passive_insert (param_values depth [0, 100, 10000, 100000])"
| "scenario_rows AggressiveFill depth levels orders =
     depth_rows aggressive_fill (param_values depth [100, 10000, 100000])"
| "scenario_rows MultiLevelSweep depth levels orders =
     number_rows multi_level_sweep '' levels'' (param_values levels [1, 5, 10, 50])"
| "scenario_rows MarketOrder depth levels orders =
     depth_rows market_order_bench (param_values depth [100, 10000, 100000])"
| "scenario_rows CancelScenario depth levels orders =
     depth_rows cancel_bench (param_values depth [100, 10000, 100000])"
| "scenario_rows CancelHotLevel depth levels orders =
     number_rows cancel_hot_level '' orders/level'' (param_values orders [10, 100, 1000, 10000])"
| "scenario_rows DrainSingleLevel depth levels orders =
     number_rows drain_single_level '' orders'' (param_values orders [10, 50, 100, 500, 1000])"
| "scenario_rows MixedWorkload depth levels orders =
     depth_rows mixed_workload (param_values depth [100, 10000, 100000])"

text \<open>\<open>clocks k i\<close> gives the readings around the operation of iteration \<open>i\<close> in the \<open>k\<close>-th run.\<close>

fun bench_rows ::
  "double \<Rightarrow> (nat \<Rightarrow> nat \<Rightarrow> u64 \<times> u64) \<Rightarrow> (string \<times> workload) list \<Rightarrow> reporter \<Rightarrow> reporter option"
where
  "bench_rows v clocks [] r = Some r"
| "bench_rows v clocks ((label, wl) # rows) r =
     (case run_bench v (clocks (length (rp_histograms r))) wl of
        None \<Rightarrow> None
      | Some h \<Rightarrow>
          (case report_row label h r of
             None \<Rightarrow> None
           | Some r' \<Rightarrow> bench_rows v clocks rows r'))"

definition run_bench_scenario ::
  "double \<Rightarrow> (nat \<Rightarrow> nat \<Rightarrow> u64 \<times> u64) \<Rightarrow> u64 \<Rightarrow> u64 \<Rightarrow> u64 \<Rightarrow> scenario_kind \<Rightarrow> reporter \<Rightarrow> reporter option"
where
  "run_bench_scenario v clocks depth levels orders kind r =
     bench_rows v clocks (scenario_rows kind depth levels orders) (begin_section (scenario_title kind) r)"

fun bench_scenarios ::
  "double \<Rightarrow> (nat \<Rightarrow> nat \<Rightarrow> u64 \<times> u64) \<Rightarrow> scenario_kind list \<Rightarrow> reporter \<Rightarrow> reporter option"
where
  "bench_scenarios v clocks [] r = Some r"
| "bench_scenarios v clocks (k # ks) r =
     (case run_bench_scenario v clocks 0 0 0 k r of None \<Rightarrow> None | Some r' \<Rightarrow> bench_scenarios v clocks ks r')"

fun profile_rows :: "(string \<times> workload) list \<Rightarrow> unit option" where
  "profile_rows [] = Some ()"
| "profile_rows ((label, wl) # rows) = (case run_profile wl of None \<Rightarrow> None | Some w \<Rightarrow> profile_rows rows)"

fun run_profile_scenario :: "nat \<Rightarrow> (string \<times> workload) list \<Rightarrow> unit option" where
  "run_profile_scenario 0 rows = Some ()"
| "run_profile_scenario (Suc rep) rows =
     (case profile_rows rows of None \<Rightarrow> None | Some u \<Rightarrow> run_profile_scenario rep rows)"

section \<open>Arguments\<close>

text \<open>
  \<open>strtoull\<close> in base ten: a value above the largest \<open>unsigned long long\<close> gives that value, and a minus
  sign negates in 64 bits.
\<close>

definition strtoull :: "string \<Rightarrow> u64" where
  "strtoull s =
     (let s1 = dropWhile is_space s; m = read_digits 0 (strip_sign s1)
      in if m \<ge> 2 ^ 64 then - 1 else if s1 \<noteq> [] \<and> hd s1 = CHR ''-'' then - of_int m else of_int m)"

datatype bench_mode = BenchAll | BenchScenario | Profile

record bench_args =
  ba_mode :: bench_mode
  ba_scenario :: scenario_kind
  ba_depth :: u64
  ba_levels :: u64
  ba_orders :: u64
  ba_repeat :: u64
  ba_has_scenario :: bool

definition default_bench_args :: bench_args where
  "default_bench_args =
     \<lparr>ba_mode = BenchAll, ba_scenario = PassiveInsert, ba_depth = 0, ba_levels = 0, ba_orders = 0, ba_repeat = 1,
      ba_has_scenario = False\<rparr>"

definition bench_usage :: "string \<Rightarrow> string" where
  "bench_usage prog =
     ''Usage:'' @ newline @
     ''  '' @ prog @ ''                                          Run all benchmarks'' @ newline @
     ''  '' @ prog @ '' bench [--scenario <name>] [--depth N] [--levels N] [--orders N]'' @ newline @
     ''  '' @ prog @ '' profile --scenario <name> [--depth N] [--levels N] [--orders N] [--repeat N]'' @ newline @
     newline @
     ''Scenarios: passive-insert, aggressive-fill, multi-level-sweep, market-order,'' @ newline @
     ''           cancel, cancel-hot-level, drain-single-level, mixed-workload'' @ newline"

definition with_scenario :: "scenario_kind \<Rightarrow> bench_args \<Rightarrow> bench_args" where
  "with_scenario k a =
     a\<lparr>ba_scenario := k, ba_has_scenario := True,
       ba_mode := (if ba_mode a = BenchAll then BenchScenario else ba_mode a)\<rparr>"

text \<open>The arguments that stand alone. An early return of \<open>main\<close> is its status and what it prints on \<open>stderr\<close>.\<close>

definition plain_arg :: "string \<Rightarrow> string \<Rightarrow> bench_args \<Rightarrow> (int \<times> string) + bench_args" where
  "plain_arg prog x a =
     (if x = ''bench'' then Inr (a\<lparr>ba_mode := BenchAll\<rparr>)
      else if x = ''profile'' then Inr (a\<lparr>ba_mode := Profile\<rparr>)
      else if x = ''--help'' \<or> x = ''-h'' then Inl (0, bench_usage prog)
      else Inr a)"

fun bench_args_loop :: "string \<Rightarrow> string list \<Rightarrow> bench_args \<Rightarrow> (int \<times> string) + bench_args" where
  "bench_args_loop prog [] a = Inr a"
| "bench_args_loop prog [x] a = plain_arg prog x a"
| "bench_args_loop prog (x # y # zs) a =
     (if x = ''--scenario'' then
        (case parse_scenario y of
           None \<Rightarrow> Inl (1, ''Unknown scenario: '' @ y @ newline @ bench_usage prog)
         | Some k \<Rightarrow> bench_args_loop prog zs (with_scenario k a))
      else if x = ''--depth'' then bench_args_loop prog zs (a\<lparr>ba_depth := strtoull y\<rparr>)
      else if x = ''--levels'' then bench_args_loop prog zs (a\<lparr>ba_levels := strtoull y\<rparr>)
      else if x = ''--orders'' then bench_args_loop prog zs (a\<lparr>ba_orders := strtoull y\<rparr>)
      else if x = ''--repeat'' then bench_args_loop prog zs (a\<lparr>ba_repeat := strtoull y\<rparr>)
      else
        (case plain_arg prog x a of
           Inl stop \<Rightarrow> Inl stop
         | Inr a' \<Rightarrow> bench_args_loop prog (y # zs) a'))"

section \<open>The program\<close>

text \<open>
  What the benchmark meets: the conversion factor and the readings of the clock, the output of \<open>git\<close>,
  the nanosecond clock before and after, the time of day, and which files can be opened.
\<close>

record bench_world =
  bw_ns_per_tick :: double
  bw_clocks :: "nat \<Rightarrow> nat \<Rightarrow> u64 \<times> u64"
  bw_git_hash :: "string option"
  bw_git_status :: "string option"
  bw_start_ns :: u64
  bw_end_ns :: u64
  bw_now :: nat
  bw_can_open :: "string \<Rightarrow> bool"

record bench_end =
  be_status :: int
  be_stdout :: string
  be_stderr :: string
  be_mkdirs :: "string list"
  be_files :: "(string \<times> string) list"

definition bench_stop :: "int \<Rightarrow> string \<Rightarrow> bench_end" where
  "bench_stop status err =
     \<lparr>be_status = status, be_stdout = [], be_stderr = ''All 10 tests passed.'' @ newline @ newline @ err,
      be_mkdirs = [], be_files = []\<rparr>"

definition all_scenarios :: "scenario_kind list" where
  "all_scenarios =
     [PassiveInsert, AggressiveFill, MultiLevelSweep, MarketOrder, CancelScenario, CancelHotLevel, DrainSingleLevel,
      MixedWorkload]"

definition profile_main :: "bench_world \<Rightarrow> string \<Rightarrow> bench_args \<Rightarrow> bench_end option" where
  "profile_main w prog a =
     (if \<not> ba_has_scenario a then
        Some (bench_stop 1 (''profile mode requires --scenario'' @ newline @ bench_usage prog))
      else
        map_option (\<lambda>_. bench_stop 0
          (''profile complete: repeat='' @ num_llu (ba_repeat a) @ '' elapsed='' @
           fmt_fixed 2 (elapsed_seconds (bw_start_ns w) (bw_end_ns w)) @ ''s'' @ newline))
          (run_profile_scenario (unat (ba_repeat a))
             (scenario_rows (ba_scenario a) (ba_depth a) (ba_levels a) (ba_orders a))))"

definition bench_report :: "bench_world \<Rightarrow> bench_args \<Rightarrow> reporter option" where
  "bench_report w a =
     (let params = into_buf 128 (''    warmup='' @ num_llu (of_nat WARMUP) @ ''  iters='' @ num_llu (of_nat ITERS) @
            ''  sweep_iters='' @ num_llu (of_nat SWEEP_ITERS));
          r = reporter_header params (git_version (bw_git_hash w) (bw_git_status w)
            (reporter_header ''=== Matching Engine Latency Benchmark (C++) ==='' new_reporter));
          rows = (if ba_mode a = BenchScenario then
              run_bench_scenario (bw_ns_per_tick w) (bw_clocks w) (ba_depth a) (ba_levels a) (ba_orders a) (ba_scenario a) r
            else bench_scenarios (bw_ns_per_tick w) (bw_clocks w) all_scenarios r)
      in case rows of
           None \<Rightarrow> None
         | Some r' \<Rightarrow> report_summary (elapsed_seconds (bw_start_ns w) (bw_end_ns w)) r')"

definition bench_main :: "bench_world \<Rightarrow> string list \<Rightarrow> bench_end option" where
  "bench_main w argv =
     (if \<not> list_all id run_tests then None
      else
        case bench_args_loop (hd argv) (tl argv) default_bench_args of
          Inl (status, err) \<Rightarrow> Some (bench_stop status err)
        | Inr a \<Rightarrow>
            if ba_mode a = Profile then profile_main w (hd argv) a
            else
              (case bench_report w a of
                 None \<Rightarrow> None
               | Some r \<Rightarrow>
                   map_option (\<lambda>sv.
                     (bench_stop 0 (sv_stderr sv))\<lparr>be_stdout := rp_output r @ sv_stdout sv, be_mkdirs := sv_mkdirs sv,
                        be_files := sv_files sv\<rparr>)
                     (report_save (bw_can_open w) (bw_now w) r)))"

end
