(* ===== verification/Bench_Properties.thy ===== *)
theory Bench_Properties
  imports Bench
begin

text \<open>
  What the operations measured by the benchmark do: over the resting orders of the book before and
  after the timed part of any iteration, each workload performs the operation it is named after.
\<close>

section \<open>Orders that rest, and orders that trade\<close>

abbreviation bid_quotes :: "order_book \<Rightarrow> quote list" where
  "bid_quotes b \<equiv> fst (abs_of b)"

abbreviation ask_quotes :: "order_book \<Rightarrow> quote list" where
  "ask_quotes b \<equiv> snd (abs_of b)"

lemma set_insert_prio: "set (insert_prio lt x xs) = insert x (set xs)"
proof -
  have "set (takeWhile P xs) \<union> set (dropWhile P xs) = set xs" for P
    by (metis set_append takeWhile_dropWhile_id)
  then show ?thesis by (fastforce simp: insert_prio_def Let_def)
qed

lemma length_insert_prio: "length (insert_prio lt x xs) = Suc (length xs)"
proof -
  have "length (takeWhile P xs) + length (dropWhile P xs) = length xs" for P
    by (metis length_append takeWhile_dropWhile_id)
  then show ?thesis by (simp add: insert_prio_def Let_def)
qed

lemma limit_order_simps [simp]:
  "o_id (limit_order i s p q) = i" "o_side (limit_order i s p q) = s" "o_price (limit_order i s p q) = p"
  "o_qty (limit_order i s p q) = q" "o_type (limit_order i s p q) = Limit"
  "o_id (market_order i s q) = i" "o_side (market_order i s q) = s" "o_qty (market_order i s q) = q"
  "o_type (market_order i s q) = Market"
  by (simp_all add: limit_order_def market_order_def)

text \<open>Every bid is at most \<open>lo\<close> and every ask at least \<open>hi\<close>.\<close>

definition rests :: "u64 \<Rightarrow> u64 \<Rightarrow> order_book \<Rightarrow> bool" where
  "rests lo hi b =
     (book_inv b \<and> (\<forall>q \<in> set (bid_quotes b). fst q \<le> lo) \<and> (\<forall>q \<in> set (ask_quotes b). hi \<le> fst q))"

definition stays_out :: "u64 \<Rightarrow> u64 \<Rightarrow> order \<Rightarrow> bool" where
  "stays_out lo hi ord =
     (o_type ord = Limit \<and> o_qty ord \<noteq> 0 \<and>
      (case o_side ord of Buy \<Rightarrow> o_price ord \<le> lo | Sell \<Rightarrow> hi \<le> o_price ord))"

lemma trade_none: "\<forall>x \<in> set xs. \<not> ok (fst x) \<Longrightarrow> trade ok r xs = (r, xs, [])"
  by (cases xs) auto

text \<open>A passive order rests: no fill, and its quote is added to its side.\<close>

lemma passive_rests:
  assumes "rests lo hi b" "lo < hi" "stays_out lo hi ord" "add_order ord fs b = (b', fs')"
  defines "x \<equiv> (o_price ord, o_id ord, o_qty ord)"
  shows "fs' = fs \<and> rests lo hi b' \<and>
    (case o_side ord of
       Buy \<Rightarrow> abs_of b' = (insert_prio (>) x (bid_quotes b), ask_quotes b)
     | Sell \<Rightarrow> abs_of b' = (bid_quotes b, insert_prio (<) x (ask_quotes b)))"
proof -
  have inv: "book_inv b" using assms(1) by (simp add: rests_def)
  obtain r rest ts where t:
    "trade (acceptable ord) (o_qty ord) (opposite_side ord (abs_of b)) = (r, rest, ts)"
    "fs' = fs @ map (mk_fill ord) ts" "opposite_side ord (abs_of b') = rest"
    "own_side ord (abs_of b') =
       (if r > 0 \<and> o_type ord = Limit
        then insert_prio (case o_side ord of Buy \<Rightarrow> (>) | Sell \<Rightarrow> (<)) (o_price ord, o_id ord, r) (own_side ord (abs_of b))
        else own_side ord (abs_of b))"
    by (rule ob.add_trades [OF inv assms(4)])
  have "\<forall>q \<in> set (opposite_side ord (abs_of b)). \<not> acceptable ord (fst q)"
    using assms(1-3)
    by (cases "o_side ord") (fastforce simp: rests_def stays_out_def opposite_side_def acceptable_def)+
  from trade_none [OF this] t(1) have "r = o_qty ord" "rest = opposite_side ord (abs_of b)" "ts = []" by simp_all
  then have q: "fs' = fs" "case o_side ord of
       Buy \<Rightarrow> abs_of b' = (insert_prio (>) x (bid_quotes b), ask_quotes b)
     | Sell \<Rightarrow> abs_of b' = (bid_quotes b, insert_prio (<) x (ask_quotes b))"
    using t assms(3)
    by (cases "o_side ord"; cases "abs_of b"; cases "abs_of b'";
        auto simp: stays_out_def opposite_side_def own_side_def x_def word_gt_0_iff)+
  moreover have "book_inv b'" using ob.inv_add [OF inv, of ord fs] assms(4) by simp
  ultimately show ?thesis
    using assms(1,3) by (cases "o_side ord") (auto simp: rests_def stays_out_def set_insert_prio x_def)
qed

text \<open>An order for one lot takes one lot of the best opposite order, if its price is acceptable.\<close>

lemma trade_one:
  assumes "xs \<noteq> []" "ok (fst (hd xs))" "\<forall>x \<in> set xs. snd (snd x) \<noteq> 0"
  shows "\<exists>rest p i. trade ok 1 xs = (0, rest, [(p, i, 1)]) \<and> set (map fst rest) \<subseteq> set (map fst xs)"
proof -
  obtain p i q ys where xs: "xs = (p, i, q) # ys" using assms(1) by (metis list.exhaust prod_cases3)
  have "trade ok 0 ys = (0, ys, [])" by (cases ys) auto
  moreover have "q \<le> 1 \<longleftrightarrow> q = 1" using assms(3) xs by (auto simp: word_le_nat_alt word_unat_eq_iff le_Suc_eq)
  ultimately show ?thesis using assms(2) by (auto simp: xs)
qed

text \<open>An order for at least all the quantity on the opposite side, at acceptable prices, takes all of it.\<close>

lemma trade_all:
  assumes "\<forall>x \<in> set xs. ok (fst x) \<and> snd (snd x) \<noteq> 0" "volume xs \<le> unat r"
  shows "\<exists>r'. trade ok r xs = (r', [], xs) \<and> unat r' = unat r - volume xs"
  using assms
proof (induction xs arbitrary: r)
  case (Cons x xs)
  obtain p i q where x: "x = (p, i, q)" by (cases x)
  have q: "unat q \<noteq> 0" using Cons.prems(1) by (simp add: x unat_eq_zero)
  then have le: "q \<le> r" "r \<noteq> 0" using Cons.prems(2) by (auto simp: x word_le_nat_alt)
  have "volume xs \<le> unat (r - q)" using Cons.prems(2) le by (simp add: x unat_sub)
  with Cons.IH [of "r - q"] Cons.prems(1) obtain r' where
    "trade ok (r - q) xs = (r', [], xs)" "unat r' = unat (r - q) - volume xs" by auto
  then show ?case using Cons.prems(1) le by (auto simp: x unat_sub)
qed simp

text \<open>A location belongs to an order on its side, so a book without quotes has none.\<close>

lemma locs_quotes:
  assumes "book_inv b" "locs b \<noteq> []" "bid_quotes b = []"
  shows "ask_quotes b \<noteq> []"
proof
  assume "ask_quotes b = []"
  with assms(3) have "flat (bids b) = []" "flat (asks b) = []"
    using mset_flat_rev [of "bids b"] by (simp_all add: abs_of_def)
  moreover obtain oid l where "(oid, l) \<in> set (locs b)" using assms(2) by (cases "locs b") auto
  ultimately show False
    using book_invD(12) [OF assms(1)] by (cases "loc_side l") (fastforce simp: locs_ok_def side_levels_def)+
qed

section \<open>Seeding\<close>

text \<open>A seed that rests: its quote is added, and with a fresh identifier the index stays exact.\<close>

lemma seed_rests:
  assumes "rests lo hi (fb_book fb)" "lo < hi" "qty \<noteq> 0" "case s of Buy \<Rightarrow> price \<le> lo | Sell \<Rightarrow> hi \<le> price"
  defines "fb' \<equiv> seed_order s price qty fb" and "x \<equiv> (price, fb_next_id fb, qty)"
  shows "rests lo hi (fb_book fb') \<and> fb_next_id fb' = fb_next_id fb + 1 \<and>
    (case s of
       Buy \<Rightarrow> abs_of (fb_book fb') = (insert_prio (>) x (bid_quotes (fb_book fb)), ask_quotes (fb_book fb))
     | Sell \<Rightarrow> abs_of (fb_book fb') = (bid_quotes (fb_book fb), insert_prio (<) x (ask_quotes (fb_book fb)))) \<and>
    (indexed (fb_book fb) \<and> fb_next_id fb \<notin> book_ids (abs_of (fb_book fb)) \<longrightarrow> indexed (fb_book fb'))"
proof -
  let ?o = "limit_order (fb_next_id fb) s price qty"
  obtain b fills where a: "add_order ?o [] (fb_book fb) = (b, fills)" by fastforce
  have "stays_out lo hi ?o" using assms(3,4) by (cases s) (simp_all add: stays_out_def)
  from passive_rests [OF assms(1,2) this a]
  have "fills = [] \<and> rests lo hi b \<and>
    (case s of
       Buy \<Rightarrow> abs_of b = (insert_prio (>) x (bid_quotes (fb_book fb)), ask_quotes (fb_book fb))
     | Sell \<Rightarrow> abs_of b = (bid_quotes (fb_book fb), insert_prio (<) x (ask_quotes (fb_book fb))))"
    by (cases s) (simp_all add: x_def)
  moreover have "indexed b" if "indexed (fb_book fb)" "fb_next_id fb \<notin> book_ids (abs_of (fb_book fb))"
    using ob.exact_add [OF _ that(1), of ?o "[]"] assms(1) that(2) a by (simp add: rests_def)
  moreover have "fb' = \<lparr>fb_book = b, fb_next_id = fb_next_id fb + 1, fb_fills = fills\<rparr>"
    by (simp add: fb'_def seed_order_def a)
  ultimately show ?thesis by (cases s) simp_all
qed

lemma new_book_rests [simp]: "rests lo hi (fb_book (new_book i))" "abs_of (fb_book (new_book i)) = ([], [])"
  "indexed (fb_book (new_book i))" "fb_next_id (new_book i) = i"
  using ob.inv_empty ob.exact_empty ob.abs_empty by (simp_all add: new_book_def rests_def)

text \<open>Seeds with consecutive identifiers.\<close>

lemma seed_fold_ids:
  fixes p :: "nat \<Rightarrow> u64"
  assumes "lo < hi" "qty \<noteq> 0" "\<forall>i < n. case sd i of Buy \<Rightarrow> p i \<le> lo | Sell \<Rightarrow> hi \<le> p i" "f + n \<le> 2 ^ 64"
  defines "fb \<equiv> fold (\<lambda>i. seed_order (sd i) (p i) qty) [0..<n] (new_book (of_nat f))"
  shows "rests lo hi (fb_book fb) \<and> indexed (fb_book fb) \<and> fb_next_id fb = of_nat (f + n) \<and>
    book_ids (abs_of (fb_book fb)) = of_nat ` {f..<f + n}"
  using assms(3,4) unfolding fb_def
proof (induction n)
  case (Suc n)
  let ?fb = "fold (\<lambda>i. seed_order (sd i) (p i) qty) [0..<n] (new_book (of_nat f))"
  have IH: "rests lo hi (fb_book ?fb)" "indexed (fb_book ?fb)" "fb_next_id ?fb = of_nat (f + n)"
    "book_ids (abs_of (fb_book ?fb)) = of_nat ` {f..<f + n}"
    using Suc by simp_all
  have new: "(of_nat (f + n) :: u64) \<notin> of_nat ` {f..<f + n}"
  proof
    assume "(of_nat (f + n) :: u64) \<in> of_nat ` {f..<f + n}"
    then obtain k where "k < f + n" "(of_nat (f + n) :: u64) = of_nat k" by auto
    moreover have "unat (of_nat m :: u64) = m" if "m < 2 ^ 64" for m using that by (simp add: unat_of_nat)
    ultimately show False using Suc.prems(2) by (metis add_Suc_right less_irrefl less_le_trans less_trans lessI)
  qed
  have "case sd n of Buy \<Rightarrow> p n \<le> lo | Sell \<Rightarrow> hi \<le> p n" using Suc.prems by blast
  note st = seed_rests [OF IH(1) assms(1,2) this]
  have "book_ids (abs_of (fb_book (seed_order (sd n) (p n) qty ?fb))) =
      insert (of_nat (f + n)) (book_ids (abs_of (fb_book ?fb)))"
    using st IH(3) by (cases "sd n") (auto simp: quote_ids_insert_prio)
  also have "\<dots> = of_nat ` {f..<f + Suc n}"
    unfolding IH(4) by (metis add_Suc_right atLeastLessThanSuc image_insert le_add1)
  finally show ?case using st IH new by (simp add: ac_simps)
qed (simp add: quote_ids_def)

text \<open>Seeds on the sell side only, with any identifiers.\<close>

lemma seed_fold_asks:
  fixes p :: "nat \<Rightarrow> u64" and oid :: u64
  assumes "qty \<noteq> 0" "\<forall>i < n. 0 < p i"
  defines "fb \<equiv> fold (\<lambda>i. seed_order Sell (p i) qty) [0..<n] (new_book oid)"
  shows "book_inv (fb_book fb) \<and> bid_quotes (fb_book fb) = [] \<and> length (ask_quotes (fb_book fb)) = n \<and>
    (\<forall>q \<in> set (ask_quotes (fb_book fb)). snd (snd q) = qty \<and> fst q \<in> p ` {..<n})"
proof -
  have "rests 0 1 (fb_book fb) \<and> bid_quotes (fb_book fb) = [] \<and> length (ask_quotes (fb_book fb)) = n \<and>
    (\<forall>q \<in> set (ask_quotes (fb_book fb)). snd (snd q) = qty \<and> fst q \<in> p ` {..<n})"
    using assms(2) unfolding fb_def
  proof (induction n)
    case (Suc n)
    let ?fb = "fold (\<lambda>i. seed_order Sell (p i) qty) [0..<n] (new_book oid)"
    have IH: "rests 0 1 (fb_book ?fb)" "bid_quotes (fb_book ?fb) = []" "length (ask_quotes (fb_book ?fb)) = n"
      "\<forall>q \<in> set (ask_quotes (fb_book ?fb)). snd (snd q) = qty \<and> fst q \<in> p ` {..<n}"
      using Suc by simp_all
    have "1 \<le> p n" using Suc.prems by (simp add: word_le_nat_alt word_less_nat_alt Suc_le_eq)
    then have "case Sell of Buy \<Rightarrow> p n \<le> 0 | Sell \<Rightarrow> 1 \<le> p n" by simp
    note st = seed_rests [OF IH(1) _ assms(1) this]
    from st IH show ?case by (auto simp: set_insert_prio length_insert_prio lessThan_Suc)
  qed simp
  then show ?thesis by (simp add: rests_def)
qed

section \<open>Iterations\<close>

text \<open>The state before the timed part of iteration \<open>k\<close>, and what holds of every timed part of a run.\<close>

fun bench_at :: "workload \<Rightarrow> nat \<Rightarrow> bench_state option" where
  "bench_at wl 0 = Some (wl_before wl (wl_init wl))"
| "bench_at wl (Suc k) =
     (case bench_at wl k of
        None \<Rightarrow> None
      | Some w \<Rightarrow> map_option (\<lambda>w'. wl_before wl (wl_after wl w')) (wl_timed wl w))"

definition measures :: "workload \<Rightarrow> (bench_state \<Rightarrow> bench_state \<Rightarrow> bool) \<Rightarrow> bool" where
  "measures wl P =
     (\<forall>k < WARMUP + wl_rounds wl. \<exists>w w'. bench_at wl k = Some w \<and> wl_timed wl w = Some w' \<and> P w w')"

lemma measuresI:
  assumes "I 0 (wl_before wl (wl_init wl))"
    and step: "\<And>k w. k < WARMUP + wl_rounds wl \<Longrightarrow> I k w \<Longrightarrow>
      \<exists>w'. wl_timed wl w = Some w' \<and> P w w' \<and> I (Suc k) (wl_before wl (wl_after wl w'))"
  shows "measures wl P"
proof -
  have "\<exists>w. bench_at wl k = Some w \<and> I k w" if "k \<le> WARMUP + wl_rounds wl" for k
    using that
  proof (induction k)
    case (Suc k)
    then obtain w where "bench_at wl k = Some w" "I k w" by auto
    with step [of k w] Suc.prems show ?case by auto
  qed (simp add: assms(1))
  then show ?thesis unfolding measures_def by (meson less_imp_le step)
qed

text \<open>Then the run is defined, and the profile run as well.\<close>

lemma profile_from:
  assumes "bench_at wl k = Some (wl_before wl w)"
    and "\<And>j w1. k \<le> j \<Longrightarrow> j < k + n \<Longrightarrow> bench_at wl j = Some w1 \<Longrightarrow> wl_timed wl w1 \<noteq> None"
  shows "profile_loop wl n w \<noteq> None"
  using assms
proof (induction n arbitrary: k w)
  case (Suc n)
  then obtain w' where w': "wl_timed wl (wl_before wl w) = Some w'" by fastforce
  have "profile_loop wl n (wl_after wl w') \<noteq> None"
  proof (rule Suc.IH [of "Suc k"])
    show "bench_at wl (Suc k) = Some (wl_before wl (wl_after wl w'))" using Suc.prems(1) w' by simp
    show "wl_timed wl w1 \<noteq> None" if "Suc k \<le> j" "j < Suc k + n" "bench_at wl j = Some w1" for j w1
      using Suc.prems(2) [of j w1] that by simp
  qed
  then show ?case by (simp add: w')
qed simp

lemma measures_profile: "measures wl P \<Longrightarrow> run_profile wl \<noteq> None"
  unfolding run_profile_def by (rule profile_from [of wl 0]) (auto simp: measures_def)

lemma bench_from:
  assumes "profile_loop wl (length is) w \<noteq> None" "\<And>i. i \<in> set is \<Longrightarrow> ticks_to_ns v (snd (clock i) - fst (clock i)) \<noteq> None"
  shows "\<exists>h'. bench_loop v clock wl is w h = Some h' \<and>
    length (hg_values h') = length (hg_values h) + length (filter (\<lambda>i. WARMUP \<le> i) is)"
  using assms
proof (induction "is" arbitrary: w h)
  case (Cons i "is")
  then obtain w' where w': "wl_timed wl (wl_before wl w) = Some w'" "profile_loop wl (length is) (wl_after wl w') \<noteq> None"
    by (auto split: option.splits)
  obtain ns where ns: "ticks_to_ns v (snd (clock i) - fst (clock i)) = Some ns" using Cons.prems(2) [of i] by auto
  let ?h = "if WARMUP \<le> i then hg_record ns h else h"
  obtain h' where "bench_loop v clock wl is (wl_after wl w') ?h = Some h'"
    "length (hg_values h') = length (hg_values ?h) + length (filter (\<lambda>i. WARMUP \<le> i) is)"
    using Cons.IH [OF w'(2), of ?h] Cons.prems(2) by auto
  then show ?case using w'(1) ns by (auto simp: hg_record_def split: prod.splits)
qed simp

text \<open>A run whose clock readings can be converted records one value for each round after the warm-up.\<close>

lemma measures_records:
  assumes "measures wl P" "\<And>i. ticks_to_ns v (snd (clock i) - fst (clock i)) \<noteq> None"
  shows "\<exists>h. run_bench v clock wl = Some h \<and> length (hg_values h) = wl_rounds wl"
proof -
  have f: "filter (\<lambda>i. WARMUP \<le> i) [0..<WARMUP + n] = [WARMUP..<WARMUP + n]" for n
    by (induction n) auto
  have "profile_loop wl (length [0..<WARMUP + wl_rounds wl]) (wl_init wl) \<noteq> None"
    using measures_profile [OF assms(1)] by (simp add: run_profile_def)
  from bench_from [OF this assms(2), where h = empty_histogram] show ?thesis
    by (simp add: run_bench_def f empty_histogram_def)
qed

section \<open>The workloads\<close>

abbreviation book_of :: "bench_state \<Rightarrow> order_book" where
  "book_of w \<equiv> fb_book (bn_fb w)"

abbreviation fills_of :: "bench_state \<Rightarrow> fill list" where
  "fills_of w \<equiv> fb_fills (bn_fb w)"

lemmas bench_steps = timed_add_def clear_fills_def next_id_def next_cancel_def bench_start_def

text \<open>The prices of the seeds and of the passive orders.\<close>

lemma sub_le: "x \<le> a \<Longrightarrow> a - x \<le> (a :: u64)"
  by (simp add: word_le_nat_alt unat_sub)

lemma add_le: "unat a + unat x < 2 ^ 64 \<Longrightarrow> a \<le> a + (x :: u64)"
  by (simp add: word_le_nat_alt unat_word_ariths)

lemma low_seed: "x < 200 \<Longrightarrow> MID - SPREAD - x \<le> (MID - SPREAD :: u64)"
  by (rule sub_le) (simp add: MID_def SPREAD_def word_less_nat_alt word_le_nat_alt)

lemma low_price: "x < 100 \<Longrightarrow> MID - SPREAD - 200 - x \<le> (MID - SPREAD :: u64)"
  by (rule order_trans [OF sub_le]) (simp_all add: MID_def SPREAD_def word_less_nat_alt word_le_nat_alt)

lemma high_seed: "x < 200 \<Longrightarrow> MID + SPREAD \<le> MID + SPREAD + (x :: u64)"
  by (rule add_le) (simp add: MID_def SPREAD_def word_less_nat_alt)

lemma high_price: "x < 100 \<Longrightarrow> MID + SPREAD \<le> MID + SPREAD + 200 + (x :: u64)"
  by (rule order_trans [OF _ add_le]) (simp_all add: MID_def SPREAD_def word_less_nat_alt)

lemma high_bound: "x < 200 \<Longrightarrow> MID + SPREAD + x \<le> MID + SPREAD + (200 :: u64)"
  by (simp add: MID_def SPREAD_def word_less_nat_alt word_le_nat_alt unat_word_ariths)

lemma seed_prices: "case s of Buy \<Rightarrow> seed_price s i \<le> MID - SPREAD | Sell \<Rightarrow> MID + SPREAD \<le> seed_price s i"
proof -
  have "(of_nat i :: u64) mod 200 < 200" by (rule word_mod_less_divisor) simp
  then show ?thesis using low_seed high_seed by (cases s) (simp_all add: seed_price_def)
qed

lemma unat_below64: "unat (d :: u64) < 2 ^ 64"
  using unsigned_less [where ?'b = 64 and w = d] by simp

lemma spread_open: "MID - SPREAD < (MID + SPREAD :: u64)"
  by (simp add: MID_def SPREAD_def)

lemma fresh_both:
  "rests (MID - SPREAD) (MID + SPREAD) (fb_book (fresh_book_both d)) \<and> indexed (fb_book (fresh_book_both d)) \<and>
   fb_next_id (fresh_book_both d) = d + 1 \<and> book_ids (abs_of (fb_book (fresh_book_both d))) = of_nat ` {1..<unat d + 1}"
proof -
  have n: "1 + unat d \<le> 2 ^ 64" using unat_below64 [of d] by simp
  have ten: "(10 :: u64) \<noteq> 0" by simp
  from seed_fold_ids [where qty = 10 and sd = "\<lambda>i. if even i then Buy else Sell"
      and p = "\<lambda>i. seed_price (if even i then Buy else Sell) i", OF spread_open ten _ n]
  show ?thesis using seed_prices by (simp add: fresh_book_both_def seed_both_def Let_def add.commute)
qed

lemma passive_order_passive: "stays_out (MID - SPREAD) (MID + SPREAD) (passive_order oid)"
proof -
  have "oid mod 100 < 100" by (rule word_mod_less_divisor) simp
  then show ?thesis using low_price high_price by (simp add: stays_out_def passive_order_def id_side_def)
qed

lemma passive_insert_rests:
  "measures (passive_insert d) (\<lambda>w w'. fills_of w' = [] \<and>
     length (bid_quotes (book_of w')) + length (ask_quotes (book_of w')) =
       Suc (length (bid_quotes (book_of w)) + length (ask_quotes (book_of w))))"
proof (rule measuresI [where I = "\<lambda>k w. rests (MID - SPREAD) (MID + SPREAD) (book_of w) \<and> fills_of w = []"])
  fix k w
  assume w: "rests (MID - SPREAD) (MID + SPREAD) (book_of w) \<and> fills_of w = []"
  obtain b fs where a: "add_order (passive_order (fb_next_id (bn_fb w))) (fills_of w) (book_of w) = (b, fs)" by fastforce
  from passive_rests [OF _ spread_open passive_order_passive a] w a
  show "\<exists>w'. wl_timed (passive_insert d) w = Some w' \<and> (fills_of w' = [] \<and>
     length (bid_quotes (book_of w')) + length (ask_quotes (book_of w')) =
       Suc (length (bid_quotes (book_of w)) + length (ask_quotes (book_of w)))) \<and>
     rests (MID - SPREAD) (MID + SPREAD) (book_of (wl_before (passive_insert d) (wl_after (passive_insert d) w'))) \<and>
     fills_of (wl_before (passive_insert d) (wl_after (passive_insert d) w')) = []"
    by (cases "o_side (passive_order (fb_next_id (bn_fb w)))")
      (auto simp: passive_insert_def bench_steps length_insert_prio)
qed (use fresh_both in \<open>simp add: passive_insert_def bench_steps\<close>)

text \<open>A book of asks only, at prices between \<open>1\<close> and \<open>hi\<close>.\<close>

definition asks_only :: "u64 \<Rightarrow> order_book \<Rightarrow> bool" where
  "asks_only hi b = (book_inv b \<and> bid_quotes b = [] \<and> (\<forall>q \<in> set (ask_quotes b). fst q \<le> hi))"

text \<open>Exactly one fill, of one lot, against the best ask.\<close>

definition one_lot :: "bench_state \<Rightarrow> bench_state \<Rightarrow> bool" where
  "one_lot w w' =
     (\<exists>f. fills_of w' = [f] \<and> f_qty f = 1 \<and> maker_id f = fst (snd (hd (ask_quotes (book_of w)))) \<and>
        f_price f = fst (hd (ask_quotes (book_of w))))"

lemma lot_trades:
  assumes "asks_only hi b" "ask_quotes b \<noteq> []" "o_side ord = Buy" "o_qty ord = 1" "\<And>p. p \<le> hi \<Longrightarrow> acceptable ord p"
    and add: "add_order ord [] b = (b', fs)"
  shows "asks_only hi b' \<and> (\<exists>f. fs = [f] \<and> f_qty f = 1 \<and> maker_id f = fst (snd (hd (ask_quotes b))) \<and>
    f_price f = fst (hd (ask_quotes b)))"
proof -
  have inv: "book_inv b" and bid: "bid_quotes b = []" and hi: "\<forall>q \<in> set (ask_quotes b). fst q \<le> hi"
    using assms(1) by (simp_all add: asks_only_def)
  have "\<forall>x \<in> set (ask_quotes b). snd (snd x) \<noteq> 0" using ob.inv_abs [OF inv] by (auto simp: abs_wf_def)
  moreover have "acceptable ord (fst (hd (ask_quotes b)))" using assms(2,5) hi by simp
  ultimately have "\<exists>rest p i. trade (acceptable ord) 1 (ask_quotes b) = (0, rest, [(p, i, 1)]) \<and>
      set (map fst rest) \<subseteq> set (map fst (ask_quotes b))"
    by (intro trade_one [OF assms(2)])
  then obtain rest p i where t: "trade (acceptable ord) 1 (ask_quotes b) = (0, rest, [(p, i, 1)])"
    "set (map fst rest) \<subseteq> set (map fst (ask_quotes b))"
    by (elim exE conjE) (rule that)
  have "key (hd (ask_quotes b)) = (p, i)"
    using trade_priority [OF t(1)] assms(2) by (cases "ask_quotes b") simp_all
  moreover have q: "fs = [mk_fill ord (p, i, 1)]" "abs_of b' = ([], rest)"
    using ob.add_refines [OF inv add] assms(3,4) t(1) bid by (cases "abs_of b"; auto)+
  moreover have "book_inv b'" using ob.inv_add [OF inv, of ord "[]"] add by simp
  moreover have "\<forall>x \<in> set rest. fst x \<le> hi"
  proof
    fix x assume "x \<in> set rest"
    then have "fst x \<in> set (map fst rest)" by simp
    from subsetD [OF t(2) this] obtain y where "y \<in> set (ask_quotes b)" "fst x = fst y" by auto
    then show "fst x \<le> hi" using hi by simp
  qed
  ultimately have "asks_only hi b'" "key (hd (ask_quotes b)) = (p, i)" "fs = [mk_fill ord (p, i, 1)]"
    by (simp_all add: asks_only_def)
  then show ?thesis by (simp add: mk_fill_def key_def)
qed

lemma fresh_asks:
  assumes "0 < d"
  shows "asks_only (MID + SPREAD + 200) (fb_book (fresh_book_asks d)) \<and> ask_quotes (fb_book (fresh_book_asks d)) \<noteq> []"
proof -
  have b: "(of_nat i :: u64) mod 200 < 200" for i by (rule word_mod_less_divisor) simp
  have "0 < MID + SPREAD" by (simp add: MID_def SPREAD_def)
  then have "\<forall>i < unat d. 0 < seed_price Sell i"
    using order_less_le_trans [OF _ high_seed [OF b]] by (simp add: seed_price_def)
  moreover have "(10 :: u64) \<noteq> 0" by simp
  ultimately have q: "book_inv (fb_book (fresh_book_asks d)) \<and> bid_quotes (fb_book (fresh_book_asks d)) = [] \<and>
      length (ask_quotes (fb_book (fresh_book_asks d))) = unat d \<and>
      (\<forall>q \<in> set (ask_quotes (fb_book (fresh_book_asks d))). snd (snd q) = 10 \<and> fst q \<in> seed_price Sell ` {..<unat d})"
    unfolding fresh_book_asks_def seed_one_side_def by (intro seed_fold_asks)
  moreover have "seed_price Sell i \<le> MID + SPREAD + 200" for i
    using high_bound [OF b] by (simp add: seed_price_def)
  ultimately have "asks_only (MID + SPREAD + 200) (fb_book (fresh_book_asks d))" by (auto simp: asks_only_def)
  moreover have "unat d \<noteq> 0" using assms by (simp add: unat_eq_zero word_gt_0_iff)
  ultimately show ?thesis using q by auto
qed

lemma refill_asks_ready:
  assumes "0 < d" "asks_only (MID + SPREAD + 200) (book_of w)"
  shows "asks_only (MID + SPREAD + 200) (book_of (refill_asks d w)) \<and> ask_quotes (book_of (refill_asks d w)) \<noteq> [] \<and>
    fills_of (refill_asks d w) = []"
proof (cases "book_len (book_of w) < refill_at d")
  case True
  then show ?thesis using fresh_asks [OF assms(1)] by (simp add: refill_asks_def clear_fills_def)
next
  case False
  have "0 < refill_at d" by (rule order_less_le_trans [of _ 10]) (simp_all add: refill_at_def)
  with False have "locs (book_of w) \<noteq> []" by (auto simp: book_len_def)
  with assms(2) False show ?thesis
    using locs_quotes [of "book_of w"] by (auto simp: refill_asks_def clear_fills_def asks_only_def)
qed

lemma lots_trade:
  assumes "0 < d" and wl: "wl = \<lparr>wl_init = bench_start (fresh_book_asks d), wl_before = refill_asks d,
      wl_timed = timed_add ord, wl_after = next_id, wl_rounds = n\<rparr>"
    and "\<And>i. o_side (ord i) = Buy" "\<And>i. o_qty (ord i) = 1" "\<And>i p. p \<le> MID + SPREAD + 200 \<Longrightarrow> acceptable (ord i) p"
  shows "measures wl one_lot"
proof (rule measuresI [where I = "\<lambda>k w. asks_only (MID + SPREAD + 200) (book_of w) \<and> ask_quotes (book_of w) \<noteq> [] \<and> fills_of w = []"])
  show "asks_only (MID + SPREAD + 200) (book_of (wl_before wl (wl_init wl))) \<and>
    ask_quotes (book_of (wl_before wl (wl_init wl))) \<noteq> [] \<and> fills_of (wl_before wl (wl_init wl)) = []"
    using refill_asks_ready [OF assms(1)] fresh_asks [OF assms(1)] by (simp add: wl bench_start_def)
  fix k w
  assume w: "asks_only (MID + SPREAD + 200) (book_of w) \<and> ask_quotes (book_of w) \<noteq> [] \<and> fills_of w = []"
  obtain b fs where a: "add_order (ord (fb_next_id (bn_fb w))) [] (book_of w) = (b, fs)" by fastforce
  note t = lot_trades [where hi = "MID + SPREAD + 200", OF _ _ assms(3,4,5) a]
  let ?w' = "w\<lparr>bn_fb := (bn_fb w)\<lparr>fb_book := b, fb_fills := fs\<rparr>\<rparr>"
  have "wl_timed wl w = Some ?w'" using w a by (simp add: wl timed_add_def)
  moreover have "one_lot w ?w'" using t w by (simp add: one_lot_def)
  moreover have "asks_only (MID + SPREAD + 200) (book_of (next_id ?w'))" using t w by (simp add: next_id_def)
  ultimately show "\<exists>w'. wl_timed wl w = Some w' \<and> one_lot w w' \<and>
    asks_only (MID + SPREAD + 200) (book_of (wl_before wl (wl_after wl w'))) \<and>
    ask_quotes (book_of (wl_before wl (wl_after wl w'))) \<noteq> [] \<and> fills_of (wl_before wl (wl_after wl w')) = []"
    using refill_asks_ready [OF assms(1)] by (simp add: wl)
qed

lemma aggressive_fill_trades: "0 < d \<Longrightarrow> measures (aggressive_fill d) one_lot"
  by (rule lots_trade [OF _ aggressive_fill_def]) (simp_all add: acceptable_def)

lemma market_order_trades: "0 < d \<Longrightarrow> measures (market_order_bench d) one_lot"
  by (rule lots_trade [OF _ market_order_bench_def]) (simp_all add: acceptable_def)

text \<open>A sweep takes every order of the book and leaves it empty.\<close>

definition sweeps :: "nat \<Rightarrow> u64 \<Rightarrow> bench_state \<Rightarrow> bench_state \<Rightarrow> bool" where
  "sweeps n qty w w' =
     (length (fills_of w') = n \<and> (\<forall>f \<in> set (fills_of w'). f_qty f = qty) \<and> is_empty (book_of w'))"

lemma volume_const: "\<forall>x \<in> set xs. snd (snd x) = q \<Longrightarrow> volume xs = length xs * unat q"
  by (induction xs) auto

lemma sweep_all:
  assumes "book_inv b" "bid_quotes b = []" "\<forall>x \<in> set (ask_quotes b). snd (snd x) = qty \<and> acceptable ord (fst x)"
    and "qty \<noteq> 0" "o_side ord = Buy" "unat (o_qty ord) = length (ask_quotes b) * unat qty"
    and add: "add_order ord [] b = (b', fs)"
  shows "length fs = length (ask_quotes b) \<and> (\<forall>f \<in> set fs. f_qty f = qty) \<and> is_empty b'"
proof -
  have v: "volume (ask_quotes b) = unat (o_qty ord)" using volume_const assms(3,6) by metis
  have "\<forall>x \<in> set (ask_quotes b). acceptable ord (fst x) \<and> snd (snd x) \<noteq> 0" using assms(3,4) by simp
  from trade_all [OF this] v obtain r where
    t: "trade (acceptable ord) (o_qty ord) (ask_quotes b) = (r, [], ask_quotes b)" and "unat r = 0" by fastforce
  then have "r = 0" by (simp add: unat_eq_zero)
  with t have "spec_add ord (abs_of b) = (([], []), map (mk_fill ord) (ask_quotes b))"
    using assms(2,5) by (cases "abs_of b") simp
  with ob.add_refines [OF assms(1) add] have q: "abs_of b' = ([], [])" "fs = map (mk_fill ord) (ask_quotes b)" by auto
  have "book_inv b'" using ob.inv_add [OF assms(1), of ord "[]"] add by simp
  from locs_quotes [OF this] q(1) have "is_empty b'" by (auto simp: is_empty_def)
  moreover have "\<forall>f \<in> set fs. f_qty f = qty" using assms(3) by (auto simp: q(2) mk_fill_def)
  ultimately show ?thesis by (simp add: q(2))
qed

lemma sweep_measures:
  assumes wl: "wl_timed wl = timed_add ord"
    and ready: "\<And>w. book_inv (book_of (wl_before wl w)) \<and> bid_quotes (book_of (wl_before wl w)) = [] \<and>
      length (ask_quotes (book_of (wl_before wl w))) = n \<and> fills_of (wl_before wl w) = [] \<and>
      (\<forall>x \<in> set (ask_quotes (book_of (wl_before wl w))). snd (snd x) = qty \<and> fst x \<le> hi)"
    and ord: "qty \<noteq> 0" "\<And>i. o_side (ord i) = Buy" "\<And>i. unat (o_qty (ord i)) = n * unat qty"
      "\<And>i p. p \<le> hi \<Longrightarrow> acceptable (ord i) p"
  shows "measures wl (sweeps n qty)"
proof (rule measuresI [where I = "\<lambda>k w. \<exists>w0. w = wl_before wl w0"])
  fix k w assume "\<exists>w0. w = wl_before wl w0"
  then have w: "book_inv (book_of w)" "bid_quotes (book_of w) = []" "length (ask_quotes (book_of w)) = n"
    "fills_of w = []" "\<forall>x \<in> set (ask_quotes (book_of w)). snd (snd x) = qty \<and> fst x \<le> hi" using ready by auto
  obtain b fs where a: "add_order (ord (fb_next_id (bn_fb w))) [] (book_of w) = (b, fs)" by fastforce
  have "length fs = n \<and> (\<forall>f \<in> set fs. f_qty f = qty) \<and> is_empty b"
    using sweep_all [OF w(1,2) _ ord(1) ord(2) _ a] w(3,5) ord(3,4) by simp
  then show "\<exists>w'. wl_timed wl w = Some w' \<and> sweeps n qty w w' \<and> (\<exists>w0. wl_before wl (wl_after wl w') = wl_before wl w0)"
    using a w(4) by (auto simp: wl timed_add_def sweeps_def)
qed auto

lemma multi_level_sweeps:
  assumes "l < 2 ^ 60"
  shows "measures (multi_level_sweep l) (sweeps (unat l) 10)"
proof (rule sweep_measures [where hi = "MID + l" and ord = "\<lambda>oid. limit_order oid Buy (MID + l) (l * 10)"])
  have l: "unat l < 2 ^ 60" using assms by (simp add: word_less_nat_alt)
  have p: "0 < MID + 1 + of_nat i \<and> MID + 1 + of_nat i \<le> MID + l" if "i < unat l" for i
  proof -
    have "unat (of_nat i :: u64) = i" using that l by (simp add: unat_of_nat)
    then show ?thesis using that l
      by (simp add: MID_def word_less_nat_alt word_le_nat_alt unat_word_ariths)
  qed
  show "unat (o_qty (limit_order i Buy (MID + l) (l * 10))) = unat l * unat (10 :: u64)" for i
    using l by (simp add: unat_word_ariths)
  fix w :: bench_state
  let ?fb = "fold (\<lambda>i. seed_order Sell (MID + 1 + of_nat i) 10) [0..<unat l] (new_book (fb_next_id (bn_fb w)))"
  have "book_inv (fb_book ?fb) \<and> bid_quotes (fb_book ?fb) = [] \<and> length (ask_quotes (fb_book ?fb)) = unat l \<and>
    (\<forall>q \<in> set (ask_quotes (fb_book ?fb)). snd (snd q) = 10 \<and> fst q \<in> (\<lambda>i. MID + 1 + of_nat i) ` {..<unat l})"
    by (rule seed_fold_asks) (use p in auto)
  moreover have "book_of (wl_before (multi_level_sweep l) w) = fb_book ?fb \<and> fills_of (wl_before (multi_level_sweep l) w) = []"
    by (simp add: multi_level_sweep_def ladder_def clear_fills_def)
  ultimately show "book_inv (book_of (wl_before (multi_level_sweep l) w)) \<and>
      bid_quotes (book_of (wl_before (multi_level_sweep l) w)) = [] \<and>
      length (ask_quotes (book_of (wl_before (multi_level_sweep l) w))) = unat l \<and>
      fills_of (wl_before (multi_level_sweep l) w) = [] \<and>
      (\<forall>x \<in> set (ask_quotes (book_of (wl_before (multi_level_sweep l) w))). snd (snd x) = 10 \<and> fst x \<le> MID + l)"
    using p by auto
qed (simp_all add: multi_level_sweep_def acceptable_def)

lemma hot_level_asks:
  assumes "qty \<noteq> 0"
  shows "book_inv (fb_book (hot_level qty n f)) \<and> bid_quotes (fb_book (hot_level qty n f)) = [] \<and>
    length (ask_quotes (fb_book (hot_level qty n f))) = unat n \<and>
    (\<forall>q \<in> set (ask_quotes (fb_book (hot_level qty n f))). snd (snd q) = qty \<and> fst q = MID + SPREAD)"
proof -
  have "0 < MID + SPREAD" by (simp add: MID_def SPREAD_def)
  with seed_fold_asks [OF assms, of "unat n" "\<lambda>_. MID + SPREAD" f] show ?thesis by (auto simp: hot_level_def)
qed

lemma drain_sweeps: "measures (drain_single_level n) (sweeps (unat n) 1)"
proof (rule sweep_measures [where hi = "MID + SPREAD" and ord = "\<lambda>oid. limit_order oid Buy (MID + SPREAD) n"])
  fix w
  have "(1 :: u64) \<noteq> 0" by simp
  from hot_level_asks [OF this, of n "fb_next_id (bn_fb w)"]
  show "book_inv (book_of (wl_before (drain_single_level n) w)) \<and>
      bid_quotes (book_of (wl_before (drain_single_level n) w)) = [] \<and>
      length (ask_quotes (book_of (wl_before (drain_single_level n) w))) = unat n \<and>
      fills_of (wl_before (drain_single_level n) w) = [] \<and>
      (\<forall>x \<in> set (ask_quotes (book_of (wl_before (drain_single_level n) w))). snd (snd x) = 1 \<and> fst x \<le> MID + SPREAD)"
    by (auto simp: drain_single_level_def clear_fills_def)
qed (simp_all add: drain_single_level_def acceptable_def)

section \<open>Cancellations\<close>

text \<open>The orders \<open>c\<close> to \<open>m - 1\<close> rest, \<open>c\<close> is the next to cancel, \<open>m\<close> the next identifier.\<close>

definition cancel_ready :: "nat \<Rightarrow> nat \<Rightarrow> bench_state \<Rightarrow> bool" where
  "cancel_ready c m w =
     (book_inv (book_of w) \<and> indexed (book_of w) \<and> book_ids (abs_of (book_of w)) = of_nat ` {c..<m} \<and>
      bn_cancel_id w = of_nat c \<and> fb_next_id (bn_fb w) = of_nat m \<and> c < m \<and> m < 2 ^ 64)"

definition cancels :: "bench_state \<Rightarrow> bench_state \<Rightarrow> bool" where
  "cancels w w' = (\<exists>b. cancel (bn_cancel_id w) (book_of w) = Some (b, True) \<and> book_of w' = b)"

lemma cancel_hits:
  assumes "book_inv b" "indexed b" "oid \<in> book_ids (abs_of b)"
  shows "\<exists>b'. cancel oid b = Some (b', True) \<and> book_inv b' \<and> indexed b' \<and>
    book_ids (abs_of b') = book_ids (abs_of b) - {oid}"
proof -
  obtain b' res where c: "cancel oid b = Some (b', res)" "book_inv b'" using ob.inv_can [OF assms(1)] by blast
  have "spec_cancel oid (abs_of b) = (abs_of b', res)" by (rule ob.can_refines [OF assms(1,2) c(1)])
  moreover from this have "res" using assms(3) by (cases "abs_of b") auto
  ultimately show ?thesis
    using c ob.exact_can [OF assms(1,2) c(1)] book_ids_spec_cancel [of oid "abs_of b"] by simp
qed

lemma of_nat_less64: "m < 2 ^ 64 \<Longrightarrow> n < 2 ^ 64 \<Longrightarrow> (of_nat m :: u64) \<le> of_nat n \<longleftrightarrow> m \<le> n"
  by (simp add: word_le_nat_alt unat_of_nat)

lemma ids_rest:
  assumes "m < 2 ^ 64" "c < m"
  shows "(of_nat ` {c..<m} :: u64 set) - {of_nat c} = of_nat ` {Suc c..<m}"
proof -
  have "inj_on (of_nat :: nat \<Rightarrow> u64) {c..<m}"
  proof (rule inj_onI)
    fix i j assume "i \<in> {c..<m}" "j \<in> {c..<m}" "(of_nat i :: u64) = of_nat j"
    then show "i = j" using assms(1) of_nat_less64 [of i j] of_nat_less64 [of j i] by simp
  qed
  then have "(of_nat ` {c..<m} :: u64 set) - of_nat ` {c} = of_nat ` ({c..<m} - {c})"
    using assms(2) by (intro inj_on_image_set_diff [symmetric]) auto
  moreover have "{c..<m} - {c} = {Suc c..<m}" by auto
  ultimately show ?thesis by simp
qed

lemma cancels_measured:
  assumes wl: "wl_timed wl = timed_cancel" "wl_after wl = next_cancel"
    "wl_before wl = (\<lambda>w. if bn_cancel_id w \<ge> fb_next_id (bn_fb w) then reseed w else w)"
    and init: "\<exists>c m. K 0 c m \<and> cancel_ready c m (wl_init wl)"
    and more: "\<And>k c m. K k c m \<Longrightarrow> Suc c < m \<Longrightarrow> K (Suc k) (Suc c) m"
    and again: "\<And>k c m w. k < WARMUP + wl_rounds wl \<Longrightarrow> K k c m \<Longrightarrow> Suc c = m \<Longrightarrow> fb_next_id (bn_fb w) = of_nat m \<Longrightarrow>
      \<exists>c' m'. K (Suc k) c' m' \<and> cancel_ready c' m' (reseed w)"
  shows "measures wl cancels"
proof (rule measuresI [where I = "\<lambda>k w. \<exists>c m. K k c m \<and> cancel_ready c m w"])
  have "\<not> fb_next_id (bn_fb w) \<le> bn_cancel_id w" if "cancel_ready c m w" for c m w
    using that of_nat_less64 [of m c] by (simp add: cancel_ready_def)
  with init show "\<exists>c m. K 0 c m \<and> cancel_ready c m (wl_before wl (wl_init wl))" by (auto simp: wl)
  fix k w
  assume k: "k < WARMUP + wl_rounds wl" and "\<exists>c m. K k c m \<and> cancel_ready c m w"
  then obtain c m where K: "K k c m" and w: "cancel_ready c m w" by blast
  note w' = w [unfolded cancel_ready_def]
  have "bn_cancel_id w \<in> book_ids (abs_of (book_of w))" using w' by auto
  with cancel_hits w' obtain b where b: "cancel (bn_cancel_id w) (book_of w) = Some (b, True)" "book_inv b" "indexed b"
    "book_ids (abs_of b) = book_ids (abs_of (book_of w)) - {bn_cancel_id w}" by metis
  let ?w1 = "w\<lparr>bn_fb := (bn_fb w)\<lparr>fb_book := b\<rparr>\<rparr>"
  have t: "wl_timed wl w = Some ?w1" "cancels w ?w1" using b by (simp_all add: wl timed_cancel_def cancels_def)
  have ids: "book_ids (abs_of b) = of_nat ` {Suc c..<m}" using b(4) w' ids_rest [of m c] by simp
  have "\<exists>c m. K (Suc k) c m \<and> cancel_ready c m (wl_before wl (next_cancel ?w1))"
  proof (cases "Suc c < m")
    case True
    then have "cancel_ready (Suc c) m (next_cancel ?w1)"
      using b ids w' by (simp add: cancel_ready_def next_cancel_def add.commute)
    moreover from this have "wl_before wl (next_cancel ?w1) = next_cancel ?w1"
      using of_nat_less64 [of m "Suc c"] True by (simp add: wl cancel_ready_def del: of_nat_Suc)
    ultimately show ?thesis using more [OF K True] by auto
  next
    case False
    then have m: "Suc c = m" using w' by simp
    have "bn_cancel_id (next_cancel ?w1) = of_nat m" using w' by (simp add: next_cancel_def m [symmetric])
    moreover have n: "fb_next_id (bn_fb (next_cancel ?w1)) = of_nat m" using w' by (simp add: next_cancel_def)
    ultimately show ?thesis using again [OF k K m n] by (simp add: wl)
  qed
  then show "\<exists>w'. wl_timed wl w = Some w' \<and> cancels w w' \<and>
      (\<exists>c m. K (Suc k) c m \<and> cancel_ready c m (wl_before wl (wl_after wl w')))"
    using t by (auto simp: wl)
qed

lemma cancel_bench_cancels:
  assumes "0 < d" "d < 2 ^ 63"
  shows "measures (cancel_bench d) cancels"
proof -
  have d: "0 < unat d" "unat d < 2 ^ 63" using assms by (simp_all add: word_less_nat_alt)
  define reseed where "reseed = (\<lambda>w :: bench_state. let fb = fresh_book_both d in w\<lparr>bn_fb := fb, bn_cancel_id := fb_next_id fb - d\<rparr>)"
  have re: "cancel_ready 1 (unat d + 1) (reseed w)" for w
    using fresh_both [of d] d by (simp add: cancel_ready_def reseed_def Let_def rests_def add.commute)
  show ?thesis
  proof (rule cancels_measured [where reseed = reseed and K = "\<lambda>k c m. m = unat d + 1"])
    show "\<exists>c m. m = unat d + 1 \<and> cancel_ready c m (wl_init (cancel_bench d))"
      using re [of "bench_start (new_book 1)"] by (auto simp: cancel_bench_def Let_def reseed_def)
    show "\<exists>c' m'. m' = unat d + 1 \<and> cancel_ready c' m' (reseed w)" for w using re by blast
  qed (auto simp: cancel_bench_def Let_def reseed_def)
qed

lemma hot_level_ids:
  assumes "f + unat n < 2 ^ 64"
  shows "book_inv (fb_book (hot_level 10 n (of_nat f))) \<and> indexed (fb_book (hot_level 10 n (of_nat f))) \<and>
    fb_next_id (hot_level 10 n (of_nat f)) = of_nat (f + unat n) \<and>
    book_ids (abs_of (fb_book (hot_level 10 n (of_nat f)))) = of_nat ` {f..<f + unat n}"
proof -
  have "f + unat n \<le> 2 ^ 64" "(10 :: u64) \<noteq> 0" using assms by simp_all
  from seed_fold_ids [where sd = "\<lambda>_. Sell" and p = "\<lambda>_. MID + SPREAD", OF spread_open this(2) _ this(1)]
  show ?thesis by (simp add: hot_level_def rests_def)
qed

lemma cancel_hot_level_cancels:
  assumes "0 < n" "n < 2 ^ 63"
  shows "measures (cancel_hot_level n) cancels"
proof -
  have n: "0 < unat n" "unat n < 2 ^ 63" using assms by (simp_all add: word_less_nat_alt)
  define reseed where "reseed = (\<lambda>w :: bench_state. let first = fb_next_id (bn_fb w) in
    w\<lparr>bn_fb := hot_level 10 n first, bn_cancel_id := first\<rparr>)"
  have re: "cancel_ready f (f + unat n) (reseed w)" if "fb_next_id (bn_fb w) = of_nat f" "f + unat n < 2 ^ 64" for f w
    using hot_level_ids [OF that(2)] that n by (simp add: cancel_ready_def reseed_def Let_def)
  have bound: "k < WARMUP + wl_rounds (cancel_hot_level n) \<Longrightarrow> k + unat n + 2 < 2 ^ 64" for k
    using n by (simp add: cancel_hot_level_def Let_def WARMUP_def ITERS_def)
  show ?thesis
  proof (rule cancels_measured [where reseed = reseed and K = "\<lambda>k c m. c = 1 + k \<and> m \<le> 1 + k + unat n"])
    have "cancel_ready 1 (1 + unat n) (reseed (bench_start (new_book 1)))"
      using n by (intro re) (simp_all add: bench_start_def)
    then show "\<exists>c m. (c = 1 + 0 \<and> m \<le> 1 + 0 + unat n) \<and> cancel_ready c m (wl_init (cancel_hot_level n))"
      by (auto simp: cancel_hot_level_def Let_def reseed_def)
    fix k c m w
    assume "k < WARMUP + wl_rounds (cancel_hot_level n)" "c = 1 + k \<and> m \<le> 1 + k + unat n" "Suc c = m"
      "fb_next_id (bn_fb (w :: bench_state)) = of_nat m"
    with re [of w m] bound [of k]
    show "\<exists>c' m'. (c' = 1 + Suc k \<and> m' \<le> 1 + Suc k + unat n) \<and> cancel_ready c' m' (reseed w)" by auto
  qed (auto simp: cancel_hot_level_def Let_def reseed_def)
qed

section \<open>The mixed workload\<close>

text \<open>
  The book stays well formed, the ring of identifiers keeps within its capacity, and the slot read or
  written lies inside the ring.
\<close>

definition mixed_ok :: "u64 \<Rightarrow> bench_state \<Rightarrow> bool" where
  "mixed_ok d w = (book_inv (book_of w) \<and> length (bn_ring w) \<le> unat (ring_cap d))"

lemma ring_slot:
  assumes "bn_ring w \<noteq> []" "length (bn_ring w) \<le> unat (ring_cap d)"
  shows "unat (bn_ring_idx w mod of_nat (length (bn_ring w))) < length (bn_ring w)"
proof -
  have "unat (of_nat (length (bn_ring w)) :: u64) = length (bn_ring w)"
    using assms(2) unat_below64 [of "ring_cap d"] by (simp add: unat_of_nat)
  then show ?thesis using assms(1) by (simp add: unat_mod)
qed

lemma ring_cap_depth: "unat d \<le> unat (ring_cap d)" "0 < ring_cap d"
  by (simp_all add: ring_cap_def max_def word_le_nat_alt word_less_nat_alt)

lemma ring_put_slot:
  assumes "length (bn_ring w) \<le> unat (ring_cap d)" "\<not> of_nat (length (bn_ring w)) < ring_cap d"
  shows "unat (bn_ring_idx w mod ring_cap d) < length (bn_ring w)"
proof -
  have "unat (of_nat (length (bn_ring w)) :: u64) = length (bn_ring w)"
    using assms(1) unat_below64 [of "ring_cap d"] by (simp add: unat_of_nat)
  then have "length (bn_ring w) = unat (ring_cap d)" using assms by (simp add: word_less_nat_alt)
  then show ?thesis using word_mod_less_divisor [OF ring_cap_depth(2), of "bn_ring_idx w" d] by (simp add: word_less_nat_alt)
qed

lemma mixed_put:
  assumes "mixed_ok d w"
  shows "mixed_ok d (ring_put (ring_cap d) i w)"
proof (cases "of_nat (length (bn_ring w)) < ring_cap d")
  case True
  have "unat (of_nat (length (bn_ring w)) :: u64) = length (bn_ring w)"
    using assms unat_below64 [of "ring_cap d"] by (simp add: mixed_ok_def unat_of_nat)
  with True assms show ?thesis by (simp add: mixed_ok_def ring_put_def word_less_nat_alt)
qed (use assms in \<open>simp add: mixed_ok_def ring_put_def\<close>)

lemma mixed_add:
  assumes "mixed_ok d w"
  shows "\<exists>w'. timed_add ord w = Some w' \<and> mixed_ok d w'"
proof -
  obtain b fs where a: "add_order (ord (fb_next_id (bn_fb w))) (fills_of w) (book_of w) = (b, fs)" by fastforce
  then have "book_inv b" using ob.inv_add [of "book_of w" "ord (fb_next_id (bn_fb w))" "fills_of w"] assms
    by (simp add: mixed_ok_def)
  then show ?thesis using a assms by (simp add: timed_add_def mixed_ok_def)
qed

lemma mixed_cancel_ok:
  assumes "mixed_ok d w"
  shows "\<exists>w'. mixed_cancel w = Some w' \<and> mixed_ok d w'"
proof -
  have "\<exists>b res. cancel i (book_of w) = Some (b, res) \<and> book_inv b" for i
    using ob.inv_can [of "book_of w"] assms by (simp add: mixed_ok_def)
  then obtain b res where
    "cancel (bn_ring w ! unat (bn_ring_idx w mod of_nat (length (bn_ring w)))) (book_of w) = Some (b, res)" "book_inv b"
    by blast
  with assms show ?thesis by (simp add: mixed_cancel_def timed_cancel_def mixed_ok_def)
qed

lemma mixed_seed: "mixed_ok d (seed_mixed d)"
  using fresh_both [of d] ring_cap_depth(1) [of d]
  by (simp add: mixed_ok_def seed_mixed_def bench_start_def rests_def del: of_nat_Suc upt_Suc)

lemma mixed_workload_safe: "measures (mixed_workload d) (\<lambda>w w'. mixed_ok d w \<and> mixed_ok d w')"
proof (rule measuresI [where I = "\<lambda>k. mixed_ok d"])
  show "mixed_ok d (wl_before (mixed_workload d) (wl_init (mixed_workload d)))"
    using mixed_seed by (simp add: mixed_workload_def)
  fix k :: nat and w
  assume w: "mixed_ok d w"
  then have c: "mixed_ok d (clear_fills w)" by (simp add: mixed_ok_def clear_fills_def)
  have "\<exists>w'. mixed_step d w = Some w' \<and> mixed_ok d w'"
    using mixed_cancel_ok [OF w] mixed_add [OF c] mixed_put
    by (simp add: mixed_step_def Let_def) (metis option.simps(9))
  then obtain w' where w': "mixed_step d w = Some w'" "mixed_ok d w'" by blast
  then have "mixed_ok d (next_id w')" by (simp add: mixed_ok_def next_id_def)
  then have "mixed_ok d (wl_before (mixed_workload d) (next_id w'))" using mixed_seed by (simp add: mixed_workload_def)
  with w w' show "\<exists>w'. wl_timed (mixed_workload d) w = Some w' \<and> (mixed_ok d w \<and> mixed_ok d w') \<and>
      mixed_ok d (wl_before (mixed_workload d) (wl_after (mixed_workload d) w'))"
    by (simp add: mixed_workload_def)
qed

section \<open>Every workload\<close>

text \<open>
  C40. The benchmark times what its scenarios are named after. Whatever the depth, in every iteration
  the passive insert adds one resting order and trades nothing, and the mixed workload keeps the book
  well formed and its ring of identifiers within bounds. With a depth, a number of levels and a number
  of orders as the harness uses them, in every iteration the aggressive fill and the market order
  trade exactly one lot against the best ask, the sweep takes every level and the drain every order
  and each leaves the book empty, and both cancellations remove an order that is resting.
\<close>

theorem bench_times_named_operation:
  assumes "0 < d" "d < 2 ^ 63" "l < 2 ^ 60" "0 < n" "n < 2 ^ 63"
  shows "measures (passive_insert e) (\<lambda>w w'. fills_of w' = [] \<and>
      length (bid_quotes (book_of w')) + length (ask_quotes (book_of w')) =
        Suc (length (bid_quotes (book_of w)) + length (ask_quotes (book_of w)))) \<and>
    measures (mixed_workload e) (\<lambda>w w'. mixed_ok e w \<and> mixed_ok e w') \<and>
    measures (aggressive_fill d) one_lot \<and> measures (market_order_bench d) one_lot \<and>
    measures (multi_level_sweep l) (sweeps (unat l) 10) \<and>
    measures (drain_single_level n) (sweeps (unat n) 1) \<and>
    measures (cancel_bench d) cancels \<and> measures (cancel_hot_level n) cancels"
  using passive_insert_rests mixed_workload_safe aggressive_fill_trades [OF assms(1)] market_order_trades [OF assms(1)]
    multi_level_sweeps [OF assms(3)] drain_sweeps cancel_bench_cancels [OF assms(1,2)] cancel_hot_level_cancels [OF assms(4,5)]
  by (intro conjI)

text \<open>At the first depth, number of levels and number of orders of the harness.\<close>

lemma bench_times_named_operation_witness:
  "measures (aggressive_fill 100) one_lot \<and> measures (multi_level_sweep 5) (sweeps 5 10) \<and>
   measures (drain_single_level 10) (sweeps 10 1) \<and> measures (cancel_bench 100) cancels \<and>
   measures (cancel_hot_level 10) cancels"
proof -
  have "(0 :: u64) < 100" "(100 :: u64) < 2 ^ 63" "(5 :: u64) < 2 ^ 60" "(0 :: u64) < 10" "(10 :: u64) < 2 ^ 63"
    by (simp_all add: word_less_nat_alt)
  from bench_times_named_operation [OF this] show ?thesis by simp
qed

end
