(* ===== verification/Bench_Run.thy ===== *)
theory Bench_Run
  imports Bench_Main Bench_Properties Stats_Properties
begin

text \<open>
  The run of the benchmark as a whole: the figures of its rows are in order, every scenario runs to its
  end with one value per timed iteration, and what becomes of the options on the command line.
\<close>

section \<open>Figures\<close>

text \<open>Without its commas, a formatted number is the decimal number.\<close>

lemma commas_digits:
  "\<forall>c \<in> set cs. is_digit c \<Longrightarrow>
   filter (\<lambda>c. c \<noteq> CHR '','') (commas k cs res) = rev cs @ filter (\<lambda>c. c \<noteq> CHR '','') res"
proof (induction k cs res rule: commas.induct)
  case (2 k c cs res)
  then have "c \<noteq> CHR '',''" by (auto simp: is_digit_def digit_value_def)
  then show ?case using 2 by (cases "0 < k \<and> k mod 3 = 0") auto
qed simp

lemma fmt_ns_digits: "filter (\<lambda>c. c \<noteq> CHR '','') (fmt_ns n) = dec_nat (unat n)"
  by (simp add: fmt_ns_def commas_digits)

lemma fmt_ns_inj: "fmt_ns m = fmt_ns n \<Longrightarrow> m = n"
  using fmt_ns_digits [of m] fmt_ns_digits [of n] by (simp add: word_unat_eq_iff)

text \<open>The percentiles are those of a sorted list of values.\<close>

lemma hg_percentile_sorted:
  assumes "hg_values h \<noteq> []" "\<not> hg_sorted h" "length (hg_values h) \<le> 2 ^ 53"
    and p: "percentile (fdiv p (Fin False 100)) (sort (hg_values h)) = Some a"
  shows "hg_percentile p h = Some a"
proof -
  let ?n = "length (hg_values h)"
  obtain i where i: "dbl_to_u64 (fmul (fdiv p (Fin False 100)) (dbl_of_u64 (of_nat ?n - 1))) = Some i"
    "unat i < ?n" "a = sort (hg_values h) ! unat i"
    using p by (auto simp: percentile_def split: option.splits if_splits)
  have "unat (of_nat ?n - 1 :: u64) = ?n - 1"
    using assms(1,3) by (cases "hg_values h") (simp_all add: unat_of_nat)
  then have "i \<le> of_nat ?n - 1" using i(2) by (simp add: word_le_nat_alt)
  then have "min i (of_nat ?n - 1) = i" by (simp add: min_def)
  moreover have "hg_values (ensure_sorted h) = sort (hg_values h)" using assms(2) by (simp add: ensure_sorted_def)
  moreover have "sort (hg_values h) \<noteq> []" using assms(1) by (metis set_empty set_sort)
  ultimately show ?thesis using i by (simp add: hg_percentile_def Let_def)
qed

lemma pct_fin:
  assumes "0 \<le> q" "q \<le> 100"
  shows "fdiv (pct q) (Fin False 100) = Fin False (rnd (rnd q / 100))" "0 \<le> rnd (rnd q / 100)" "rnd (rnd q / 100) \<le> 1"
proof -
  have h: "rnd 100 = 100" using rnd_exact [OF representable_int [of 100]] by simp
  have r: "0 \<le> rnd q" "rnd q \<le> 100" using rnd_nonneg [OF assms(1)] rnd_mono [OF assms] h by simp_all
  have "rnd q < max_finite_bound" using r(2) max_finite_bound_ge by simp
  then have "pct q = Fin False (rnd q)" using assms(1) by (simp add: pct_def of_rat_double_def mk_double_alt)
  moreover have "0 \<le> rnd q / 100" "rnd q / 100 \<le> 1" using r by simp_all
  ultimately show "fdiv (pct q) (Fin False 100) = Fin False (rnd (rnd q / 100))"
    "0 \<le> rnd (rnd q / 100)" "rnd (rnd q / 100) \<le> 1"
    using quantile_fin by simp_all
qed

lemma pct_order:
  assumes "hg_values h \<noteq> []" "\<not> hg_sorted h" "length (hg_values h) \<le> 2 ^ 53" "0 \<le> p" "p \<le> q" "q \<le> 100"
  obtains a b where "hg_percentile (pct p) h = Some a" "hg_percentile (pct q) h = Some b" "a \<le> b"
    "min_val h \<le> a" "b \<le> max_val h" "a \<in> set (hg_values h)" "b \<in> set (hg_values h)"
proof -
  let ?s = "sort (hg_values h)"
  have s: "sorted ?s" "?s \<noteq> []" "length ?s \<le> 2 ^ 53" using assms(1,3) by (auto simp flip: set_empty)
  have q: "q \<ge> 0" "p \<le> 100" using assms(4-6) by simp_all
  have "rnd (rnd p / 100) \<le> rnd (rnd q / 100)"
    using assms(4,5) by (intro rnd_mono divide_nonneg_nonneg divide_right_mono rnd_nonneg) simp_all
  then obtain a b where p: "percentile (Fin False (rnd (rnd p / 100))) ?s = Some a"
    "percentile (Fin False (rnd (rnd q / 100))) ?s = Some b" "a \<le> b" "hd ?s \<le> a" "b \<le> last ?s" "a \<in> set ?s" "b \<in> set ?s"
    using percentile_mono [OF s] pct_fin [OF assms(4) q(2)] pct_fin [OF q(1) assms(6)] by metis
  have "hg_percentile (pct p) h = Some a" "hg_percentile (pct q) h = Some b"
    using p(1,2) pct_fin(1) [OF assms(4) q(2)] pct_fin(1) [OF q(1) assms(6)]
    by (simp_all add: hg_percentile_sorted [OF assms(1-3)])
  moreover have "min_val h = hd ?s" "max_val h = last ?s"
    using s(2) assms(2) by (simp_all add: min_val_def max_val_def ensure_sorted_def Let_def)
  ultimately show ?thesis using p that by simp
qed

lemma row_in_order:
  assumes "hg_values h \<noteq> []" "\<not> hg_sorted h" "length (hg_values h) \<le> 2 ^ 53"
  shows "\<exists>a b c d. row_line label h =
      Some (into_buf 256 (''  '' @ pad_right 22 label @ table_columns (map fmt_ns [a, b, c, d, min_val h, max_val h]))) \<and>
    sorted [min_val h, a, b, c, d, max_val h] \<and> {a, b, c, d} \<subseteq> set (hg_values h)"
proof -
  obtain a b where 1: "hg_percentile (pct 50) h = Some a" "hg_percentile (pct 99) h = Some b" "a \<le> b"
    "min_val h \<le> a" "a \<in> set (hg_values h)" "b \<in> set (hg_values h)"
    by (rule pct_order [OF assms, of 50 99]) auto
  obtain c d where 2: "hg_percentile (pct (999 / 10)) h = Some c" "hg_percentile (pct (9999 / 100)) h = Some d" "c \<le> d"
    "d \<le> max_val h" "c \<in> set (hg_values h)" "d \<in> set (hg_values h)"
    by (rule pct_order [OF assms, of "999 / 10" "9999 / 100"]) auto
  have "b \<le> c" by (rule pct_order [OF assms, of 99 "999 / 10"]) (use 1 2 in auto)
  then show ?thesis using 1 2
    by (intro exI [of _ a] exI [of _ b] exI [of _ c] exI [of _ d]) (auto simp: row_line_def)
qed

section \<open>Runs that end\<close>

text \<open>A histogram whose percentiles are defined: not sorted yet, or empty.\<close>

definition hist_ok :: "nat \<Rightarrow> histogram \<Rightarrow> bool" where
  "hist_ok n h = (\<not> hg_sorted h \<and> length (hg_values h) = n)"

lemma pct_defined:
  assumes "hist_ok n h" "n \<le> 2 ^ 53" "0 \<le> q" "q \<le> 100"
  shows "hg_percentile (pct q) h \<noteq> None"
proof (cases "hg_values h = []")
  case True
  then show ?thesis by (simp add: hg_percentile_def ensure_sorted_def)
next
  case False
  then obtain a b where "hg_percentile (pct q) h = Some a"
    by (rule pct_order [of h q q]) (use assms in \<open>auto simp: hist_ok_def\<close>)
  then show ?thesis by simp
qed

lemma bench_loop_unsorted: "bench_loop v clock wl is w h = Some h' \<Longrightarrow> \<not> hg_sorted h \<Longrightarrow> \<not> hg_sorted h'"
proof (induction "is" arbitrary: w h)
  case (Cons i "is")
  then obtain w' h1 where "bench_loop v clock wl is (wl_after wl w') h1 = Some h'" "h1 = h \<or> (\<exists>ns. h1 = hg_record ns h)"
    by (cases "clock i") (auto split: option.splits if_splits)
  with Cons.IH [of "wl_after wl w'" h1] Cons.prems(2) show ?case by (auto simp: hg_record_def)
qed simp

lemma measures_histogram:
  assumes "measures wl P" "\<And>i. ticks_to_ns v (snd (clock i) - fst (clock i)) \<noteq> None"
  shows "\<exists>h. run_bench v clock wl = Some h \<and> hist_ok (wl_rounds wl) h"
proof -
  from measures_records [OF assms(1), of v clock] assms(2) obtain h where h: "run_bench v clock wl = Some h" "length (hg_values h) = wl_rounds wl"
    by blast
  with bench_loop_unsorted [of v clock wl _ _ empty_histogram h] show ?thesis
    by (auto simp: run_bench_def empty_histogram_def hist_ok_def)
qed

text \<open>The parameters a scenario accepts.\<close>

definition params_ok :: "u64 \<Rightarrow> u64 \<Rightarrow> u64 \<Rightarrow> bool" where
  "params_ok depth levels orders = (depth < 2 ^ 63 \<and> levels < 2 ^ 60 \<and> orders < 2 ^ 63)"

definition good_workload :: "workload \<Rightarrow> bool" where
  "good_workload wl = ((\<exists>P. measures wl P) \<and> wl_rounds wl \<le> ITERS)"

lemma good_workloads:
  "good_workload (passive_insert d)" "good_workload (mixed_workload d)"
  "0 < d \<Longrightarrow> good_workload (aggressive_fill d)" "0 < d \<Longrightarrow> good_workload (market_order_bench d)"
  "l < 2 ^ 60 \<Longrightarrow> good_workload (multi_level_sweep l)" "good_workload (drain_single_level n)"
  "0 < d \<Longrightarrow> d < 2 ^ 63 \<Longrightarrow> good_workload (cancel_bench d)"
  "0 < n \<Longrightarrow> n < 2 ^ 63 \<Longrightarrow> good_workload (cancel_hot_level n)"
  unfolding good_workload_def
  using passive_insert_rests [of d] mixed_workload_safe [of d] aggressive_fill_trades [of d] market_order_trades [of d]
    multi_level_sweeps [of l] drain_sweeps [of n] cancel_bench_cancels [of d] cancel_hot_level_cancels [of n]
  by (auto simp: passive_insert_def mixed_workload_def aggressive_fill_def market_order_bench_def
      multi_level_sweep_def drain_single_level_def cancel_bench_def cancel_hot_level_def Let_def ITERS_def SWEEP_ITERS_def)

lemma depth_rows_good:
  "(\<And>d. d \<in> set ds \<Longrightarrow> good_workload (wl d)) \<Longrightarrow> \<forall>r \<in> set (depth_rows wl ds). good_workload (snd r)"
  "(\<And>d. d \<in> set ds \<Longrightarrow> good_workload (wl d)) \<Longrightarrow> \<forall>r \<in> set (number_rows wl u ds). good_workload (snd r)"
  by (auto simp: depth_rows_def number_rows_def)

lemma param_values_cases:
  "(\<And>x. x \<in> set ds \<Longrightarrow> Q x) \<Longrightarrow> (c \<noteq> 0 \<Longrightarrow> Q c) \<Longrightarrow> x \<in> set (param_values c ds) \<Longrightarrow> Q x"
  by (auto simp: param_values_def split: if_splits)

lemma scenario_rows_good:
  assumes "params_ok depth levels orders"
  shows "\<forall>r \<in> set (scenario_rows k depth levels orders). good_workload (snd r)"
proof -
  have p: "depth < 2 ^ 63" "levels < 2 ^ 60" "orders < 2 ^ 63" using assms by (simp_all add: params_ok_def)
  have z: "(x :: u64) \<noteq> 0 \<Longrightarrow> 0 < x" for x by (simp add: word_gt_0_iff)
  show ?thesis
    by (cases k; simp only: scenario_rows.simps; rule depth_rows_good; erule param_values_cases [rotated 2])
      (auto intro!: good_workloads z p simp: word_less_nat_alt)
qed

lemma profile_rows_end: "\<forall>r \<in> set rows. good_workload (snd r) \<Longrightarrow> profile_rows rows = Some ()"
  by (induction rows rule: profile_rows.induct)
    (auto simp: good_workload_def dest: measures_profile split: option.splits)

lemma profile_scenario_ends: "\<forall>r \<in> set rows. good_workload (snd r) \<Longrightarrow> run_profile_scenario rep rows = Some ()"
  by (induction rep) (simp_all add: profile_rows_end)

section \<open>Saved histograms\<close>

lemma exact_int: "0 \<le> n \<Longrightarrow> n \<le> 2 ^ 53 \<Longrightarrow> dbl_of_int n = Fin False (of_int n)"
  using mk_double_int [of n False] by (simp add: dbl_of_int_def of_rat_double_def)

lemma csv_point:
  assumes "p \<in> set csv_points"
  shows "\<exists>q. p = pct q \<and> 0 \<le> q \<and> q \<le> 100"
proof -
  have d: "\<exists>q. fdiv (dbl_of_int n) (Fin False k) = pct q \<and> 0 \<le> q \<and> q \<le> 100"
    if "0 < n" "n \<le> 2 ^ 53" "0 < k" "of_int n \<le> 100 * k" for n k
  proof (intro exI conjI)
    show "fdiv (dbl_of_int n) (Fin False k) = pct (of_int n / k)"
      using that exact_int [of n] by (auto simp: pct_def of_rat_double_def divide_less_0_iff)
  qed (use that in \<open>simp_all add: field_simps\<close>)
  have i: "\<exists>q. dbl_of_int n = pct q \<and> 0 \<le> q \<and> q \<le> 100" if "n \<in> {0..90}" for n
    using that by (intro exI [of _ "of_int n"]) (simp add: pct_def dbl_of_int_def)
  show ?thesis
    using assms unfolding csv_points_def by (auto intro!: d i)
qed

lemma csv_lines_defined: "\<forall>p \<in> set ps. hg_percentile p h \<noteq> None \<Longrightarrow> csv_lines h ps \<noteq> None"
  by (induction ps) (auto split: option.splits)

lemma csv_defined:
  assumes "hist_ok n h" "n \<le> 2 ^ 53"
  shows "histogram_csv h \<noteq> None"
proof -
  have "\<forall>p \<in> set csv_points. hg_percentile p h \<noteq> None" using csv_point pct_defined [OF assms] by metis
  then obtain body where "csv_lines h csv_points = Some body" using csv_lines_defined by blast
  moreover obtain ns where "hg_percentile (pct (99999 / 1000)) h = Some ns"
    using pct_defined [OF assms, of "99999 / 1000"] by auto
  ultimately show ?thesis by (simp add: histogram_csv_def)
qed

definition reporter_ok :: "reporter \<Rightarrow> bool" where
  "reporter_ok r =
     ((\<forall>(l, h) \<in> set (rp_histograms r). \<exists>n \<le> ITERS. hist_ok n h) \<and> \<not> hg_sorted (rp_combined r) \<and>
      length (hg_values (rp_combined r)) \<le> length (rp_histograms r) * ITERS \<and>
      rp_total_ops r = of_nat (length (hg_values (rp_combined r))))"

lemma saved_all:
  assumes "\<forall>(l, h) \<in> set hs. \<exists>n \<le> ITERS. hist_ok n h" "\<And>l. can_open (csv_path dir l)"
  shows "\<exists>files. save_histograms can_open dir hs = Some files \<and> map fst files = map (csv_path dir \<circ> fst) hs"
  using assms(1)
proof (induction hs)
  case (Cons lh hs)
  obtain l h where lh: "lh = (l, h)" by fastforce
  with Cons.prems obtain n where "n \<le> ITERS" "hist_ok n h" by auto
  then obtain csv where "histogram_csv h = Some csv" using csv_defined [of n h] by (auto simp: ITERS_def)
  moreover obtain files where "save_histograms can_open dir hs = Some files" "map fst files = map (csv_path dir \<circ> fst) hs"
    using Cons by auto
  ultimately show ?case using assms(2) by (simp add: lh)
qed simp

section \<open>The whole benchmark\<close>

lemma say_simps [simp]:
  "rp_combined (say s r) = rp_combined r" "rp_total_ops (say s r) = rp_total_ops r"
  "rp_section (say s r) = rp_section r" "rp_histograms (say s r) = rp_histograms r"
  "rp_output (say s r) = rp_output r @ s"
  by (simp_all add: say_def)

lemma row_defined: "hist_ok n h \<Longrightarrow> n \<le> 2 ^ 53 \<Longrightarrow> \<exists>line. row_line label h = Some line"
  using pct_defined [of n h 50] pct_defined [of n h 99] pct_defined [of n h "999 / 10"] pct_defined [of n h "9999 / 100"]
  by (auto simp: row_line_def)

lemma report_row_ok:
  assumes "reporter_ok r" "hist_ok n h" "n \<le> ITERS"
  shows "\<exists>r'. report_row label h r = Some r' \<and> reporter_ok r' \<and> rp_section r' = rp_section r \<and>
    rp_histograms r' = rp_histograms r @ [(row_name (rp_section r) label, h)]"
proof -
  obtain line where "row_line label h = Some line" using row_defined [OF assms(2)] assms(3) by (auto simp: ITERS_def)
  then show ?thesis
    using assms by (auto simp: report_row_def reporter_ok_def hg_add_def hg_len_def hist_ok_def)
qed

lemma bench_rows_end:
  assumes "\<And>k i. ticks_to_ns v (snd (clocks k i) - fst (clocks k i)) \<noteq> None"
    and "\<forall>row \<in> set rows. good_workload (snd row)" "reporter_ok r"
  shows "\<exists>r'. bench_rows v clocks rows r = Some r' \<and> reporter_ok r' \<and>
    map fst (rp_histograms r') = map fst (rp_histograms r) @ map (row_name (rp_section r) \<circ> fst) rows"
  using assms(2,3)
proof (induction rows arbitrary: r)
  case (Cons row rows)
  obtain label wl where row: "row = (label, wl)" by fastforce
  with Cons.prems obtain P where wl: "measures wl P" "wl_rounds wl \<le> ITERS" by (auto simp: good_workload_def)
  obtain h where h: "run_bench v (clocks (length (rp_histograms r))) wl = Some h" "hist_ok (wl_rounds wl) h"
    using measures_histogram [OF wl(1), of v "clocks (length (rp_histograms r))"] assms(1) by blast
  obtain r1 where r1: "report_row label h r = Some r1" "reporter_ok r1" "rp_section r1 = rp_section r"
    "rp_histograms r1 = rp_histograms r @ [(row_name (rp_section r) label, h)]"
    using report_row_ok [OF Cons.prems(2) h(2) wl(2)] by blast
  with Cons.IH [of r1] Cons.prems(1) h(1) show ?case by (auto simp: row)
qed simp

definition row_names :: "scenario_kind \<Rightarrow> string list" where
  "row_names k = map (row_name (scenario_title k) \<circ> fst) (scenario_rows k 0 0 0)"

lemma scenario_ends:
  assumes "\<And>k i. ticks_to_ns v (snd (clocks k i) - fst (clocks k i)) \<noteq> None"
    and "params_ok depth levels orders" "reporter_ok r"
  shows "\<exists>r'. run_bench_scenario v clocks depth levels orders kind r = Some r' \<and> reporter_ok r' \<and>
    map fst (rp_histograms r') = map fst (rp_histograms r) @
      map (row_name (scenario_title kind) \<circ> fst) (scenario_rows kind depth levels orders)"
proof -
  have "reporter_ok (begin_section t r)" for t using assms(3) by (simp add: begin_section_def reporter_ok_def Let_def)
  from bench_rows_end [OF assms(1) scenario_rows_good [OF assms(2), where k = kind] this [of "scenario_title kind"]]
  show ?thesis by (simp add: run_bench_scenario_def begin_section_def Let_def)
qed

lemma scenarios_end:
  assumes "\<And>k i. ticks_to_ns v (snd (clocks k i) - fst (clocks k i)) \<noteq> None" "reporter_ok r"
  shows "\<exists>r'. bench_scenarios v clocks ks r = Some r' \<and> reporter_ok r' \<and>
    map fst (rp_histograms r') = map fst (rp_histograms r) @ concat (map row_names ks)"
  using assms(2)
proof (induction ks arbitrary: r)
  case (Cons k ks)
  have "params_ok 0 0 0" by (simp add: params_ok_def word_less_nat_alt)
  from scenario_ends [where v = v and clocks = clocks and kind = k, OF assms(1) this Cons.prems] obtain r1 where
    "run_bench_scenario v clocks 0 0 0 k r = Some r1" "reporter_ok r1"
    "map fst (rp_histograms r1) = map fst (rp_histograms r) @ row_names k" by (auto simp: row_names_def)
  with Cons.IH [of r1] show ?case by auto
qed simp

lemma fst_rows:
  "map (row_name t \<circ> fst) (depth_rows wl ds) = map (\<lambda>d. row_name t (into_buf 32 (''depth='' @ fmt_depth d))) ds"
  "map (row_name t \<circ> fst) (number_rows wl u ds) = map (\<lambda>n. row_name t (into_buf 32 (num_llu n @ u))) ds"
  by (simp_all add: depth_rows_def number_rows_def)

lemmas dec_steps = dec_nat.simps [of 0] dec_nat.simps [of "Suc 0"] dec_nat.simps [of 5] dec_nat.simps [of 10] dec_nat.simps [of 50]
  dec_nat.simps [of 100] dec_nat.simps [of 500] dec_nat.simps [of 1000] dec_nat.simps [of 10000]

lemma label_digits: "digit_char 0 = CHR ''0''" "digit_char (Suc 0) = CHR ''1''" "digit_char 5 = CHR ''5''"
  by code_simp+

lemma labels:
  "fmt_depth 0 = ''0''" "fmt_depth 100 = ''100''" "fmt_depth 10000 = ''10K''" "fmt_depth 100000 = ''100K''"
  "num_llu 1 = ''1''" "num_llu 5 = ''5''" "num_llu 10 = ''10''" "num_llu 50 = ''50''" "num_llu 100 = ''100''"
  "num_llu 500 = ''500''" "num_llu 1000 = ''1000''" "num_llu 10000 = ''10000''"
  by (simp_all add: fmt_depth_def num_llu_def dec_steps label_digits)

lemma saved_names:
  "map safe_name (row_names PassiveInsert) =
     [''Passive_Insert_____depth_0'',
      ''Passive_Insert_____depth_100'',
      ''Passive_Insert_____depth_10K'',
      ''Passive_Insert_____depth_100K'']"
  "map safe_name (row_names AggressiveFill) =
     [''Aggressive_Fill__1_lot______depth_100'',
      ''Aggressive_Fill__1_lot______depth_10K'',
      ''Aggressive_Fill__1_lot______depth_100K'']"
  "map safe_name (row_names MultiLevelSweep) =
     [''Multi-Level_Sweep_____1_levels'',
      ''Multi-Level_Sweep_____5_levels'',
      ''Multi-Level_Sweep_____10_levels'',
      ''Multi-Level_Sweep_____50_levels'']"
  "map safe_name (row_names MarketOrder) =
     [''Market_Order__1_lot______depth_100'',
      ''Market_Order__1_lot______depth_10K'',
      ''Market_Order__1_lot______depth_100K'']"
  "map safe_name (row_names CancelScenario) =
     [''Cancel_____depth_100'',
      ''Cancel_____depth_10K'',
      ''Cancel_____depth_100K'']"
  "map safe_name (row_names CancelHotLevel) =
     [''Cancel_Hot_Level__single_price______10_orders_level'',
      ''Cancel_Hot_Level__single_price______100_orders_level'',
      ''Cancel_Hot_Level__single_price______1000_orders_level'',
      ''Cancel_Hot_Level__single_price______10000_orders_level'']"
  "map safe_name (row_names DrainSingleLevel) =
     [''Drain_Single_Level_____10_orders'',
      ''Drain_Single_Level_____50_orders'',
      ''Drain_Single_Level_____100_orders'',
      ''Drain_Single_Level_____500_orders'',
      ''Drain_Single_Level_____1000_orders'']"
  "map safe_name (row_names MixedWorkload) =
     [''Mixed_Workload__65__cancel__25__insert__10__fill______depth_100'',
      ''Mixed_Workload__65__cancel__25__insert__10__fill______depth_10K'',
      ''Mixed_Workload__65__cancel__25__insert__10__fill______depth_100K'']"
  unfolding row_names_def fst_rows scenario_rows.simps scenario_title.simps
  by (simp_all add: param_values_def row_name_def into_buf_def safe_name_def labels safe_char_def)

lemma names_distinct: "distinct (map safe_name (concat (map row_names all_scenarios)))"
proof -
  have "map safe_name (concat (map row_names all_scenarios)) =
      concat (map (\<lambda>k. map safe_name (row_names k)) all_scenarios)" by (simp add: map_concat comp_def)
  then show ?thesis by (simp add: all_scenarios_def saved_names)
qed

lemma paths_distinct: "distinct (map (csv_path dir) (concat (map row_names all_scenarios)))"
proof -
  have "map (csv_path dir) ns = map (\<lambda>s. dir @ ''/'' @ s @ ''.csv'') (map safe_name ns)" for ns
    by (simp add: csv_path_def)
  moreover have "inj (\<lambda>s. dir @ ''/'' @ s @ ''.csv'')" by (rule injI) simp
  ultimately show ?thesis using names_distinct by (simp only: distinct_map inj_on_subset [OF _ subset_UNIV] simp_thms)
qed

text \<open>The number of operations per second fits, unless the clock stood still.\<close>

lemma throughput_defined:
  assumes "unat t \<le> 2 ^ 23" "s \<noteq> e"
  shows "dbl_to_u64 (fdiv (dbl_of_u64 t) (elapsed_seconds s e)) \<noteq> None"
proof -
  have "int (unat t) \<le> int (2 ^ 23)" using assms(1) by (simp only: of_nat_le_iff)
  then have t: "uint t \<le> 2 ^ 23" unfolding uint_nat by (rule order_trans) simp
  define d where "d = uint (e - s)"
  have "e - s \<noteq> 0" using assms(2) by simp
  then have "d \<noteq> 0" unfolding d_def by (simp only: uint_0_iff not_False_eq_True)
  moreover have "0 \<le> d" "d < 2 ^ 64" using uint_lt2p [of "e - s"] by (simp_all add: d_def)
  ultimately have d: "1 \<le> d" "d \<le> 2 ^ 64" by linarith+
  have ex: "rnd (2 ^ 64) = 2 ^ 64" "rnd (1 / 2 ^ 30) = 1 / 2 ^ 30" "rnd 1 = 1" "rnd (2 ^ 53) = 2 ^ 53"
    using rnd_exact [OF representableI [of _ 1 64]] rnd_exact [OF representableI [of _ 1 "- 30"]]
      rnd_exact [OF representable_int [of 1]] rnd_exact [OF representable_int [of "2 ^ 53"]] by simp_all
  have big: "x < max_finite_bound" if "x \<le> 2 ^ 64" for x
  proof -
    have "(2 ^ 64 :: rat) = pw 64" by (simp add: power_int_def)
    also have "\<dots> < max_finite_bound" unfolding max_finite_bound_def by (simp only: pw_less_iff)
    finally show ?thesis using that by simp
  qed
  define x where "x = rnd (of_int d)"
  have x: "1 \<le> x" "x \<le> 2 ^ 64"
    using rnd_mono [of 1 "of_int d"] rnd_mono [of "of_int d" "2 ^ 64"] d ex by (simp_all add: x_def)
  have dx: "dbl_of_int d = Fin False x"
    using d big [OF x(2)] by (simp add: dbl_of_int_def of_rat_double_def mk_double_alt x_def)
  define y where "y = rnd (x / 1000000000)"
  have y: "1 / 2 ^ 30 \<le> y" "y \<le> 2 ^ 64"
    using rnd_mono [of "1 / 2 ^ 30" "x / 1000000000"] rnd_mono [of "x / 1000000000" "2 ^ 64"] x ex by (simp_all add: y_def)
  have "0 \<le> x / 1000000000" using x(1) by simp
  from mk_double_alt [OF this, of False] big [OF y(2)] have "mk_double False (x / 1000000000) = Fin False y"
    unfolding y_def by (metis not_le)
  moreover have "fdiv (Fin False x) (Fin False 1000000000) = mk_double False (x / 1000000000)" by simp
  ultimately have "elapsed_seconds s e = Fin False y"
    unfolding elapsed_seconds_def d_def [symmetric] dx by (rule trans [rotated])
  moreover have "dbl_of_u64 t = Fin False (of_int (uint t))"
    by (rule exact_int [OF uint_ge_0]) (rule order_trans [OF t], simp)
  moreover define z where "z = of_int (uint t) / y"
  moreover have "0 \<le> z" "z \<le> 2 ^ 53"
  proof -
    have "(of_int (uint t) :: rat) \<le> of_int (2 ^ 23)" using t by (simp only: of_int_le_iff)
    then have "(of_int (uint t) :: rat) \<le> 2 ^ 23" by simp
    then have "of_int (uint t) / y \<le> 2 ^ 23 / (1 / 2 ^ 30)" using y by (intro frac_le) simp_all
    then show "z \<le> 2 ^ 53" by (simp add: z_def)
    have "0 \<le> y" by (rule order_trans [OF _ y(1)]) simp
    then show "0 \<le> z" unfolding z_def by (intro divide_nonneg_nonneg of_int_0_le_iff [THEN iffD2] uint_ge_0)
  qed
  moreover from this have "0 \<le> rnd z" "rnd z \<le> 2 ^ 53" using rnd_nonneg [of z] rnd_mono [of z "2 ^ 53"] ex by simp_all
  moreover from this(2) have "\<lfloor>rnd z\<rfloor> < 2 ^ 64" by (simp add: floor_less_iff)
  ultimately show ?thesis using y(1) big [of "rnd z"] by (simp add: mk_double_alt z_def)
qed

lemma bench_run_completes:
  assumes "\<And>k i. ticks_to_ns (bw_ns_per_tick w) (snd (bw_clocks w k i) - fst (bw_clocks w k i)) \<noteq> None"
    and "bw_start_ns w \<noteq> bw_end_ns w" "\<And>path. bw_can_open w path"
  shows "\<exists>out. bench_main w [prog] = Some out \<and> be_status out = 0 \<and>
    map fst (be_files out) = (bench_stem (bw_now w) @ ''.txt'') #
      map (csv_path (bench_stem (bw_now w) @ ''_histograms'')) (concat (map row_names all_scenarios))"
proof -
  let ?r = "reporter_header (into_buf 128 (''    warmup='' @ num_llu (of_nat WARMUP) @ ''  iters='' @ num_llu (of_nat ITERS) @
      ''  sweep_iters='' @ num_llu (of_nat SWEEP_ITERS))) (git_version (bw_git_hash w) (bw_git_status w)
      (reporter_header ''=== Matching Engine Latency Benchmark (C++) ==='' new_reporter))"
  have r: "reporter_ok ?r" "rp_histograms ?r = []"
    by (simp_all add: reporter_header_def git_version_def new_reporter_def reporter_ok_def empty_histogram_def Let_def)
  from scenarios_end [where ks = all_scenarios and clocks = "bw_clocks w", OF assms(1) r(1)] obtain r1 where
    r1: "bench_scenarios (bw_ns_per_tick w) (bw_clocks w) all_scenarios ?r = Some r1" "reporter_ok r1"
      "map fst (rp_histograms r1) = concat (map row_names all_scenarios)" using r(2) by auto
  have "length (map fst (rp_histograms r1)) = 29"
    unfolding r1(3) by (simp add: all_scenarios_def row_names_def depth_rows_def number_rows_def param_values_def)
  then have n: "length (hg_values (rp_combined r1)) \<le> 29 * 200000" using r1(2) by (simp add: reporter_ok_def ITERS_def)
  then have "unat (rp_total_ops r1) \<le> 2 ^ 23" using r1(2) by (simp add: reporter_ok_def unat_of_nat)
  from throughput_defined [OF this assms(2)] obtain tp where
    tp: "dbl_to_u64 (fdiv (dbl_of_u64 (rp_total_ops r1)) (elapsed_seconds (bw_start_ns w) (bw_end_ns w))) = Some tp" by blast
  have "hist_ok (length (hg_values (rp_combined r1))) (rp_combined r1)" using r1(2) by (simp add: hist_ok_def reporter_ok_def)
  moreover have "length (hg_values (rp_combined r1)) \<le> 2 ^ 53" using n by simp
  ultimately have p: "hg_percentile (pct q) (rp_combined r1) \<noteq> None" if "0 \<le> q" "q \<le> 100" for q
    by (rule pct_defined) (use that in auto)
  obtain r2 where r2: "report_summary (elapsed_seconds (bw_start_ns w) (bw_end_ns w)) r1 = Some r2"
    "rp_histograms r2 = rp_histograms r1"
    using tp p [of 50] p [of 99] p [of "999 / 10"] by (auto simp: report_summary_def Let_def)
  have rep: "bench_report w default_bench_args = Some r2"
    using r1(1) r2(1) by (simp add: bench_report_def default_bench_args_def Let_def)
  have "\<forall>(l, h) \<in> set (rp_histograms r2). \<exists>n \<le> ITERS. hist_ok n h" using r1(2) r2(2) by (simp add: reporter_ok_def)
  from saved_all [OF this, of "bw_can_open w" "bench_stem (bw_now w) @ ''_histograms''"] assms(3) obtain files where
    "save_histograms (bw_can_open w) (bench_stem (bw_now w) @ ''_histograms'') (rp_histograms r2) = Some files"
    "map fst files = map (csv_path (bench_stem (bw_now w) @ ''_histograms'') \<circ> fst) (rp_histograms r2)" by auto
  moreover from this(2) have "map fst files = map (csv_path (bench_stem (bw_now w) @ ''_histograms'')) (concat (map row_names all_scenarios))"
    using r1(3) r2(2) by (simp flip: map_map)
  ultimately obtain sv where "report_save (bw_can_open w) (bw_now w) r2 = Some sv"
    "map fst (sv_files sv) = (bench_stem (bw_now w) @ ''.txt'') #
      map (csv_path (bench_stem (bw_now w) @ ''_histograms'')) (concat (map row_names all_scenarios))"
    using assms(3) by (simp add: report_save_def Let_def)
  with rep run_tests_pass show ?thesis
    by (simp add: bench_main_def bench_stop_def default_bench_args_def)
qed

section \<open>Options\<close>

lemma profile_completes:
  assumes "params_ok (ba_depth a) (ba_levels a) (ba_orders a)" "ba_has_scenario a"
  shows "\<exists>out. profile_main w prog a = Some out \<and> be_status out = 0 \<and> be_stdout out = []"
  using profile_scenario_ends [OF scenario_rows_good [OF assms(1)]] assms(2) by (simp add: profile_main_def bench_stop_def)

text \<open>The usage gives \<open>--depth\<close> to the \<open>bench\<close> mode with or without a scenario; without one it has no effect.\<close>

lemma depth_needs_scenario: "bench_main w [prog, ''bench'', ''--depth'', n] = bench_main w [prog, ''bench'']"
  by (simp add: bench_main_def plain_arg_def default_bench_args_def bench_report_def)

text \<open>\<open>bench\<close> after the scenario drops it, and all benchmarks run.\<close>

lemma bench_drops_scenario: "bench_main w [prog, ''--scenario'', ''cancel'', ''bench''] = bench_main w [prog, ''bench'']"
  by (simp add: bench_main_def plain_arg_def default_bench_args_def bench_report_def with_scenario_def parse_scenario_def
      scenario_table_def)

end
