(* ===== verification/Spec2Isabelle.thy ===== *)
theory Spec2Isabelle
  imports Matching_Properties OMS_Properties Gateway_Properties Market_Data_Properties Tracer_Properties
    Stats_Properties Pipeline_Properties Matching_Tests Report_Properties Profiled_Loop TSC_Properties TSC_Args
    Bench_Run
begin

text \<open>
  Verification of the nanosecond trading stack.

  \<^bold>\<open>The program.\<close> A trading client in C++: two UDP receivers deliver quotes of a target market and
  reference prices (\<open>src/market_data.cpp\<close>); a top-of-book view holds the last of each
  (\<open>src/orderbook.cpp\<close>); a strategy compares them (\<open>src/strategy.cpp\<close>); an order management system
  checks risk and tracks orders, position and profit (\<open>include/nts/oms.h\<close>, \<open>src/oms.cpp\<close>); a TCP
  gateway writes orders and frames execution reports (\<open>src/order_gateway.cpp\<close>,
  \<open>include/nts/wire_protocol.h\<close>); \<open>src/main.cpp\<close> drives all of them in one loop; tracer, clock, tick
  ring, statistics and hardware counters measure it (\<open>include/nts/instrument\<close>, \<open>src/instrument\<close>,
  \<open>src/pipeline_utils.cpp\<close>, \<open>src/perf_counter.cpp\<close>), and reports are printed and saved at the end.
  Beside it stand two matching books, \<open>src/matching/orderbook.cpp\<close> and \<open>src/matching_engine.cpp\<close>, a
  benchmark of the first, \<open>benchmarks/matching_bench.cpp\<close>, and a tool of its own that measures the skew between the time stamp counters of two cores,
  \<open>tools/tsc_sync_check.cpp\<close>.

  \<^bold>\<open>Conventions.\<close> Unsigned integers are words of their width and wrap; \<open>int32_t\<close> is a word read with
  \<open>sint\<close>; \<open>double\<close> is an executable model of binary64 with round-to-nearest-even, infinities, NaN and
  signed zeros (\<open>Doubles\<close>), and its bit pattern is exact. Structs that cross the network are their
  little-endian bytes (\<open>Bytes\<close>). Arrays of fixed size that the code indexes with a bounded index are
  functions from the index; \<open>std::map\<close> and \<open>std::unordered_map\<close> are association lists, ordered where
  the code iterates. \<open>None\<close> is undefined behaviour (an access outside an array, a dangling iterator, a
  conversion that does not fit) or, where a theory says so, a script of system-call results that ends
  too early. The kernel, the clocks and the exchange are arguments: lists of results of successive
  calls, readings, and for the hardware counters a record of the calls on a state of the kernel's.
  What is printed is a string.

  \<^bold>\<open>Theories.\<close>
  \<^item> \<open>Prelude\<close>, \<open>Ordered_Map\<close>, \<open>Common\<close>: names of the integer types, association lists and words;
    ordered maps; the enumerations and limits of \<open>common.h\<close>.
  \<^item> \<open>Matching_Types\<close>, \<open>Matching_Book\<close>: the matching order book: price levels as ordered maps of
    queues, order locations with iterators, \<open>add_order\<close>, \<open>cancel\<close> and the observers. \<open>Matching_Spec\<close> is the
    abstract book (two lists of resting orders in priority order); \<open>Matching_Sweep\<close>, \<open>Matching_Inv\<close> and
    \<open>Matching_Refine\<close> prove the invariant and the simulation. \<open>Matching_Engine\<close> is the second book and
    an instance of the same interface. \<open>Matching_Properties\<close> (C1 to C7): memory safety, refinement,
    never crossed, conservation of quantity, price-time priority, exact observers, equivalence of the
    two books; the lemma \<open>duplicate_id_breaks_len\<close> is what a reused identifier breaks.
    \<open>Matching_Tests\<close> runs the repository's tests of the second book on its model.
  \<^item> \<open>Order_Map\<close>: the open-addressing index of orders, with positions of thirteen bits, linear
    probing, and removal by rehashing a cluster, whose termination is proved. \<open>OMS\<close> is the order
    management system; \<open>OMS_Inv\<close> its slot invariant and the refinement to a map from identifiers to
    orders; \<open>OMS_Ledger\<close> its accounting. \<open>OMS_Properties\<close> (C8 to C16): memory safety, refinement of
    reports and submissions, balance of the counters with a protocol-abiding exchange, bounds on what
    is in flight and on accepted orders, exact profit, a position limit that can be exceeded, and
    exact removal from the index; lemmas show exact insertion and the leak of a pending order that is
    cancelled before its acknowledgement.
  \<^item> \<open>Wire\<close>, \<open>Gateway\<close>: the two structs on the wire and the gateway's connect, submit, poll and close.
    \<open>Gateway_Properties\<close> (C17 to C19): exact framing of the report stream whatever the sizes of the
    reads, delivery of everything sent, and the round trip of an order; lemmas bound the buffer and
    show the reports lost at a disconnect.
  \<^item> \<open>Market_Data\<close>: message structs, the union as its 56 bytes, and the receiver.
    \<open>Market_Data_Properties\<close> (C20 to C22): the latest valid message, exact gap counting, round trips;
    a lemma shows a message that is counted but not stored.
  \<^item> \<open>L1_Book\<close> (C23): the book view and the strategy.
  \<^item> \<open>Clock\<close> (C24): the three builds of the clock. \<open>Tracer\<close> and \<open>Tracer_Properties\<close> (C25, C26): the
    ring of traces refines a log; the oldest trace an idle iteration destroys. \<open>Stats\<close> and
    \<open>Stats_Properties\<close> (C27): latency statistics and the tick sampler. \<open>Tick_Ring\<close> (C28): the ring
    of order time stamps, the command line and the result directories.
  \<^item> \<open>Pipeline\<close>: \<open>main.cpp\<close> from the decision on an order to the loop, written once over a record of
    tracer operations as the source is over \<open>ActiveTracer\<close>. \<open>Pipeline_Properties\<close> (C29 to C32): order
    discipline, invariants of the whole loop, tracing does not change trading, and an order at price
    zero before the first quote.
  \<^item> \<open>C_Text\<close>: numbers as text, the part of \<open>strtol\<close>, \<open>atoi\<close> and \<open>printf\<close> the program uses, with the round
    trips between them. \<open>Civil_Time\<close> (C34): \<open>gmtime_r\<close> and the names of saved reports. \<open>Reports\<close>: every
    report as its text, the end of \<open>run_pipeline\<close>, the signal handlers and \<open>main\<close>, over either tracer
    build. \<open>Report_Properties\<close> (C33): the program from its command line to its exit; lemmas on what the
    trading report prints.
  \<^item> \<open>PMU\<close>: the hardware counters, their lazily created instances, groups, scope and printed totals.
    \<open>PMU_Properties\<close>: what a profile scope adds to the totals, for every kernel with the laws
    \<open>perf_kernel_laws\<close> of the manual page, and that such a kernel exists; a lemma on unknown groups.
    \<open>Profiled_Loop\<close> (C35): the trading loop of the profiling build, and what its totals mean.
  \<^item> \<open>TSC_Sync\<close>: the command line of the tool, the handshake of its two threads as two state machines
    whose every access to a shared variable is a step, the evaluation of the samples, and \<open>main\<close>.
    \<open>TSC_Handshake\<close> is the invariant over every interleaving. \<open>TSC_Properties\<close> (C36 to C38): the printed
    interval contains the true skew, the measurement ends, and a core that cannot be pinned ends the
    process. \<open>TSC_Args\<close> (C39): the settings accepted are well-formed; a lemma shows that settings
    written out are read back.
  \<^item> \<open>Bench\<close>: the workloads of the benchmark, each as the state it keeps, its untimed preparation and
    its timed operation, and the loops that run them with and without the clock. \<open>Bench_Properties\<close>
    (C40): in every iteration each workload performs the operation it is named after. \<open>Bench_Report\<close>:
    the benchmark's tests, its tables, summary and saved histograms. \<open>Bench_Main\<close>: scenarios, command
    line and \<open>main\<close>. \<open>Bench_Run\<close>: the percentiles of a row are in order, every scenario runs to its end,
    no two histograms share a file, and the options that have no effect.

  \<^bold>\<open>Interfaces.\<close> \<open>limit_book\<close> is the contract of a matching book, interpreted by both books;
  \<open>order_index\<close> is what the order management system uses of its index, interpreted by the hash table;
  \<open>field_codec\<close> is a fixed-width field of a struct, interpreted for the four field types. Their lemmas
  are used through the interpretations.

  \<^bold>\<open>Termination and bounds.\<close> The matching loops end because each level visited is emptied or the order
  is filled; the rehash of \<open>map_remove\<close> is a partial function shown to return on every table that
  satisfies the invariant; the loop over execution reports ends because each report takes forty bytes
  off a finite stream. The loops over system calls recurse over the list of their results. The two
  threads of the TSC tool spin on each other: under a scheduler that gives the target six steps for
  each of the reference thread, seven such rounds per sample and six more end the measurement. Theorems
  over sequences of calls exclude only the exhaustion of 64-bit identifiers; arithmetic bounds in
  other theorems (\<open>2 ^ 53\<close> for sums of latencies, \<open>2 ^ 52\<close> for turnover) are where doubles stop being
  exact on integers; the skew theorem takes counters that stay below \<open>2 ^ 62\<close>.

  \<^bold>\<open>Not modelled.\<close> The script that runs the benchmark (\<open>tools/bench_runner.py\<close>). Memory reserved ahead
  (\<open>reserve\<close>) and the exhaustion of memory. The messages the receivers and the gateway print when they
  cannot be opened, and the sign that \<open>printf\<close> may put before a NaN. The exchange is a separate Rust
  program that is not in the repository; what the client relies on of it is the protocol predicate of
  \<open>OMS_Ledger\<close>.
\<close>

end
